(* ===== verification/Ygo_Prelude.thy ===== *)
theory Ygo_Prelude
  imports Main "HOL-Library.Word"
begin

text \<open>
  The shared vocabulary of the development: the machine types of the Go sources, results
  that may be errors, and the generic facts on words and lists that the components share.

  A Go \<open>uint64\<close> (and the named types \<open>ClientID\<close> and \<open>BigInt\<close> over 64-bit integers) is a
  \<open>64 word\<close>, a \<open>byte\<close> is an \<open>8 word\<close>. A function that returns a pair \<open>(T, error)\<close> returns a
  sum, with the error on the left.
\<close>

unbundle bit_operations_syntax

type_synonym byte = "8 word"
type_synonym u64 = "64 word"
type_synonym u32 = "32 word"

named_theorems bits_split
  \<open>equations that recombine a word from its low and high bits\<close>

subsection \<open>Words\<close>

lemma word_take_drop_bit [bits_split]:
  fixes v :: "'a::len word"
  shows "take_bit n v OR push_bit n (drop_bit n v) = v"
proof (rule bit_word_eqI)
  fix k assume "k < LENGTH('a)"
  then show "bit (take_bit n v OR push_bit n (drop_bit n v)) k = bit v k"
    by (cases "k < n") (simp_all add: bit_simps)
qed

lemma unat_drop_bit: "unat (drop_bit n w) = unat w div 2 ^ n"
  by (subst unat_drop_bit_eq) (rule drop_bit_eq_div)

lemma unat_drop_bit_bound: "unat v < 2 ^ (n + m) \<Longrightarrow> unat (drop_bit n v) < 2 ^ m"
  by (simp add: unat_drop_bit power_add less_mult_imp_div_less mult.commute)

lemma or_take_drop_bit:
  fixes v :: "'a::len word"
  shows "(acc OR push_bit s (take_bit n v)) OR push_bit (s + n) (drop_bit n v) = acc OR push_bit s v"
proof -
  have "push_bit s (take_bit n v OR push_bit n (drop_bit n v)) = push_bit s v"
    by (simp only: word_take_drop_bit)
  then show ?thesis by (simp only: push_bit_or push_bit_push_bit or.assoc)
qed

lemma byte_127: "(0x7F :: byte) = mask 7"
  by (simp add: mask_eq_exp_minus_1)

lemma word_less_take_bit: "unat (v :: 'a::len word) < 2 ^ n \<Longrightarrow> take_bit n v = v"
  by (rule word_unat_eq_iff [THEN iffD2]) (simp add: unsigned_take_bit_eq take_bit_nat_eq_self)

lemma take_bit_unat_less:
  fixes v :: "'a::len word"
  assumes "take_bit n v = v"
  shows "unat v < 2 ^ n"
proof -
  have "unat v = take_bit n (unat v)"
    using assms by (metis unsigned_take_bit_eq)
  then show ?thesis using take_bit_nat_less_exp[of n "unat v"] by simp
qed

lemma bit_int_exp [simp]:
  "bit (128 :: int) n \<longleftrightarrow> n = 7" "bit (64 :: int) n \<longleftrightarrow> n = 6"
  using bit_exp_iff[of 7 n, where ?'a = int] bit_exp_iff[of 6 n, where ?'a = int] by auto

lemma bit_int_mask [simp]:
  "bit (127 :: int) n \<longleftrightarrow> n < 7" "bit (63 :: int) n \<longleftrightarrow> n < 6"
  using bit_mask_iff[of 7 n, where ?'a = int] bit_mask_iff[of 6 n, where ?'a = int]
  by (simp_all add: mask_eq_exp_minus_1)

lemma byte_and_128: "(b :: byte) AND 0x80 = 0 \<longleftrightarrow> \<not> bit b 7"
proof -
  have "b AND 0x80 = (if bit b 7 then 0x80 else 0)"
    by (rule bit_word_eqI) (auto simp: bit_simps)
  then show ?thesis by simp
qed

lemma cont_byte_flag: "((w :: byte) OR 0x80) AND 0x80 \<noteq> 0"
  unfolding byte_and_128 by (simp add: bit_simps)

lemma cont_byte_data: "ucast (((ucast v :: byte) OR 0x80) AND 0x7F) = take_bit 7 (v :: u64)"
  unfolding byte_127 by (rule bit_word_eqI) (auto simp: bit_simps)

lemma ucast_byte_low_bits: "ucast ((ucast v :: byte) AND 0x7F) = take_bit 7 (v :: u64)"
  unfolding byte_127 by (rule bit_word_eqI) (auto simp: bit_simps)

lemma last_byte_flag: "v < 0x80 \<Longrightarrow> (ucast (v :: u64) :: byte) AND 0x80 = 0"
proof -
  assume "v < 0x80"
  then have "take_bit 7 v = v" by (intro word_less_take_bit) (simp add: word_less_nat_alt)
  then have "\<not> bit v 7" by (metis bit_take_bit_iff less_irrefl)
  then show ?thesis unfolding byte_and_128 by (simp add: bit_simps)
qed

lemma last_byte_data: "v < 0x80 \<Longrightarrow> ucast ((ucast (v :: u64) :: byte) AND 0x7F) = v"
  unfolding ucast_byte_low_bits
  by (intro word_less_take_bit) (simp add: word_less_nat_alt)

lemma byte_and_64: "(b :: byte) AND 0x40 \<noteq> 0 \<longleftrightarrow> bit b 6"
proof -
  have "b AND 0x40 = (if bit b 6 then 0x40 else 0)"
    by (rule bit_word_eqI) (auto simp: bit_simps)
  then show ?thesis by simp
qed

text \<open>The first byte of a sign-magnitude integer: continuation bit, sign bit, six data bits.\<close>

lemma sign_byte_cont:
  fixes v :: u64
  shows "((0x80 :: byte) OR (if neg then 0x40 else 0) OR ucast (v AND 0x3F)) AND 0x80 \<noteq> 0"
    and "((0x80 :: byte) OR (if neg then 0x40 else 0) OR ucast (v AND 0x3F)) AND 0x40 \<noteq> 0 \<longleftrightarrow> neg"
    and "ucast (((0x80 :: byte) OR (if neg then 0x40 else 0) OR ucast (v AND 0x3F)) AND 0x3F)
      = take_bit 6 v"
    apply (simp only: byte_and_128) apply (simp add: bit_simps)
   apply (simp only: byte_and_64) apply (simp add: bit_simps)
  apply (rule bit_word_eqI) apply (auto simp: bit_simps) done

lemma sign_byte_last:
  fixes v :: u64
  assumes "v < 64"
  shows "((if neg then 0x40 else 0 :: byte) OR ucast v) AND 0x80 = 0"
    and "((if neg then 0x40 else 0 :: byte) OR ucast v) AND 0x40 \<noteq> 0 \<longleftrightarrow> neg"
    and "ucast (((if neg then 0x40 else 0 :: byte) OR ucast v) AND 0x3F) = v"
proof -
  have v: "take_bit 6 v = v" using assms by (intro word_less_take_bit) (simp add: word_less_nat_alt)
  have hi: "\<not> bit v n" if "6 \<le> n" for n
    using that by (subst v[symmetric]) (simp add: bit_simps)
  show "((if neg then 0x40 else 0 :: byte) OR ucast v) AND 0x80 = 0"
    using hi[of 7] by (simp add: byte_and_128 bit_simps)
  show "((if neg then 0x40 else 0 :: byte) OR ucast v) AND 0x40 \<noteq> 0 \<longleftrightarrow> neg"
    using hi[of 6] by (simp only: byte_and_64) (simp add: bit_simps)
  show "ucast (((if neg then 0x40 else 0 :: byte) OR ucast v) AND 0x3F) = v"
    by (subst v[symmetric], rule bit_word_eqI) (auto simp: bit_simps)
qed

lemma ucast_ucast_byte:
  fixes v :: "'a::len word"
  shows "(ucast (ucast v :: byte) :: 'a word) = take_bit 8 v"
  by (rule bit_word_eqI) (auto simp: bit_simps)

lemma push_take_bit_split:
  fixes v :: "'a::len word"
  shows "push_bit k (push_bit n a OR take_bit n (drop_bit k v)) OR take_bit k v
    = push_bit (k + n) a OR take_bit (k + n) v"
proof -
  have "push_bit k (take_bit n (drop_bit k v)) OR take_bit k v = take_bit (k + n) v"
  proof (rule bit_word_eqI)
    fix j assume "j < LENGTH('a)"
    then show "bit (push_bit k (take_bit n (drop_bit k v)) OR take_bit k v) j = bit (take_bit (k + n) v) j"
      by (cases "j < k") (auto simp: bit_simps)
  qed
  then show ?thesis by (simp add: push_bit_or push_bit_push_bit or.assoc)
qed

lemma sint_small:
  assumes "unat (v :: u64) < 2 ^ 63"
  shows "sint v = int (unat v)"
proof -
  have "int (unat v) < int (2 ^ 63)" using assms by (simp only: of_nat_less_iff)
  then have "uint v < 2 ^ 63" by simp
  moreover have "- (2 ^ 63) \<le> uint v" using uint_ge_0[of v] by (simp add: order_trans[OF _ uint_ge_0])
  ultimately have "signed_take_bit 63 (uint v) = uint v" by (rule signed_take_bit_int_eq_self[rotated])
  then show ?thesis by (simp add: sint_uint)
qed

lemma unat_abs_sint: "int (unat (if sint v < 0 then - v else v)) = \<bar>sint (v :: u64)\<bar>"
proof -
  have r: "- (2 ^ 63) \<le> sint v" "sint v < 2 ^ 63" using sint_ge[of v] sint_lt[of v] by simp_all
  have v: "v = word_of_int (sint v)" by simp
  then have "(if sint v < 0 then - v else v) = word_of_int \<bar>sint v\<bar>" by (metis abs_if wi_hom_neg)
  moreover have "uint (word_of_int \<bar>sint v\<bar> :: u64) = \<bar>sint v\<bar>"
    using r by (simp add: uint_word_of_int)
  ultimately show ?thesis by (simp add: unat_eq_nat_uint)
qed

subsection \<open>Go maps as lists of entries\<close>

text \<open>Assignment to a map entry: a later value replaces the earlier one.\<close>

fun map_put :: "'k \<Rightarrow> 'v \<Rightarrow> ('k \<times> 'v) list \<Rightarrow> ('k \<times> 'v) list" where
  "map_put k v [] = [(k, v)]"
| "map_put k v ((k', v') # kvs) = (if k' = k then (k, v) # kvs else (k', v') # map_put k v kvs)"

lemma map_of_map_put [simp]: "map_of (map_put k v kvs) = (map_of kvs)(k \<mapsto> v)"
  by (induction k v kvs rule: map_put.induct) auto

lemma keys_map_put [simp]: "fst ` set (map_put k v kvs) = insert k (fst ` set kvs)"
  by (induction k v kvs rule: map_put.induct) auto

lemma set_map_put: "set (map_put k v kvs) \<subseteq> insert (k, v) (set kvs)"
  by (induction k v kvs rule: map_put.induct) auto

lemma distinct_map_put [simp]: "distinct (map fst (map_put k v kvs)) = distinct (map fst kvs)"
  by (induction k v kvs rule: map_put.induct) (auto simp: image_iff dest: keys_map_put[THEN equalityD1, THEN subsetD])

lemma map_put_new: "k \<notin> fst ` set kvs \<Longrightarrow> map_put k v kvs = kvs @ [(k, v)]"
  by (induction k v kvs rule: map_put.induct) auto

lemma map_put_fold: "distinct (map fst (acc @ kvs)) \<Longrightarrow> foldl (\<lambda>m kv. map_put (fst kv) (snd kv) m) acc kvs = acc @ kvs"
proof (induction kvs arbitrary: acc)
  case (Cons kv kvs)
  from Cons.prems have "map_put (fst kv) (snd kv) acc = acc @ [kv]" by (subst map_put_new) auto
  with Cons.IH[of "acc @ [kv]"] Cons.prems show ?case by simp
qed simp

end
