(* ===== verification/Varint.thy ===== *)
theory Varint
  imports Ygo_Prelude
begin

text \<open>
  The lib0 primitives of \<^verbatim>\<open>src/encoding/encoder.go\<close> and \<^verbatim>\<open>src/internal/anycodec/decoder.go\<close>:
  the growing byte buffer of the encoder, the decoder's cursor over a byte slice, and the
  variable-length integers, byte slices and fixed-width big-endian words.

  An encoder has one field, its buffer, so it is the buffer. A read returns its result and
  the decoder with the cursor where the code leaves it, also when the read fails.
\<close>

subsection \<open>The encoder\<close>

type_synonym encoder = "byte list"

definition WriteUint8 :: "encoder \<Rightarrow> byte \<Rightarrow> encoder" where
  "WriteUint8 e v = e @ [v]"

definition WriteRaw :: "encoder \<Rightarrow> byte list \<Rightarrow> encoder" where
  "WriteRaw e b = e @ b"

text \<open>The loop shifts \<open>v\<close> right by seven bits while it does not fit one byte.\<close>

function WriteVarUint :: "encoder \<Rightarrow> u64 \<Rightarrow> encoder" where
  "WriteVarUint e v =
     (if 0x80 \<le> v then WriteVarUint (e @ [ucast v OR 0x80]) (drop_bit 7 v)
      else e @ [ucast v])"
  by pat_completeness auto
termination
proof (relation "measure (\<lambda>(e, v). unat v)")
  fix e :: encoder and v :: u64
  assume "0x80 \<le> v"
  then have "128 \<le> unat v" by (simp add: word_le_nat_alt)
  then have "unat v div 128 < unat v" by simp
  then show "((e @ [ucast v OR 0x80], drop_bit 7 v), e, v) \<in> measure (\<lambda>(e, v). unat v)"
    by (simp add: unat_drop_bit)
qed simp

declare WriteVarUint.simps [simp del]

text \<open>
  The sign-magnitude integers. An \<open>int64\<close> is its \<open>64 word\<close> in two's complement; \<^verbatim>\<open>uint64(-v)\<close>
  is the negation of the word, which for the least \<open>int64\<close> is \<open>2 ^ 63\<close>. The loop that
  writes the magnitude's upper bits is the same in \<open>WriteVarIntE\<close> and \<open>writeNegVarUint\<close>.
\<close>

datatype enc_error = ErrVarIntOutOfRange | EncErrInvalidUTF8 | UnsupportedType

function writeVarTail :: "encoder \<Rightarrow> u64 \<Rightarrow> encoder" where
  "writeVarTail e mag =
     (if 128 \<le> mag then writeVarTail (e @ [0x80 OR ucast (mag AND 0x7F)]) (drop_bit 7 mag)
      else e @ [ucast mag])"
  by pat_completeness auto
termination
proof (relation "measure (\<lambda>(e, v). unat v)")
  fix e :: encoder and v :: u64
  assume "128 \<le> v"
  then have "128 \<le> unat v" by (simp add: word_le_nat_alt)
  then show "((e @ [0x80 OR ucast (v AND 0x7F)], drop_bit 7 v), e, v) \<in> measure (\<lambda>(e, v). unat v)"
    by (simp add: unat_drop_bit)
qed simp

declare writeVarTail.simps [simp del]

definition WriteVarIntE :: "encoder \<Rightarrow> u64 \<Rightarrow> enc_error + encoder" where
  "WriteVarIntE e v =
     (let sign = (if sint v < 0 then 0x40 else 0 :: byte);
          mag = (if sint v < 0 then - v else v)
      in if mag > push_bit 55 1 - 1 then Inl ErrVarIntOutOfRange
         else if mag < 64 then Inr (e @ [sign OR ucast mag])
         else Inr (writeVarTail (e @ [0x80 OR sign OR ucast (mag AND 0x3F)]) (drop_bit 6 mag)))"

definition writeNegVarUint :: "encoder \<Rightarrow> u64 \<Rightarrow> encoder" where
  "writeNegVarUint e v =
     (if v < 64 then e @ [0x40 OR ucast v]
      else writeVarTail (e @ [0x80 OR 0x40 OR ucast (v AND 0x3F)]) (drop_bit 6 v))"

definition WriteVarBytes :: "encoder \<Rightarrow> byte list \<Rightarrow> encoder" where
  "WriteVarBytes e b = WriteVarUint e (of_nat (length b)) @ b"

text \<open>Big-endian words: \<^verbatim>\<open>binary.BigEndian.PutUint32\<close> and \<^verbatim>\<open>PutUint64\<close>.\<close>

definition be_bytes32 :: "u32 \<Rightarrow> byte list" where
  "be_bytes32 v = map (\<lambda>i. ucast (drop_bit (8 * i) v)) [3, 2, 1, 0]"

definition be_bytes64 :: "u64 \<Rightarrow> byte list" where
  "be_bytes64 v = map (\<lambda>i. ucast (drop_bit (8 * i) v)) [7, 6, 5, 4, 3, 2, 1, 0]"

definition WriteFloat32 :: "encoder \<Rightarrow> u32 \<Rightarrow> encoder" where
  "WriteFloat32 e bits = e @ be_bytes32 bits"

definition WriteFloat64 :: "encoder \<Rightarrow> u64 \<Rightarrow> encoder" where
  "WriteFloat64 e bits = e @ be_bytes64 bits"

definition WriteBigInt64 :: "encoder \<Rightarrow> u64 \<Rightarrow> encoder" where
  "WriteBigInt64 e v = e @ be_bytes64 v"

subsection \<open>The decoder\<close>

datatype dec_error = ErrUnexpectedEOF | ErrOverflow | ErrUnknownTag | ErrInvalidUTF8 | ErrDepthExceeded

record decoder =
  buf :: "byte list"
  pos :: nat

type_synonym 'a reader = "decoder \<Rightarrow> (dec_error + 'a) \<times> decoder"

definition NewDecoder :: "byte list \<Rightarrow> decoder" where
  "NewDecoder b = \<lparr>buf = b, pos = 0\<rparr>"

definition Remaining :: "decoder \<Rightarrow> nat" where
  "Remaining d = length (buf d) - pos d"

definition HasContent :: "decoder \<Rightarrow> bool" where
  "HasContent d \<longleftrightarrow> pos d < length (buf d)"

definition RemainingBytes :: "decoder \<Rightarrow> byte list" where
  "RemainingBytes d = drop (pos d) (buf d)"

definition readByte :: "byte reader" where
  "readByte d =
     (if length (buf d) \<le> pos d then (Inl ErrUnexpectedEOF, d)
      else (Inr (buf d ! pos d), d\<lparr>pos := Suc (pos d)\<rparr>))"

definition ReadUint8 :: "byte reader" where
  "ReadUint8 d = readByte d"

text \<open>Sequencing: the code's \<^verbatim>\<open>if err != nil { return ..., err }\<close> after a read.\<close>

definition rbind :: "'a reader \<Rightarrow> ('a \<Rightarrow> 'b reader) \<Rightarrow> 'b reader" where
  "rbind m f d = (case m d of (Inl e, d') \<Rightarrow> (Inl e, d') | (Inr x, d') \<Rightarrow> f x d')"

definition rreturn :: "'a \<Rightarrow> 'a reader" where
  "rreturn x d = (Inr x, d)"

definition rfail :: "dec_error \<Rightarrow> 'a reader" where
  "rfail e d = (Inl e, d)"

function readVarUint_loop :: "u64 \<Rightarrow> nat \<Rightarrow> u64 reader" where
  "readVarUint_loop result shift d =
     (case readByte d of
        (Inl e, d') \<Rightarrow> (Inl e, d')
      | (Inr b, d') \<Rightarrow>
          let result' = result OR push_bit shift (ucast (b AND 0x7F))
          in if b AND 0x80 = 0 then (Inr result', d')
             else if shift + 7 > 49 then (Inl ErrOverflow, d')
             else readVarUint_loop result' (shift + 7) d')"
  by pat_completeness auto
termination
  by (relation "measure (\<lambda>(r, s, d). 56 - s)") auto

declare readVarUint_loop.simps [simp del]

definition ReadVarUint :: "u64 reader" where
  "ReadVarUint = readVarUint_loop 0 0"

definition ReadVarBytes :: "byte list reader" where
  "ReadVarBytes = rbind ReadVarUint (\<lambda>n d.
     if unat n > Remaining d then (Inl ErrUnexpectedEOF, d)
     else (Inr (take (unat n) (drop (pos d) (buf d))), d\<lparr>pos := pos d + unat n\<rparr>))"


text \<open>
  The loop of \<open>ReadVarInt\<close> and \<open>ReadVarIntWithSign\<close>: \<open>b\<close> is the byte read last, and the loop goes
  on while its continuation bit is set.
\<close>

function readVarInt_loop :: "u64 \<Rightarrow> nat \<Rightarrow> byte \<Rightarrow> u64 reader" where
  "readVarInt_loop result shift b d =
     (if b AND 0x80 = 0 then (Inr result, d)
      else if shift > 48 then (Inl ErrOverflow, d)
      else case readByte d of
             (Inl e, d') \<Rightarrow> (Inl e, d')
           | (Inr b', d') \<Rightarrow>
               readVarInt_loop (result OR push_bit shift (ucast (b' AND 0x7F))) (shift + 7) b' d')"
  by pat_completeness auto
termination
  by (relation "measure (\<lambda>(r, s, b, d). 56 - s)") auto

declare readVarInt_loop.simps [simp del]

definition ReadVarIntWithSign :: "(u64 \<times> bool) reader" where
  "ReadVarIntWithSign = rbind readByte (\<lambda>b.
     rbind (readVarInt_loop (ucast (b AND 0x3F)) 6 b) (\<lambda>result.
     rreturn (result, b AND 0x40 \<noteq> 0)))"

definition ReadVarInt :: "u64 reader" where
  "ReadVarInt = rbind readByte (\<lambda>b.
     rbind (readVarInt_loop (ucast (b AND 0x3F)) 6 b) (\<lambda>result.
     rreturn (if b AND 0x40 \<noteq> 0 then - result else result)))"

definition be_word :: "byte list \<Rightarrow> 'a::len word" where
  "be_word bs = foldl (\<lambda>acc b. push_bit 8 acc OR ucast b) 0 bs"

definition ReadFloat32 :: "u32 reader" where
  "ReadFloat32 d =
     (if pos d + 4 > length (buf d) then (Inl ErrUnexpectedEOF, d)
      else (Inr (be_word (take 4 (drop (pos d) (buf d)))), d\<lparr>pos := pos d + 4\<rparr>))"

definition ReadFloat64 :: "u64 reader" where
  "ReadFloat64 d =
     (if pos d + 8 > length (buf d) then (Inl ErrUnexpectedEOF, d)
      else (Inr (be_word (take 8 (drop (pos d) (buf d)))), d\<lparr>pos := pos d + 8\<rparr>))"

definition ReadBigInt64 :: "u64 reader" where
  "ReadBigInt64 d =
     (if pos d + 8 > length (buf d) then (Inl ErrUnexpectedEOF, d)
      else (Inr (be_word (take 8 (drop (pos d) (buf d)))), d\<lparr>pos := pos d + 8\<rparr>))"

subsection \<open>What a reader consumes\<close>

text \<open>
  \<open>reads m bs v\<close>: wherever the bytes \<open>bs\<close> stand at the cursor, the reader \<open>m\<close> consumes exactly
  them and returns \<open>v\<close>. The relation composes along \<open>rbind\<close>.
\<close>

definition reads :: "'a reader \<Rightarrow> byte list \<Rightarrow> 'a \<Rightarrow> bool" where
  "reads m bs v \<longleftrightarrow> (\<forall>pre post.
     m \<lparr>buf = pre @ bs @ post, pos = length pre\<rparr> =
       (Inr v, \<lparr>buf = pre @ bs @ post, pos = length pre + length bs\<rparr>))"

lemma readsI:
  assumes "\<And>pre post. m \<lparr>buf = pre @ bs @ post, pos = length pre\<rparr> =
       (Inr v, \<lparr>buf = pre @ bs @ post, pos = length pre + length bs\<rparr>)"
  shows "reads m bs v"
  using assms by (simp add: reads_def)

lemma readsD:
  "reads m bs v \<Longrightarrow> m \<lparr>buf = pre @ bs @ post, pos = length pre\<rparr> =
       (Inr v, \<lparr>buf = pre @ bs @ post, pos = length pre + length bs\<rparr>)"
  by (simp add: reads_def)

lemma reads_readByte: "reads readByte [b] b"
  by (auto simp: reads_def readByte_def nth_append)

lemma reads_rreturn: "reads (rreturn v) [] v"
  by (simp add: reads_def rreturn_def)

lemma reads_rbind:
  assumes "reads m bs v" and "reads (f v) bs' w"
  shows "reads (rbind m f) (bs @ bs') w"
proof (rule readsI)
  fix pre post
  show "rbind m f \<lparr>buf = pre @ (bs @ bs') @ post, pos = length pre\<rparr> =
    (Inr w, \<lparr>buf = pre @ (bs @ bs') @ post, pos = length pre + length (bs @ bs')\<rparr>)"
    using readsD[OF assms(1), of pre "bs' @ post"] readsD[OF assms(2), of "pre @ bs" post]
    by (simp add: rbind_def add.assoc)
qed

subsection \<open>Variable-length unsigned integers\<close>

lemma unat_drop7_less: "0x80 \<le> (v :: u64) \<Longrightarrow> unat (drop_bit 7 v) < unat v"
proof -
  assume "0x80 \<le> v"
  then have "128 \<le> unat v" by (simp add: word_le_nat_alt)
  then show ?thesis by (simp add: unat_drop_bit)
qed

lemma WriteVarUint_append: "WriteVarUint e v = e @ WriteVarUint [] v"
proof (induction v arbitrary: e rule: measure_induct_rule[where f = unat])
  case (less v)
  show ?case
  proof (cases "0x80 \<le> v")
    case True
    note IH = less[OF unat_drop7_less[OF True]]
    show ?thesis using True IH[of "e @ [ucast v OR 0x80]"] IH[of "[ucast v OR 0x80]"]
      by (simp add: WriteVarUint.simps[of _ v])
  qed (simp add: WriteVarUint.simps[of _ v])
qed

lemma WriteVarUint_Nil:
  "WriteVarUint [] v =
     (if 0x80 \<le> v then (ucast v OR 0x80) # WriteVarUint [] (drop_bit 7 v) else [ucast v])"
  using WriteVarUint_append[of "[ucast v OR 0x80]" "drop_bit 7 v"]
  by (simp add: WriteVarUint.simps[of "[]" v])

lemma reads_varuint_loop:
  assumes "unat v < 2 ^ (56 - shift)" and "shift \<le> 49" and "7 dvd shift"
  shows "reads (readVarUint_loop acc shift) (WriteVarUint [] v) (acc OR push_bit shift v)"
  using assms
proof (induction v arbitrary: acc shift rule: measure_induct_rule[where f = unat])
  case (less v)
  show ?case
  proof (cases "0x80 \<le> v")
    case False
    then have "v < 0x80" by simp
    with False show ?thesis
      by (subst WriteVarUint_Nil, intro readsI)
        (simp add: readVarUint_loop.simps readByte_def nth_append last_byte_flag last_byte_data)
  next
    case True
    then have v: "2 ^ 7 \<le> unat v" by (simp add: word_le_nat_alt)
    with less.prems have "(2 :: nat) ^ 7 < 2 ^ (56 - shift)" by linarith
    then have s: "shift + 7 \<le> 49" and "7 < 56 - shift"
      using power_less_imp_less_exp[of "2::nat" 7 "56 - shift"] less.prems(2,3) by (auto elim!: dvdE)
    have b: "unat (drop_bit 7 v) < 2 ^ (56 - (shift + 7))"
      using unat_drop_bit_bound[of v 7 "56 - (shift + 7)"] s less.prems(1) by simp
    have IH: "reads (readVarUint_loop (acc OR push_bit shift (take_bit 7 v)) (shift + 7))
        (WriteVarUint [] (drop_bit 7 v))
        ((acc OR push_bit shift (take_bit 7 v)) OR push_bit (shift + 7) (drop_bit 7 v))"
      using less.prems(3) by (intro less.IH[OF unat_drop7_less[OF True] b s]) simp
    have eq: "(acc OR push_bit shift (take_bit 7 v)) OR push_bit (shift + 7) (drop_bit 7 v)
        = acc OR push_bit shift v"
      by (rule or_take_drop_bit)
    show ?thesis
    proof (rule readsI)
      fix pre post
      show "readVarUint_loop acc shift \<lparr>buf = pre @ WriteVarUint [] v @ post, pos = length pre\<rparr> =
        (Inr (acc OR push_bit shift v), \<lparr>buf = pre @ WriteVarUint [] v @ post, pos = length pre + length (WriteVarUint [] v)\<rparr>)"
        using True s readsD[OF IH, of "pre @ [ucast v OR 0x80]" post]
        by (simp add: WriteVarUint_Nil[of v] readVarUint_loop.simps[of acc] readByte_def nth_append
            cont_byte_flag cont_byte_data eq)
    qed
  qed
qed


lemma reads_ReadVarUint: "unat v < 2 ^ 56 \<Longrightarrow> reads ReadVarUint (WriteVarUint [] v) v"
  using reads_varuint_loop[of v 0 0] by (simp add: ReadVarUint_def)

lemma length_WriteVarUint_pos: "0 < length (WriteVarUint [] v)"
  by (subst WriteVarUint_Nil) simp

text \<open>The length of an encoding: seven bits to the byte.\<close>

lemma length_WriteVarUint: "length (WriteVarUint [] v) \<le> Suc n \<longleftrightarrow> unat v < 2 ^ (7 * Suc n)"
proof (induction n arbitrary: v)
  case 0
  show ?case using length_WriteVarUint_pos[of "drop_bit 7 v"] by (subst WriteVarUint_Nil) (simp add: word_le_nat_alt)
next
  case (Suc n)
  have "unat (drop_bit 7 v) = unat v div 2 ^ 7" by (simp add: drop_bit_eq_div unat_div)
  then have "length (WriteVarUint [] (drop_bit 7 v)) \<le> Suc n \<longleftrightarrow> unat v div 2 ^ 7 < 2 ^ (7 * Suc n)" using Suc.IH[of "drop_bit 7 v"] by simp
  also have "\<dots> \<longleftrightarrow> unat v < 2 ^ (7 * Suc n) * 2 ^ 7" by (rule div_less_iff_less_mult) simp
  also have "2 ^ (7 * Suc n) * 2 ^ 7 = (2 :: nat) ^ (7 * Suc (Suc n))" by (simp add: power_add)
  finally have s: "length (WriteVarUint [] (drop_bit 7 v)) \<le> Suc n \<longleftrightarrow> unat v < 2 ^ (7 * Suc (Suc n))" .
  show ?case
  proof (cases "0x80 \<le> v")
    case True
    then show ?thesis using s by (subst WriteVarUint_Nil) simp
  next
    case False
    then have "unat v < 2 ^ 7" by (simp add: word_le_nat_alt)
    also have "(2 :: nat) ^ 7 \<le> 2 ^ (7 * Suc (Suc n))" by (rule power_increasing) simp_all
    finally show ?thesis using False by (subst WriteVarUint_Nil) simp
  qed
qed

lemma varuint_loop_overflow:
  assumes "2 ^ (56 - shift) \<le> unat v" and "shift \<le> 49" and "7 dvd shift"
  shows "fst (readVarUint_loop acc shift \<lparr>buf = pre @ WriteVarUint [] v @ post, pos = length pre\<rparr>)
    = Inl ErrOverflow"
  using assms
proof (induction v arbitrary: acc shift pre rule: measure_induct_rule[where f = unat])
  case (less v)
  have "(2 :: nat) ^ 7 \<le> 2 ^ (56 - shift)"
    using less.prems(2) by (intro power_increasing) auto
  with less.prems(1) have "2 ^ 7 \<le> unat v" by linarith
  then have v: "0x80 \<le> v" by (simp add: word_le_nat_alt)
  note step = v WriteVarUint_Nil[of v] readVarUint_loop.simps[of acc] readByte_def nth_append
      cont_byte_flag cont_byte_data
  show ?case
  proof (cases "shift = 49")
    case True
    then show ?thesis by (simp add: step)
  next
    case False
    with less.prems(2,3) have s: "shift + 7 \<le> 49" by (auto elim!: dvdE)
    have "56 - shift = 7 + (56 - (shift + 7))" using s by simp
    then have "(2 :: nat) ^ (56 - shift) = 2 ^ 7 * 2 ^ (56 - (shift + 7))"
      by (metis power_add)
    with less.prems(1) have b: "2 ^ (56 - (shift + 7)) \<le> unat (drop_bit 7 v)"
      by (simp add: unat_drop_bit less_eq_div_iff_mult_less_eq mult.commute)
    have "fst (readVarUint_loop (acc OR push_bit shift (take_bit 7 v)) (shift + 7)
        \<lparr>buf = (pre @ [ucast v OR 0x80]) @ WriteVarUint [] (drop_bit 7 v) @ post,
         pos = length (pre @ [ucast v OR 0x80])\<rparr>) = Inl ErrOverflow"
      using less.prems(3) by (intro less.IH[OF unat_drop7_less[OF v] b s]) simp
    then show ?thesis using s by (simp add: step)
  qed
qed

lemma varuint_loop_bound:
  assumes "readVarUint_loop acc shift d = (Inr v, d')" and "shift \<le> 49" and "unat acc < 2 ^ shift"
  shows "unat v < 2 ^ 56"
  using assms
proof (induction acc shift d rule: readVarUint_loop.induct)
  case (1 acc shift d)
  obtain b d1 where b: "readByte d = (Inr b, d1)"
    using "1.prems"(1) by (cases "readByte d"; cases "fst (readByte d)")
      (simp_all add: readVarUint_loop.simps[of acc shift d])
  let ?acc = "acc OR push_bit shift (ucast (b AND 0x7F))"
  have "take_bit (shift + 7) acc = acc"
    using "1.prems"(3) by (intro word_less_take_bit) (simp add: power_add)
  moreover have "take_bit (shift + 7) (push_bit shift (ucast (b AND 0x7F)) :: u64)
      = push_bit shift (ucast (b AND 0x7F))"
    by (rule bit_word_eqI) (auto simp: bit_simps)
  ultimately have "take_bit (shift + 7) ?acc = ?acc" by (simp add: take_bit_or)
  then have a: "unat ?acc < 2 ^ (shift + 7)" by (rule take_bit_unat_less)
  have le: "(2 :: nat) ^ (shift + 7) \<le> 2 ^ 56"
    using "1.prems"(2) by (intro power_increasing) auto
  show ?case
  proof (cases "b AND 0x80 = 0")
    case True
    then have "v = ?acc" using "1.prems"(1) b by (simp add: readVarUint_loop.simps[of acc])
    then show ?thesis using order.strict_trans2[OF a le] by simp
  next
    case False
    then have s: "\<not> 49 < shift + 7" and r: "readVarUint_loop ?acc (shift + 7) d1 = (Inr v, d')"
      using "1.prems"(1) b by (simp_all add: readVarUint_loop.simps[of acc shift d] split: if_splits)
    show ?thesis using "1.IH"[OF b[symmetric] refl refl False s r] s a by simp
  qed
qed

lemma ReadVarUint_bound: "ReadVarUint d = (Inr v, d') \<Longrightarrow> unat v < 2 ^ 56"
  unfolding ReadVarUint_def by (rule varuint_loop_bound) auto

subsection \<open>Sign-magnitude integers\<close>

lemma writeVarTail_eq: "writeVarTail e v = WriteVarUint e v"
proof (induction e v rule: WriteVarUint.induct)
  case (1 e v)
  have "(0x80 :: byte) OR ucast (v AND 0x7F) = ucast v OR 0x80"
    by (rule bit_word_eqI) (auto simp: bit_simps)
  with 1 show ?case by (simp add: writeVarTail.simps[of e v] WriteVarUint.simps[of e v])
qed

lemma reads_varint_loop_stop: "b AND 0x80 = 0 \<Longrightarrow> reads (readVarInt_loop acc shift b) [] acc"
  by (simp add: reads_def readVarInt_loop.simps)

lemma reads_varint_loop:
  assumes "unat v < 2 ^ (55 - shift)" and "shift \<le> 48" and "shift mod 7 = 6" and "b AND 0x80 \<noteq> 0"
  shows "reads (readVarInt_loop acc shift b) (WriteVarUint [] v) (acc OR push_bit shift v)"
  using assms
proof (induction v arbitrary: acc shift b rule: measure_induct_rule[where f = unat])
  case (less v)
  have reduce: "reads (readVarInt_loop acc shift b) (c # cs) w"
    if "reads (readVarInt_loop (acc OR push_bit shift (ucast (c AND 0x7F))) (shift + 7) c) cs w" for c cs w
  proof (rule readsI)
    fix pre post
    show "readVarInt_loop acc shift b \<lparr>buf = pre @ (c # cs) @ post, pos = length pre\<rparr> =
      (Inr w, \<lparr>buf = pre @ (c # cs) @ post, pos = length pre + length (c # cs)\<rparr>)"
      using readsD[OF that, of "pre @ [c]" post] less.prems(2,4)
      by (simp add: readVarInt_loop.simps[of acc shift b] readByte_def nth_append)
  qed
  show ?case
  proof (cases "0x80 \<le> v")
    case False
    then have v: "v < 0x80" by simp
    have "reads (readVarInt_loop (acc OR push_bit shift v) (shift + 7) (ucast v)) [] (acc OR push_bit shift v)"
      using v by (intro reads_varint_loop_stop last_byte_flag)
    then have "reads (readVarInt_loop acc shift b) [ucast v] (acc OR push_bit shift v)"
      using v by (intro reduce) (simp add: last_byte_data)
    with False show ?thesis by (subst WriteVarUint_Nil) simp
  next
    case True
    then have "2 ^ 7 \<le> unat v" by (simp add: word_le_nat_alt)
    with less.prems(1) have "(2 :: nat) ^ 7 < 2 ^ (55 - shift)" by linarith
    then have "7 < 55 - shift" using power_less_imp_less_exp[of "2::nat" 7 "55 - shift"] by simp
    then have "shift < 48" by simp
    moreover have "shift = 7 * (shift div 7) + 6" using less.prems(3) div_mult_mod_eq[of shift 7] by simp
    ultimately have s: "shift + 7 \<le> 48" by arith
    have m: "(shift + 7) mod 7 = 6" using less.prems(3) by simp
    have b: "unat (drop_bit 7 v) < 2 ^ (55 - (shift + 7))"
      using unat_drop_bit_bound[of v 7 "55 - (shift + 7)"] s less.prems(1) by simp
    have eq: "(acc OR push_bit shift (take_bit 7 v)) OR push_bit (shift + 7) (drop_bit 7 v)
        = acc OR push_bit shift v"
      by (rule or_take_drop_bit)
    have "reads (readVarInt_loop (acc OR push_bit shift (take_bit 7 v)) (shift + 7) (ucast v OR 0x80))
        (WriteVarUint [] (drop_bit 7 v)) (acc OR push_bit shift v)"
      unfolding eq[symmetric] by (rule less.IH[OF unat_drop7_less[OF True] b s m cont_byte_flag])
    then have "reads (readVarInt_loop acc shift b)
        ((ucast v OR 0x80) # WriteVarUint [] (drop_bit 7 v)) (acc OR push_bit shift v)"
      by (intro reduce) (simp add: cont_byte_data)
    with True show ?thesis by (simp add: WriteVarUint_Nil[of v])
  qed
qed

text \<open>The bytes of a magnitude \<open>mag\<close> with a sign flag, as both writers produce them.\<close>

definition signmag_bytes :: "bool \<Rightarrow> u64 \<Rightarrow> byte list" where
  "signmag_bytes neg mag =
     (if mag < 64 then [(if neg then 0x40 else 0) OR ucast mag]
      else (0x80 OR (if neg then 0x40 else 0) OR ucast (mag AND 0x3F)) # WriteVarUint [] (drop_bit 6 mag))"

lemma reads_signmag:
  assumes "unat mag < 2 ^ 55"
  shows "reads (rbind readByte (\<lambda>b. rbind (readVarInt_loop (ucast (b AND 0x3F)) 6 b)
      (\<lambda>r. rreturn (f r (b AND 0x40 \<noteq> 0))))) (signmag_bytes neg mag) (f mag neg)"
    (is "reads (rbind readByte ?k) _ _")
proof (cases "mag < 64")
  case True
  let ?b = "(if neg then 0x40 else 0 :: byte) OR ucast mag"
  have "reads (readVarInt_loop mag 6 ?b) [] mag"
    by (rule reads_varint_loop_stop[OF sign_byte_last(1)[OF True]])
  then have "reads (rbind (readVarInt_loop mag 6 ?b) (\<lambda>r. rreturn (f r neg))) ([] @ []) (f mag neg)"
    by (rule reads_rbind) (rule reads_rreturn)
  then have "reads (?k ?b) ([] @ []) (f mag neg)"
    unfolding sign_byte_last(2,3)[OF True] .
  from reads_rbind[of readByte _ ?b ?k, OF reads_readByte this] True show ?thesis
    by (simp add: signmag_bytes_def)
next
  case False
  let ?b = "(0x80 :: byte) OR (if neg then 0x40 else 0) OR ucast (mag AND 0x3F)"
  let ?bs = "WriteVarUint [] (drop_bit 6 mag)"
  have "unat (drop_bit 6 mag) < 2 ^ (55 - 6)"
    using unat_drop_bit_bound[of mag 6 49] assms by simp
  then have "reads (readVarInt_loop (take_bit 6 mag) 6 ?b) ?bs
      (take_bit 6 mag OR push_bit 6 (drop_bit 6 mag))"
    by (rule reads_varint_loop) (simp_all only: sign_byte_cont(1), simp_all)
  then have "reads (readVarInt_loop (take_bit 6 mag) 6 ?b) ?bs mag"
    unfolding word_take_drop_bit .
  then have "reads (rbind (readVarInt_loop (take_bit 6 mag) 6 ?b) (\<lambda>r. rreturn (f r neg))) (?bs @ []) (f mag neg)"
    by (rule reads_rbind) (rule reads_rreturn)
  then have "reads (?k ?b) (?bs @ []) (f mag neg)"
    unfolding sign_byte_cont(2,3) .
  from reads_rbind[of readByte _ ?b ?k, OF reads_readByte this] False show ?thesis
    by (simp add: signmag_bytes_def)
qed

lemma writeNegVarUint_eq: "writeNegVarUint e v = e @ signmag_bytes True v"
  using WriteVarUint_append[of "e @ [0x80 OR 0x40 OR ucast (v AND 0x3F)]" "drop_bit 6 v"]
  by (simp add: writeNegVarUint_def signmag_bytes_def writeVarTail_eq)

lemma WriteVarIntE_eq:
  "WriteVarIntE e v =
     (let neg = sint v < 0; mag = (if neg then - v else v)
      in if 2 ^ 55 \<le> unat mag then Inl ErrVarIntOutOfRange else Inr (e @ signmag_bytes neg mag))"
proof -
  have range: "m > push_bit 55 1 - 1 \<longleftrightarrow> 2 ^ 55 \<le> unat m" for m :: u64
  proof -
    have u: "unat (push_bit 55 1 - 1 :: u64) = 2 ^ 55 - 1" by simp
    show ?thesis unfolding word_less_nat_alt u by auto
  qed
  show ?thesis
    using WriteVarUint_append[of "e @ [0x80 OR (if sint v < 0 then 0x40 else 0)
        OR ucast ((if sint v < 0 then - v else v) AND 0x3F)]" "drop_bit 6 (if sint v < 0 then - v else v)"]
    by (simp add: WriteVarIntE_def Let_def signmag_bytes_def writeVarTail_eq range del: push_bit_of_1)
qed

lemma reads_ReadVarInt:
  assumes "WriteVarIntE [] v = Inr bs"
  shows "reads ReadVarInt bs v"
proof -
  let ?neg = "sint v < 0" let ?mag = "if ?neg then - v else v"
  have "unat ?mag < 2 ^ 55" and bs: "bs = signmag_bytes ?neg ?mag"
    using assms by (auto simp: WriteVarIntE_eq Let_def split: if_splits)
  from reads_signmag[OF this(1), of "\<lambda>r neg. if neg then - r else r" ?neg]
  show ?thesis unfolding bs ReadVarInt_def by (simp split: if_splits)
qed

lemma reads_ReadVarIntWithSign:
  "unat v < 2 ^ 55 \<Longrightarrow> reads ReadVarIntWithSign (signmag_bytes neg v) (v, neg)"
  unfolding ReadVarIntWithSign_def using reads_signmag[of v Pair neg] by simp

lemma signmag_WriteVarIntE:
  "unat v < 2 ^ 55 \<Longrightarrow> WriteVarIntE e v = Inr (e @ signmag_bytes False v)"
proof -
  assume v: "unat v < 2 ^ 55"
  then have "\<not> sint v < 0" by (simp add: sint_small)
  then show ?thesis using v by (simp add: WriteVarIntE_eq Let_def)
qed

subsection \<open>Byte slices and big-endian words\<close>

lemma reads_take:
  assumes "length b = n"
  shows "reads (\<lambda>d. if n > Remaining d then (Inl ErrUnexpectedEOF, d)
     else (Inr (take n (drop (pos d) (buf d))), d\<lparr>pos := pos d + n\<rparr>)) b b"
  using assms by (simp add: reads_def Remaining_def)

lemma reads_ReadVarBytes:
  assumes "length b < 2 ^ 56"
  shows "reads ReadVarBytes (WriteVarBytes [] b) b"
proof -
  have n: "unat (of_nat (length b) :: u64) = length b"
    using assms by (simp add: unat_of_nat)
  then have "unat (of_nat (length b) :: u64) < 2 ^ 56" using assms by simp
  then show ?thesis unfolding ReadVarBytes_def WriteVarBytes_def
    by (intro reads_rbind[OF reads_ReadVarUint] reads_take) (simp_all only: n)
qed

lemma be_word_drop_bits:
  fixes v :: "'a::len word"
  shows "foldl (\<lambda>acc b. push_bit 8 acc OR ucast b) acc
      (map (\<lambda>i. ucast (drop_bit (8 * i) v) :: byte) (rev [0..<k]))
    = push_bit (8 * k) acc OR take_bit (8 * k) v"
proof (induction k arbitrary: acc)
  case (Suc k)
  have "push_bit (8 * Suc k) acc OR take_bit (8 * Suc k) v
      = push_bit (8 * k) (push_bit 8 acc OR take_bit 8 (drop_bit (8 * k) v)) OR take_bit (8 * k) v"
    by (simp only: push_take_bit_split mult_Suc_right add.commute)
  then show ?case by (simp add: Suc.IH ucast_ucast_byte del: mult_Suc_right)
qed simp

lemma be_word_be_bytes64: "be_word (be_bytes64 v) = v"
proof -
  have "[7, 6, 5, 4, 3, 2, 1, 0] = rev [0..<(8::nat)]" by (simp add: upt_rec)
  then show ?thesis
    using be_word_drop_bits[of 0 v 8] by (simp add: be_word_def be_bytes64_def take_bit_word_eq_self)
qed

lemma be_word_be_bytes32: "be_word (be_bytes32 v) = v"
proof -
  have "[3, 2, 1, 0] = rev [0..<(4::nat)]" by (simp add: upt_rec)
  then show ?thesis
    using be_word_drop_bits[of 0 v 4] by (simp add: be_word_def be_bytes32_def take_bit_word_eq_self)
qed

lemma reads_ReadFloat32: "reads ReadFloat32 (be_bytes32 v) v"
  using be_word_be_bytes32[of v] by (simp add: reads_def ReadFloat32_def be_bytes32_def)

lemma reads_ReadFloat64: "reads ReadFloat64 (be_bytes64 v) v"
  using be_word_be_bytes64[of v] by (simp add: reads_def ReadFloat64_def be_bytes64_def)

lemma reads_ReadBigInt64: "reads ReadBigInt64 (be_bytes64 v) v"
  using be_word_be_bytes64[of v] by (simp add: reads_def ReadBigInt64_def be_bytes64_def)

subsection \<open>Properties\<close>


text \<open>
  C27: The signed writer either refuses exactly the values whose magnitude needs more than 55 bits, or
  its bytes are read back as the same 64-bit value with the cursor right after them.
\<close>

theorem varint_roundtrip:
  "case WriteVarIntE [] v of
     Inl err \<Rightarrow> err = ErrVarIntOutOfRange \<and> 2 ^ 55 \<le> \<bar>sint v\<bar>
   | Inr bs \<Rightarrow> ReadVarInt (NewDecoder (bs @ rest)) = (Inr v, \<lparr>buf = bs @ rest, pos = length bs\<rparr>) \<and> \<bar>sint v\<bar> < 2 ^ 55"
proof -
  have mag: "int (unat (if sint v < 0 then - v else v)) = \<bar>sint v\<bar>"
    by (rule unat_abs_sint)
  show ?thesis
  proof (cases "WriteVarIntE [] v")
    case (Inl err)
    then have "err = ErrVarIntOutOfRange" "2 ^ 55 \<le> unat (if sint v < 0 then - v else v)"
      by (auto simp: WriteVarIntE_eq Let_def split: if_splits)
    then have "int (2 ^ 55) \<le> int (unat (if sint v < 0 then - v else v))" by (simp only: of_nat_le_iff)
    then show ?thesis using Inl \<open>err = ErrVarIntOutOfRange\<close> unfolding mag by simp
  next
    case (Inr bs)
    then have "unat (if sint v < 0 then - v else v) < 2 ^ 55"
      by (auto simp: WriteVarIntE_eq Let_def split: if_splits)
    then have "int (unat (if sint v < 0 then - v else v)) < int (2 ^ 55)" by (simp only: of_nat_less_iff)
    then show ?thesis using Inr readsD[OF reads_ReadVarInt[OF Inr], of "[]" rest] unfolding mag
      by (simp add: NewDecoder_def)
  qed
qed

end
