(* ===== verification/Codec.thy ===== *)
theory Codec
  imports Varint
begin

text \<open>
  The contract between a writer and its reader, as an interface: what is written is read
  back, with the cursor right after it, and a read never moves the cursor out of the buffer.
  The primitives of \<^verbatim>\<open>Varint\<close> are interpreted here; the composite formats (tagged values, run-length
  columns, delete sets, state vectors, messages) reuse the client lemmas.
\<close>

named_theorems rsafe_intros \<open>readers that keep the cursor inside the buffer\<close>

subsection \<open>Readers that stay inside the buffer\<close>

definition advances :: "decoder \<Rightarrow> decoder \<Rightarrow> bool" where
  "advances d d' \<longleftrightarrow> buf d' = buf d \<and> pos d \<le> pos d' \<and> pos d' \<le> length (buf d)"

definition rsafe :: "'a reader \<Rightarrow> bool" where
  "rsafe m \<longleftrightarrow> (\<forall>d. pos d \<le> length (buf d) \<longrightarrow> advances d (snd (m d)))"

lemma advances_trans: "advances d d1 \<Longrightarrow> advances d1 d2 \<Longrightarrow> advances d d2"
  by (auto simp: advances_def)

lemma rsafeD: "rsafe m \<Longrightarrow> pos d \<le> length (buf d) \<Longrightarrow> advances d (snd (m d))"
  by (simp add: rsafe_def)

lemma rsafe_readByte [rsafe_intros]: "rsafe readByte"
  by (auto simp: rsafe_def advances_def readByte_def)

lemma rsafe_ReadUint8 [rsafe_intros]: "rsafe ReadUint8"
  by (auto simp: rsafe_def advances_def ReadUint8_def readByte_def)

lemma rsafe_rreturn [rsafe_intros]: "rsafe (rreturn x)"
  by (simp add: rsafe_def advances_def rreturn_def)

lemma rsafe_rfail [rsafe_intros]: "rsafe (rfail e)"
  by (simp add: rsafe_def advances_def rfail_def)

lemma rsafe_if [rsafe_intros]: "rsafe m \<Longrightarrow> rsafe n \<Longrightarrow> rsafe (if b then m else n)"
  by simp

lemma rsafe_rbind [rsafe_intros]:
  assumes m: "rsafe m" and f: "\<And>x. rsafe (f x)"
  shows "rsafe (rbind m f)"
  unfolding rsafe_def
proof (intro allI impI)
  fix d :: decoder assume "pos d \<le> length (buf d)"
  then have a: "advances d (snd (m d))" by (rule rsafeD[OF m])
  obtain r d1 where md: "m d = (r, d1)" by (cases "m d")
  have "pos d1 \<le> length (buf d1)" using a by (auto simp: advances_def md)
  then have "advances d1 (snd (f x d1))" for x by (rule rsafeD[OF f])
  with a show "advances d (snd (rbind m f d))"
    by (cases r) (auto simp: rbind_def md intro: advances_trans)
qed

text \<open>A loop that reads a byte and goes on or stops.\<close>

lemma advances_readByte:
  assumes "pos d \<le> length (buf d)"
    and "\<And>b d'. readByte d = (Inr b, d') \<Longrightarrow> pos d' \<le> length (buf d') \<Longrightarrow> advances d' (snd (k b d'))"
  shows "advances d (snd (case readByte d of (Inl e, d') \<Rightarrow> (Inl e, d') | (Inr b, d') \<Rightarrow> k b d'))"
proof (cases "pos d < length (buf d)")
  case True
  then have "advances (d\<lparr>pos := Suc (pos d)\<rparr>) (snd (k (buf d ! pos d) (d\<lparr>pos := Suc (pos d)\<rparr>)))"
    by (intro assms(2)) (simp_all add: readByte_def)
  with True show ?thesis by (auto simp: readByte_def advances_def)
qed (use assms(1) in \<open>simp add: readByte_def advances_def\<close>)

lemma advances_refl: "pos d \<le> length (buf d) \<Longrightarrow> advances d d"
  by (simp add: advances_def)

lemma rsafe_readVarUint_loop [rsafe_intros]: "rsafe (readVarUint_loop r s)"
proof -
  have "pos d \<le> length (buf d) \<Longrightarrow> advances d (snd (readVarUint_loop r s d))" for d
  proof (induction r s d rule: readVarUint_loop.induct)
    case (1 r s d)
    show ?case
      unfolding readVarUint_loop.simps[of r s d] Let_def
      using "1.IH" by (intro advances_readByte "1.prems") (auto simp: advances_refl)
  qed
  then show ?thesis by (simp add: rsafe_def)
qed

lemma rsafe_readVarInt_loop [rsafe_intros]: "rsafe (readVarInt_loop r s b)"
proof -
  have "pos d \<le> length (buf d) \<Longrightarrow> advances d (snd (readVarInt_loop r s b d))" for d
  proof (induction r s b d rule: readVarInt_loop.induct)
    case (1 r s b d)
    show ?case
    proof (cases "b AND 0x80 = 0 \<or> 48 < s")
      case False
      then have "readVarInt_loop r s b d = (case readByte d of (Inl e, d') \<Rightarrow> (Inl e, d') | (Inr b', d') \<Rightarrow>
          readVarInt_loop (r OR push_bit s (ucast (b' AND 0x7F))) (s + 7) b' d')"
        by (simp add: readVarInt_loop.simps[of r s b d])
      with False "1.IH" show ?thesis by (simp only:) (intro advances_readByte "1.prems", auto)
    qed (use "1.prems" in \<open>auto simp: readVarInt_loop.simps[of r s b d] advances_refl\<close>)
  qed
  then show ?thesis by (simp add: rsafe_def)
qed

lemma rsafe_ReadVarUint [rsafe_intros]: "rsafe ReadVarUint"
  unfolding ReadVarUint_def by (rule rsafe_intros)

lemma rsafe_ReadVarInt [rsafe_intros]: "rsafe ReadVarInt"
  unfolding ReadVarInt_def by (intro rsafe_intros)

lemma rsafe_ReadVarIntWithSign [rsafe_intros]: "rsafe ReadVarIntWithSign"
  unfolding ReadVarIntWithSign_def by (intro rsafe_intros)

lemma rsafe_ReadVarBytes [rsafe_intros]: "rsafe ReadVarBytes"
  unfolding ReadVarBytes_def by (intro rsafe_rbind rsafe_ReadVarUint) (auto simp: rsafe_def advances_def Remaining_def)

lemma rsafe_fixed [rsafe_intros]: "rsafe ReadFloat32" "rsafe ReadFloat64" "rsafe ReadBigInt64"
  by (auto simp: rsafe_def advances_def ReadFloat32_def ReadFloat64_def ReadBigInt64_def)

subsection \<open>Reading a counted sequence\<close>

fun read_n :: "'a reader \<Rightarrow> nat \<Rightarrow> 'a list reader" where
  "read_n m 0 = rreturn []"
| "read_n m (Suc n) = rbind m (\<lambda>x. rbind (read_n m n) (\<lambda>xs. rreturn (x # xs)))"

lemma rsafe_read_n [rsafe_intros]: "rsafe m \<Longrightarrow> rsafe (read_n m n)"
  by (induction n) (auto intro!: rsafe_intros)

lemma reads_read_n: "list_all2 (reads m) bss xs \<Longrightarrow> reads (read_n m (length xs)) (concat bss) xs"
proof (induction rule: list_all2_induct)
  case (Cons bs bss x xs)
  have "reads (rbind (read_n m (length xs)) (\<lambda>xs. rreturn (x # xs))) (concat bss @ []) (x # xs)"
    by (rule reads_rbind[OF Cons(3)]) (rule reads_rreturn)
  then show ?case
    using reads_rbind[OF Cons(1), of "\<lambda>x. rbind (read_n m (length xs)) (\<lambda>xs. rreturn (x # xs))"] by simp
qed (simp add: reads_rreturn)

subsection \<open>The interface\<close>

locale codec =
  fixes wr :: "encoder \<Rightarrow> 'a \<Rightarrow> encoder"
    and rd :: "'a reader"
    and valid :: "'a \<Rightarrow> bool"
  assumes wr_append: "wr e v = e @ wr [] v"
    and roundtrip: "valid v \<Longrightarrow> reads rd (wr [] v) v"
    and safe: "rsafe rd"
begin

lemma foldl_wr: "foldl wr e vs = e @ concat (map (wr []) vs)"
proof (induction vs arbitrary: e)
  case (Cons v vs)
  show ?case using wr_append[of e v] by (simp add: Cons.IH)
qed simp

lemma reads_n: "list_all valid vs \<Longrightarrow> reads (read_n rd (length vs)) (foldl wr [] vs) vs"
proof -
  assume "list_all valid vs"
  then have "list_all2 (reads rd) (map (wr []) vs) vs" by (induction vs) (simp_all add: roundtrip)
  then show ?thesis using reads_read_n by (simp add: foldl_wr)
qed

lemma read_back:
  "valid v \<Longrightarrow> rd (NewDecoder (wr [] v @ post)) = (Inr v, \<lparr>buf = wr [] v @ post, pos = length (wr [] v)\<rparr>)"
  using readsD[OF roundtrip, of v "[]" post] by (simp add: NewDecoder_def)

end

text \<open>Two fields in a row form a codec again.\<close>

definition write_pair :: "(encoder \<Rightarrow> 'a \<Rightarrow> encoder) \<Rightarrow> (encoder \<Rightarrow> 'b \<Rightarrow> encoder) \<Rightarrow> encoder \<Rightarrow> 'a \<times> 'b \<Rightarrow> encoder" where
  "write_pair w1 w2 e p = w2 (w1 e (fst p)) (snd p)"

definition read_pair :: "'a reader \<Rightarrow> 'b reader \<Rightarrow> ('a \<times> 'b) reader" where
  "read_pair r1 r2 = rbind r1 (\<lambda>x. rbind r2 (\<lambda>y. rreturn (x, y)))"

locale codec_pair = fst: codec w1 r1 v1 + snd: codec w2 r2 v2
  for w1 :: "encoder \<Rightarrow> 'a \<Rightarrow> encoder" and r1 v1
    and w2 :: "encoder \<Rightarrow> 'b \<Rightarrow> encoder" and r2 v2

sublocale codec_pair \<subseteq> pair: codec "write_pair w1 w2" "read_pair r1 r2" "\<lambda>p. v1 (fst p) \<and> v2 (snd p)"
proof
  fix e p
  show "write_pair w1 w2 e p = e @ write_pair w1 w2 [] p"
    by (metis write_pair_def append_assoc fst.wr_append snd.wr_append)
next
  fix p assume "v1 (fst p) \<and> v2 (snd p)"
  then have 1: "reads r1 (w1 [] (fst p)) (fst p)" and 2: "reads r2 (w2 [] (snd p)) (snd p)"
    by (simp_all add: fst.roundtrip snd.roundtrip)
  have w: "write_pair w1 w2 [] p = w1 [] (fst p) @ (w2 [] (snd p) @ [])"
    using snd.wr_append[of "w1 [] (fst p)" "snd p"] by (simp add: write_pair_def)
  show "reads (read_pair r1 r2) (write_pair w1 w2 [] p) p"
    unfolding w read_pair_def
    by (rule reads_rbind[OF 1], rule reads_rbind[OF 2]) (simp add: reads_rreturn)
next
  show "rsafe (read_pair r1 r2)"
    unfolding read_pair_def by (intro rsafe_intros fst.safe snd.safe)
qed

subsection \<open>The primitives satisfy it\<close>

interpretation varuint: codec WriteVarUint ReadVarUint "\<lambda>v. unat v < 2 ^ 56"
  by unfold_locales (rule WriteVarUint_append, erule reads_ReadVarUint, rule rsafe_ReadVarUint)

interpretation varbytes: codec WriteVarBytes ReadVarBytes "\<lambda>b. length b < 2 ^ 56"
proof
  show "WriteVarBytes e b = e @ WriteVarBytes [] b" for e b
    using WriteVarUint_append[of e] by (simp add: WriteVarBytes_def)
qed (rule reads_ReadVarBytes rsafe_ReadVarBytes, assumption?)+

interpretation bigint: codec WriteBigInt64 ReadBigInt64 "\<lambda>v. True"
  by unfold_locales (simp_all add: WriteBigInt64_def reads_ReadBigInt64 rsafe_fixed)

interpretation varuint2: codec_pair WriteVarUint ReadVarUint "\<lambda>v. unat v < 2 ^ 56"
    WriteVarUint ReadVarUint "\<lambda>v. unat v < 2 ^ 56"
  by unfold_locales

end
