(* ===== verification/Utf8.thy ===== *)
theory Utf8
  imports Ygo_Prelude
begin

text \<open>
  Go strings are byte sequences. This theory models what the sources use of the standard
  package \<^verbatim>\<open>unicode/utf8\<close> (decoding one rune, validity) and, on top of it, the UTF-16 counting and
  splitting of \<^verbatim>\<open>src/crdt/content.go\<close>, \<^verbatim>\<open>src/encoding/rle.go\<close> and \<^verbatim>\<open>src/internal/anycodec/rle.go\<close>.
  A rune is a natural number. The proofs go through the list of runes of a valid string.
\<close>

type_synonym gostring = "byte list"
type_synonym rune = nat

subsection \<open>Decoding one rune\<close>

definition rune_error :: rune where
  "rune_error = 0xFFFD"

definition cont_in :: "nat \<Rightarrow> nat \<Rightarrow> byte \<Rightarrow> bool" where
  "cont_in lo hi b \<longleftrightarrow> lo \<le> unat b \<and> unat b \<le> hi"

text \<open>The accepted range of the second byte, by the first (the table \<^verbatim>\<open>acceptRanges\<close>).\<close>

definition second_lo :: "nat \<Rightarrow> nat" where
  "second_lo b0 = (if b0 = 0xE0 then 0xA0 else if b0 = 0xF0 then 0x90 else 0x80)"

definition second_hi :: "nat \<Rightarrow> nat" where
  "second_hi b0 = (if b0 = 0xED then 0x9F else if b0 = 0xF4 then 0x8F else 0xBF)"

text \<open>\<^verbatim>\<open>utf8.DecodeRune\<close>: the rune and its width; a malformed sequence is \<open>rune_error\<close> of width 1.\<close>

fun decode_rune :: "gostring \<Rightarrow> rune \<times> nat" where
  "decode_rune [] = (rune_error, 0)"
| "decode_rune (c0 # s) =
     (let b0 = unat c0 in
      if b0 < 0x80 then (b0, 1)
      else if 0xC2 \<le> b0 \<and> b0 \<le> 0xDF then
        (case s of c1 # _ \<Rightarrow>
           if cont_in 0x80 0xBF c1 then ((b0 - 0xC0) * 64 + (unat c1 - 0x80), 2) else (rune_error, 1)
         | _ \<Rightarrow> (rune_error, 1))
      else if 0xE0 \<le> b0 \<and> b0 \<le> 0xEF then
        (case s of c1 # c2 # _ \<Rightarrow>
           if cont_in (second_lo b0) (second_hi b0) c1 \<and> cont_in 0x80 0xBF c2
           then ((b0 - 0xE0) * 4096 + (unat c1 - 0x80) * 64 + (unat c2 - 0x80), 3) else (rune_error, 1)
         | _ \<Rightarrow> (rune_error, 1))
      else if 0xF0 \<le> b0 \<and> b0 \<le> 0xF4 then
        (case s of c1 # c2 # c3 # _ \<Rightarrow>
           if cont_in (second_lo b0) (second_hi b0) c1 \<and> cont_in 0x80 0xBF c2 \<and> cont_in 0x80 0xBF c3
           then ((b0 - 0xF0) * 262144 + (unat c1 - 0x80) * 4096 + (unat c2 - 0x80) * 64 + (unat c3 - 0x80), 4)
           else (rune_error, 1)
         | _ \<Rightarrow> (rune_error, 1))
      else (rune_error, 1))"

lemma decode_rune_width: "s \<noteq> [] \<Longrightarrow> 0 < snd (decode_rune s) \<and> snd (decode_rune s) \<le> length s"
  by (cases s) (auto simp: Let_def split: list.splits)

lemma decode_rune_size: "(r, n) = decode_rune s \<Longrightarrow> s \<noteq> [] \<Longrightarrow> 0 < n \<and> n \<le> length s"
  using decode_rune_width[of s] by (metis snd_conv)

text \<open>\<^verbatim>\<open>utf8.Valid\<close>: no step decodes to an error of width 1.\<close>

function valid_utf8 :: "gostring \<Rightarrow> bool" where
  "valid_utf8 s =
     (if s = [] then True
      else let (r, size) = decode_rune s
           in if r = rune_error \<and> size = 1 then False else valid_utf8 (drop size s))"
  by pat_completeness auto
termination
  by (relation "measure length") (auto dest!: decode_rune_size)

declare valid_utf8.simps [simp del]

subsection \<open>UTF-16 lengths and splitting\<close>

function utf16Len :: "gostring \<Rightarrow> nat" where
  "utf16Len s =
     (if s = [] then 0
      else let (r, size) = decode_rune s
           in (if r > 0xFFFF then 2 else 1) + utf16Len (drop size s))"
  by pat_completeness auto
termination
proof (relation "measure length")
  fix s x r size
  assume "s \<noteq> []" and "x = decode_rune s" and "(r, size) = x"
  then show "(drop size s, s) \<in> measure length"
    using decode_rune_size[of r size s] by auto
qed simp

declare utf16Len.simps [simp del]

definition replacementChar :: gostring where
  "replacementChar = [0xEF, 0xBF, 0xBD]"

text \<open>\<^verbatim>\<open>utf8.RuneLen\<close> on the runes that decoding yields.\<close>

definition RuneLen :: "rune \<Rightarrow> nat" where
  "RuneLen r = (if r \<le> 0x7F then 1 else if r \<le> 0x7FF then 2 else if r \<le> 0xFFFF then 3 else 4)"

text \<open>The loop of \<open>splitUTF16\<close>: \<open>i\<close> is the byte index of the rune, \<open>u16\<close> the units before it.\<close>

function splitUTF16_loop :: "gostring \<Rightarrow> nat \<Rightarrow> nat \<Rightarrow> nat \<Rightarrow> gostring \<times> gostring" where
  "splitUTF16_loop s offset i u16 =
     (if length s \<le> i then (s, [])
      else let (r, size) = decode_rune (drop i s) in
           if u16 = offset then (take i s, drop i s)
           else let w = (if r > 0xFFFF then 2 else 1) in
                if u16 + w > offset
                then (take i s @ replacementChar, replacementChar @ drop (i + RuneLen r) s)
                else splitUTF16_loop s offset (i + size) (u16 + w))"
  by pat_completeness auto
termination
proof (relation "measure (\<lambda>(s, offset, i, u16). length s - i)")
  fix s offset i u16 x r size and w :: nat
  assume "\<not> length s \<le> i" and "x = decode_rune (drop i s)" and "(r, size) = x"
  then show "((s, offset, i + size, u16 + w), s, offset, i, u16)
      \<in> measure (\<lambda>(s, offset, i, u16). length s - i)"
    using decode_rune_size[of r size "drop i s"] by auto
qed simp

declare splitUTF16_loop.simps [simp del]

definition splitUTF16 :: "gostring \<Rightarrow> nat \<Rightarrow> gostring \<times> gostring" where
  "splitUTF16 s offset = splitUTF16_loop s offset 0 0"

text \<open>\<open>AdvanceUTF16\<close>: the byte offset reached by \<open>units\<close> UTF-16 units from \<open>byteStart\<close>.\<close>

function AdvanceUTF16_loop :: "gostring \<Rightarrow> nat \<Rightarrow> nat \<Rightarrow> nat \<Rightarrow> nat" where
  "AdvanceUTF16_loop s units bytePos counted =
     (if counted < units \<and> bytePos < length s
      then let (r, size) = decode_rune (drop bytePos s)
           in AdvanceUTF16_loop s units (bytePos + size) (if r \<ge> 0x10000 then counted + 2 else counted + 1)
      else bytePos)"
  by pat_completeness auto
termination
proof (relation "measure (\<lambda>(s, units, bytePos, counted). length s - bytePos)")
  fix s units bytePos x r size and counted :: nat
  assume "counted < units \<and> bytePos < length s" and "x = decode_rune (drop bytePos s)" and "(r, size) = x"
  then show "((s, units, bytePos + size, if r \<ge> 0x10000 then counted + 2 else counted + 1), s, units, bytePos, counted)
      \<in> measure (\<lambda>(s, units, bytePos, counted). length s - bytePos)"
    using decode_rune_size[of r size "drop bytePos s"] by auto
qed simp

declare AdvanceUTF16_loop.simps [simp del]

definition AdvanceUTF16 :: "gostring \<Rightarrow> nat \<Rightarrow> nat \<Rightarrow> nat" where
  "AdvanceUTF16 s byteStart units = AdvanceUTF16_loop s units byteStart 0"

subsection \<open>Runes and their encoding\<close>

definition scalar :: "rune \<Rightarrow> bool" where
  "scalar r \<longleftrightarrow> r < 0xD800 \<or> (0xDFFF < r \<and> r \<le> 0x10FFFF)"

definition encode_rune :: "rune \<Rightarrow> gostring" where
  "encode_rune r = map of_nat
     (if r < 0x80 then [r]
      else if r < 0x800 then [0xC0 + r div 64, 0x80 + r mod 64]
      else if r < 0x10000 then [0xE0 + r div 4096, 0x80 + r div 64 mod 64, 0x80 + r mod 64]
      else [0xF0 + r div 262144, 0x80 + r div 4096 mod 64, 0x80 + r div 64 mod 64, 0x80 + r mod 64])"

definition units :: "rune \<Rightarrow> nat" where
  "units r = (if r > 0xFFFF then 2 else 1)"

abbreviation encode_runes :: "rune list \<Rightarrow> gostring" where
  "encode_runes rs \<equiv> concat (map encode_rune rs)"

abbreviation total_units :: "rune list \<Rightarrow> nat" where
  "total_units rs \<equiv> sum_list (map units rs)"

lemma unat_byte: "x < 256 \<Longrightarrow> unat (of_nat x :: byte) = x"
  by (simp add: unat_of_nat)

lemma mod_split3: "(r::nat) = r div 4096 * 4096 + r div 64 mod 64 * 64 + r mod 64"
proof -
  have "r div 64 = r div 4096 * 64 + r div 64 mod 64"
    using div_mult_mod_eq[of "r div 64" 64] by (simp add: div_mult2_eq[of r 64 64, simplified])
  then show ?thesis using div_mult_mod_eq[of r 64] by linarith
qed

lemma mod_split4: "(r::nat) = r div 262144 * 262144 + r div 4096 mod 64 * 4096 + r div 64 mod 64 * 64 + r mod 64"
proof -
  have "r div 4096 = r div 262144 * 64 + r div 4096 mod 64"
    using div_mult_mod_eq[of "r div 4096" 64] by (simp add: div_mult2_eq[of r 4096 64, simplified])
  then show ?thesis using mod_split3[of r] by linarith
qed

lemma decode_encode_rune:
  assumes "scalar r"
  shows "decode_rune (encode_rune r @ s) = (r, length (encode_rune r))"
proof -
  have small: "r < 0x110000" using assms by (auto simp: scalar_def)
  consider "r < 0x80" | "0x80 \<le> r" "r < 0x800" | "0x800 \<le> r" "r < 0x10000" | "0x10000 \<le> r" by linarith
  then show ?thesis
  proof cases
    case 1
    then show ?thesis by (simp add: encode_rune_def unat_byte)
  next
    case 2
    define q m where "q = r div 64" and "m = r mod 64"
    have r: "r = q * 64 + m" "m < 64" "2 \<le> q" "q < 32" using 2 by (auto simp: q_def m_def)
    have u: "unat (of_nat (0xC0 + q) :: byte) = 0xC0 + q" "unat (of_nat (0x80 + m) :: byte) = 0x80 + m"
      using r by (auto simp del: of_nat_add intro!: unat_byte)
    show ?thesis using 2 r u
      by (simp add: encode_rune_def cont_in_def del: of_nat_add flip: q_def m_def)
  next
    case 3
    define a b c where "a = r div 4096" and "b = r div 64 mod 64" and "c = r mod 64"
    have r: "r = a * 4096 + b * 64 + c" "c < 64" "b < 64" "a < 16"
      using 3 mod_split3[of r] by (auto simp: a_def b_def c_def less_mult_imp_div_less)
    have u: "unat (of_nat (0xE0 + a) :: byte) = 0xE0 + a" "unat (of_nat (0x80 + b) :: byte) = 0x80 + b"
        "unat (of_nat (0x80 + c) :: byte) = 0x80 + c"
      using r by (auto simp del: of_nat_add intro!: unat_byte)
    have "a = 0 \<Longrightarrow> 32 \<le> b" "a = 13 \<Longrightarrow> b \<le> 31"
      using 3 r(1-3) assms by (auto simp: scalar_def)
    moreover have "encode_rune r = map of_nat [0xE0 + a, 0x80 + b, 0x80 + c]"
      using 3 by (simp add: encode_rune_def a_def b_def c_def)
    ultimately show ?thesis using r(2-4) u
      by (simp add: cont_in_def second_lo_def second_hi_def Let_def r(1) del: of_nat_add)
  next
    case 4
    define a b c e where "a = r div 262144" and "b = r div 4096 mod 64" and "c = r div 64 mod 64" and "e = r mod 64"
    have r: "r = a * 262144 + b * 4096 + c * 64 + e" "e < 64" "c < 64" "b < 64" "a < 5"
      using small mod_split4[of r] by (auto simp: a_def b_def c_def e_def less_mult_imp_div_less)
    have u: "unat (of_nat (0xF0 + a) :: byte) = 0xF0 + a" "unat (of_nat (0x80 + b) :: byte) = 0x80 + b"
        "unat (of_nat (0x80 + c) :: byte) = 0x80 + c" "unat (of_nat (0x80 + e) :: byte) = 0x80 + e"
      using r by (auto simp del: of_nat_add intro!: unat_byte)
    have "a = 0 \<Longrightarrow> 16 \<le> b" "a = 4 \<Longrightarrow> b \<le> 15"
      using 4 r(1-4) small by auto
    moreover have "encode_rune r = map of_nat [0xF0 + a, 0x80 + b, 0x80 + c, 0x80 + e]"
      using 4 by (simp add: encode_rune_def a_def b_def c_def e_def)
    ultimately show ?thesis using r(2-5) u
      by (simp add: cont_in_def second_lo_def second_hi_def Let_def r(1) del: of_nat_add)
  qed
qed

lemma encode_rune_nonempty [simp]: "encode_rune r \<noteq> []"
  by (simp add: encode_rune_def)

lemma RuneLen_encode: "scalar r \<Longrightarrow> length (encode_rune r) = RuneLen r"
  by (simp add: encode_rune_def RuneLen_def)

lemma digit64: "z < 64 \<Longrightarrow> (q * 64 + z) mod 64 = z" "z < 64 \<Longrightarrow> (q * 64 + z) div 64 = (q::nat)"
  by auto

lemma div_4096: "(r::nat) div 4096 = r div 64 div 64" "(r::nat) div 262144 = r div 64 div 64 div 64"
  by (simp_all flip: div_mult2_eq)

lemma unat_byte_eq: "unat (c::byte) = x \<Longrightarrow> of_nat x = c"
  by auto

text \<open>Conversely, what decodes without an error is the encoding of a scalar value.\<close>

lemma decode_rune_cases:
  assumes "s \<noteq> []" and "decode_rune s \<noteq> (rune_error, 1)"
  obtains r t where "s = encode_rune r @ t" and "scalar r"
proof -
  obtain c0 s1 where s: "s = c0 # s1" using assms(1) by (cases s) auto
  define b0 where "b0 = unat c0"
  have c0: "c0 = of_nat b0" by (simp add: b0_def)
  have enc: "\<exists>r t. s = encode_rune r @ t \<and> scalar r"
  proof -
    consider (1) "b0 < 0x80"
      | (2) c1 t where "s1 = c1 # t" "0xC2 \<le> b0" "b0 \<le> 0xDF" "cont_in 0x80 0xBF c1"
      | (3) c1 c2 t where "s1 = c1 # c2 # t" "0xE0 \<le> b0" "b0 \<le> 0xEF"
          "cont_in (second_lo b0) (second_hi b0) c1" "cont_in 0x80 0xBF c2"
      | (4) c1 c2 c3 t where "s1 = c1 # c2 # c3 # t" "0xF0 \<le> b0" "b0 \<le> 0xF4"
          "cont_in (second_lo b0) (second_hi b0) c1" "cont_in 0x80 0xBF c2" "cont_in 0x80 0xBF c3"
      using assms(2) unfolding s decode_rune.simps b0_def[symmetric] Let_def
      by (auto split: if_splits list.splits)
    then show ?thesis
    proof cases
      case 1
      then have "s = encode_rune b0 @ s1" "scalar b0" by (auto simp: s c0 encode_rune_def scalar_def)
      then show ?thesis by blast
    next
      case 2
      define x y where "x = b0 - 0xC0" and "y = unat c1 - 0x80"
      have v: "b0 = 0xC0 + x" "unat c1 = 0x80 + y" "y < 64" "2 \<le> x" "x < 32"
        using 2 by (auto simp: x_def y_def cont_in_def)
      have "encode_rune (x * 64 + y) = [c0, c1]" "scalar (x * 64 + y)"
        using v unat_byte_eq[OF v(2)] by (auto simp: encode_rune_def scalar_def c0)
      then show ?thesis using 2 s by (metis append_Cons append_Nil)
    next
      case 3
      define x y z where "x = b0 - 0xE0" and "y = unat c1 - 0x80" and "z = unat c2 - 0x80"
      have v: "b0 = 0xE0 + x" "unat c1 = 0x80 + y" "unat c2 = 0x80 + z" "y < 64" "z < 64" "x < 16"
          "x = 0 \<Longrightarrow> 32 \<le> y" "x = 13 \<Longrightarrow> y < 32"
        using 3 by (auto simp: x_def y_def z_def cont_in_def second_lo_def second_hi_def split: if_splits)
      let ?r = "(x * 64 + y) * 64 + z"
      have "0x800 \<le> ?r" "?r < 0x10000" using v by (cases "x = 0"; auto)+
      moreover have "scalar ?r" unfolding scalar_def using v by (cases "x = 13"; cases "x < 13"; auto)
      ultimately have "encode_rune ?r = [c0, c1, c2]" "scalar ?r"
        using v unat_byte_eq[OF v(2)] unat_byte_eq[OF v(3)]
        by (auto simp only: encode_rune_def c0 div_4096 digit64) auto
      then show ?thesis using 3 s by (metis append_Cons append_Nil)
    next
      case 4
      define x y z w where "x = b0 - 0xF0" and "y = unat c1 - 0x80" and "z = unat c2 - 0x80"
        and "w = unat c3 - 0x80"
      have v: "b0 = 0xF0 + x" "unat c1 = 0x80 + y" "unat c2 = 0x80 + z" "unat c3 = 0x80 + w"
          "y < 64" "z < 64" "w < 64" "x < 5" "x = 0 \<Longrightarrow> 16 \<le> y" "x = 4 \<Longrightarrow> y < 16"
        using 4 by (auto simp: x_def y_def z_def w_def cont_in_def second_lo_def second_hi_def split: if_splits)
      let ?r = "((x * 64 + y) * 64 + z) * 64 + w"
      have "0x10000 \<le> ?r" "?r \<le> 0x10FFFF" using v by (cases "x = 0"; cases "x = 4"; auto)+
      then have "encode_rune ?r = [c0, c1, c2, c3]" "scalar ?r"
        using v unat_byte_eq[OF v(2)] unat_byte_eq[OF v(3)] unat_byte_eq[OF v(4)]
        by (auto simp only: encode_rune_def c0 div_4096 digit64 scalar_def) auto
      then show ?thesis using 4 s by (metis append_Cons append_Nil)
    qed
  qed
  then show ?thesis using that by blast
qed

declare decode_rune.simps(2) [simp del]

subsection \<open>Valid strings are sequences of scalar values\<close>

lemma decode_rune_error [simp]: "decode_rune (encode_rune r @ t) \<noteq> (rune_error, 1)" if "scalar r"
  using that by (auto simp: decode_encode_rune RuneLen_encode RuneLen_def rune_error_def)

lemma valid_utf8_rune: "scalar r \<Longrightarrow> valid_utf8 (encode_rune r @ t) = valid_utf8 t"
  using decode_rune_error[of r t] by (auto simp: valid_utf8.simps[of "encode_rune r @ t"] decode_encode_rune)

lemma valid_utf8_append:
  "list_all scalar rs \<Longrightarrow> valid_utf8 (encode_runes rs @ t) = valid_utf8 t"
  by (induction rs) (simp_all add: valid_utf8_rune)

lemma valid_utf8_Nil [simp]: "valid_utf8 []"
  by (simp add: valid_utf8.simps)

lemma valid_utf8_encode: "list_all scalar rs \<Longrightarrow> valid_utf8 (encode_runes rs)"
  using valid_utf8_append[of rs "[]"] by simp

lemma valid_utf8_cases:
  assumes "valid_utf8 s" and "s \<noteq> []"
  obtains r t where "s = encode_rune r @ t" and "scalar r" and "valid_utf8 t"
proof -
  have "decode_rune s \<noteq> (rune_error, 1)"
    using assms by (auto simp: valid_utf8.simps[of s] split: prod.splits)
  then obtain r t where "s = encode_rune r @ t" "scalar r" by (rule decode_rune_cases[OF assms(2)])
  with assms(1) show ?thesis using that by (simp add: valid_utf8_rune)
qed

lemma valid_utf8_runes:
  assumes "valid_utf8 s"
  obtains rs where "s = encode_runes rs" and "list_all scalar rs"
proof -
  have "valid_utf8 s \<Longrightarrow> \<exists>rs. s = encode_runes rs \<and> list_all scalar rs" for s
  proof (induction s rule: length_induct)
    case (1 s)
    show ?case
    proof (cases "s = []")
      case False
      then obtain r t where s: "s = encode_rune r @ t" "scalar r" "valid_utf8 t"
        using "1.prems" valid_utf8_cases by metis
      moreover have "length t < length s" using s(1) by simp
      ultimately obtain rs where "t = encode_runes rs" "list_all scalar rs" using "1.IH" by blast
      with s have "s = encode_runes (r # rs)" "list_all scalar (r # rs)" by simp_all
      then show ?thesis by blast
    qed (rule exI[of _ "[]"], simp)
  qed
  with assms that show ?thesis by blast
qed

lemma valid_utf8_concat: "list_all valid_utf8 ss \<Longrightarrow> valid_utf8 (concat ss @ t) = valid_utf8 t"
proof (induction ss)
  case (Cons s ss)
  then obtain rs where "s = encode_runes rs" "list_all scalar rs" using valid_utf8_runes by auto
  with Cons show ?case by (simp add: valid_utf8_append)
qed simp

subsection \<open>Counting and splitting in units\<close>

lemma utf16Len_Nil [simp]: "utf16Len [] = 0"
  by (simp add: utf16Len.simps)

lemma utf16Len_rune: "scalar r \<Longrightarrow> utf16Len (encode_rune r @ t) = units r + utf16Len t"
  by (simp add: utf16Len.simps[of "encode_rune r @ t"] decode_encode_rune units_def)

lemma utf16Len_append_runes:
  "list_all scalar rs \<Longrightarrow> utf16Len (encode_runes rs @ t) = total_units rs + utf16Len t"
  by (induction rs) (simp_all add: utf16Len_rune)

lemma utf16Len_runes: "list_all scalar rs \<Longrightarrow> utf16Len (encode_runes rs) = total_units rs"
  using utf16Len_append_runes[of rs "[]"] by simp

lemma AdvanceUTF16_loop_runes:
  "list_all scalar rs \<Longrightarrow>
   AdvanceUTF16_loop (p @ encode_runes rs @ t) (c + total_units rs) (length p) c = length p + length (encode_runes rs)"
proof (induction rs arbitrary: p c)
  case Nil
  then show ?case by (simp add: AdvanceUTF16_loop.simps)
next
  case (Cons r rs)
  have "AdvanceUTF16_loop (p @ encode_runes (r # rs) @ t) (c + total_units (r # rs)) (length p) c =
      AdvanceUTF16_loop ((p @ encode_rune r) @ encode_runes rs @ t) ((c + units r) + total_units rs)
        (length (p @ encode_rune r)) (c + units r)"
    using Cons.prems
    by (subst AdvanceUTF16_loop.simps) (simp add: decode_encode_rune units_def add.assoc)
  also have "\<dots> = length (p @ encode_rune r) + length (encode_runes rs)"
    using Cons.prems by (intro Cons.IH) simp
  finally show ?case by simp
qed

lemma AdvanceUTF16_valid:
  "valid_utf8 s \<Longrightarrow> AdvanceUTF16 (p @ s @ t) (length p) (utf16Len s) = length p + length s"
  using AdvanceUTF16_loop_runes[of _ p t 0]
  by (auto simp: AdvanceUTF16_def utf16Len_runes elim!: valid_utf8_runes)

text \<open>The split seen on runes: a supplementary rune that is cut becomes two replacement runes.\<close>

fun split_runes :: "rune list \<Rightarrow> nat \<Rightarrow> rune list \<times> rune list" where
  "split_runes [] k = ([], [])"
| "split_runes (r # rs) k =
     (if k = 0 then ([], r # rs)
      else if units r > k then ([rune_error], rune_error # rs)
      else let (a, b) = split_runes rs (k - units r) in (r # a, b))"

lemma encode_rune_error [simp]: "encode_rune rune_error = replacementChar"
  by (simp add: encode_rune_def rune_error_def replacementChar_def)

lemma scalar_rune_error [simp]: "scalar rune_error"
  by (simp add: scalar_def rune_error_def)

lemma split_runes_scalar:
  "list_all scalar rs \<Longrightarrow> list_all scalar (fst (split_runes rs k)) \<and> list_all scalar (snd (split_runes rs k))"
  by (induction rs k rule: split_runes.induct) (auto simp: split: prod.splits)

lemma split_runes_units:
  "k \<le> total_units rs \<Longrightarrow>
   total_units (fst (split_runes rs k)) = k \<and> total_units (snd (split_runes rs k)) = total_units rs - k"
proof (induction rs k rule: split_runes.induct)
  case (2 r rs k)
  have u: "units r = 1 \<or> units r = 2" "units rune_error = 1" by (auto simp: units_def rune_error_def)
  consider "k = 0" | "0 < k" "units r > k" | "0 < k" "units r \<le> k" by linarith
  then show ?case
  proof cases
    case 3
    then show ?thesis using 2 by (auto simp: split: prod.splits)
  qed (use u in auto)
qed simp

lemma splitUTF16_loop_runes:
  "list_all scalar rs \<Longrightarrow>
   splitUTF16_loop (p @ encode_runes rs) (u + k) (length p) u =
     (p @ encode_runes (fst (split_runes rs k)), encode_runes (snd (split_runes rs k)))"
proof (induction rs arbitrary: p u k)
  case Nil
  then show ?case by (simp add: splitUTF16_loop.simps)
next
  case (Cons r rs)
  let ?s = "p @ encode_runes (r # rs)"
  have w: "(if r > 0xFFFF then 2 else 1) = units r" by (simp add: units_def)
  consider "k = 0" | "0 < k" "units r > k" | "0 < k" "units r \<le> k" by linarith
  then show ?case
  proof cases
    case 1
    then show ?thesis by (subst splitUTF16_loop.simps) (simp add: decode_rune.simps split: prod.splits)
  next
    case 2
    then show ?thesis using Cons.prems
      by (subst splitUTF16_loop.simps) (simp add: decode_encode_rune w flip: RuneLen_encode)
  next
    case 3
    have "splitUTF16_loop ?s (u + k) (length p) u =
        splitUTF16_loop ((p @ encode_rune r) @ encode_runes rs) ((u + units r) + (k - units r))
          (length (p @ encode_rune r)) (u + units r)"
      using 3 Cons.prems by (subst splitUTF16_loop.simps) (simp add: decode_encode_rune w)
    also have "\<dots> = ((p @ encode_rune r) @ encode_runes (fst (split_runes rs (k - units r))),
        encode_runes (snd (split_runes rs (k - units r))))"
      using Cons.prems by (intro Cons.IH) simp
    finally show ?thesis using 3 by (simp split: prod.splits)
  qed
qed

lemma splitUTF16_runes:
  "list_all scalar rs \<Longrightarrow> splitUTF16 (encode_runes rs) k =
     (encode_runes (fst (split_runes rs k)), encode_runes (snd (split_runes rs k)))"
  using splitUTF16_loop_runes[of rs "[]" 0 k] by (simp add: splitUTF16_def)

lemma splitUTF16_correct:
  assumes "valid_utf8 s" and "k \<le> utf16Len s" and "splitUTF16 s k = (l, r)"
  shows "valid_utf8 l" "valid_utf8 r" "utf16Len l = k" "utf16Len r = utf16Len s - k"
proof -
  obtain rs where s: "s = encode_runes rs" "list_all scalar rs" using assms(1) by (rule valid_utf8_runes)
  with assms(3) have "l = encode_runes (fst (split_runes rs k))" "r = encode_runes (snd (split_runes rs k))"
    by (simp_all add: splitUTF16_runes)
  with s assms(2) split_runes_scalar[OF s(2), of k] split_runes_units[of k rs]
  show "valid_utf8 l" "valid_utf8 r" "utf16Len l = k" "utf16Len r = utf16Len s - k"
    by (simp_all add: valid_utf8_encode utf16Len_runes)
qed

subsection \<open>Properties\<close>

lemmas utf8_eval = decode_rune.simps Let_def cont_in_def second_lo_def second_hi_def rune_error_def
  replacementChar_def RuneLen_def

text \<open>
  C34: Splitting a valid string at any UTF-16 offset gives two valid strings, of exactly the offset and
  of the rest in UTF-16 units, also where the offset falls inside a surrogate pair.
\<close>

theorem splitUTF16_valid:
  assumes "valid_utf8 s" and "k \<le> utf16Len s"
  shows "case splitUTF16 s k of (l, r) \<Rightarrow>
    valid_utf8 l \<and> valid_utf8 r \<and> utf16Len l = k \<and> utf16Len r = utf16Len s - k"
  using splitUTF16_correct[OF assms] by (cases "splitUTF16 s k") simp

theorem splitUTF16_valid_witness:
  "valid_utf8 [0x61, 0xF0, 0x9F, 0x98, 0x80] \<and>
   splitUTF16 [0x61, 0xF0, 0x9F, 0x98, 0x80] 2 = ([0x61, 0xEF, 0xBF, 0xBD], [0xEF, 0xBF, 0xBD]) \<and>
   utf16Len [0x61, 0xEF, 0xBF, 0xBD] = 2"
proof -
  have v: "valid_utf8 [0x61, 0xF0, 0x9F, 0x98, 0x80]"
    by (simp add: valid_utf8.simps utf8_eval)
  have s: "splitUTF16 [0x61, 0xF0, 0x9F, 0x98, 0x80] 2 = ([0x61, 0xEF, 0xBF, 0xBD], [0xEF, 0xBF, 0xBD])"
    by (simp add: splitUTF16_def splitUTF16_loop.simps utf8_eval)
  have k: "2 \<le> utf16Len [0x61, 0xF0, 0x9F, 0x98, 0x80]"
    by (simp add: utf16Len.simps utf8_eval)
  from splitUTF16_valid[OF v k] v s show ?thesis by simp
qed

end
