(* ===== verification/Var_String.thy ===== *)
theory Var_String
  imports Codec Utf8
begin

text \<open>
  Length-prefixed strings of \<^verbatim>\<open>src/encoding/encoder.go\<close> and \<^verbatim>\<open>src/internal/anycodec/decoder.go\<close>: the
  writer refuses what is not UTF-8, the reader refuses it too.  A writer that panics in the
  source returns the error that it panics with; \<open>ebind\<close> sequences such writers.
\<close>

type_synonym 'a ewriter = "encoder \<Rightarrow> enc_error + 'a"

definition ebind :: "'e + 'a \<Rightarrow> ('a \<Rightarrow> 'e + 'b) \<Rightarrow> 'e + 'b" where
  "ebind m f = (case m of Inl e \<Rightarrow> Inl e | Inr x \<Rightarrow> f x)"

lemma ebind_simps [simp]: "ebind (Inl e) f = Inl e" "ebind (Inr x) f = f x"
  by (simp_all add: ebind_def)

lemma ebind_Inr_iff: "ebind m f = Inr y \<longleftrightarrow> (\<exists>x. m = Inr x \<and> f x = Inr y)"
  by (cases m) simp_all

definition WriteVarStringE :: "encoder \<Rightarrow> gostring \<Rightarrow> enc_error + encoder" where
  "WriteVarStringE e s =
     (if \<not> valid_utf8 s then Inl EncErrInvalidUTF8
      else Inr (WriteVarUint e (of_nat (length s)) @ s))"

text \<open>\<open>WriteVarString\<close> panics where \<open>WriteVarStringE\<close> returns the error.\<close>

definition WriteVarString :: "encoder \<Rightarrow> gostring \<Rightarrow> enc_error + encoder" where
  "WriteVarString e s = WriteVarStringE e s"

definition ReadVarString :: "gostring reader" where
  "ReadVarString = rbind ReadVarBytes (\<lambda>b. if \<not> valid_utf8 b then rfail ErrInvalidUTF8 else rreturn b)"

lemma WriteVarString_bytes: "valid_utf8 s \<Longrightarrow> WriteVarString e s = Inr (WriteVarBytes e s)"
  by (simp add: WriteVarString_def WriteVarStringE_def WriteVarBytes_def)

lemma rsafe_ReadVarString [rsafe_intros]: "rsafe ReadVarString"
  unfolding ReadVarString_def by (intro rsafe_intros)

lemma reads_ReadVarString:
  "valid_utf8 s \<Longrightarrow> length s < 2 ^ 56 \<Longrightarrow> reads ReadVarString (WriteVarBytes [] s) s"
  unfolding ReadVarString_def
  using reads_rbind[OF reads_ReadVarBytes, of s _ "[]" s] by (simp add: reads_rreturn)

interpretation varstring: codec WriteVarBytes ReadVarString "\<lambda>s. valid_utf8 s \<and> length s < 2 ^ 56"
  by unfold_locales (rule varbytes.wr_append, simp add: reads_ReadVarString, rule rsafe_ReadVarString)

lemma ReadVarString_valid: "ReadVarString d = (Inr s, d') \<Longrightarrow> valid_utf8 s"
  by (auto simp: ReadVarString_def rbind_def rfail_def rreturn_def split: prod.splits sum.splits if_splits)

end
