(* ===== verification/Rle.thy ===== *)
theory Rle
  imports Var_String
begin

text \<open>
  The run-length columns of \<^verbatim>\<open>src/encoding/rle.go\<close> (encoders) and \<^verbatim>\<open>src/internal/anycodec/rle.go\<close>
  (decoders): bytes, unsigned integers, signed differences and strings.  A column decoder is
  a record of its cursor and its run; a column encoder keeps the run that is not yet flushed.
  The interface \<open>column\<close> states the contract all four satisfy: the values written come back, in order.
\<close>

type_synonym ('v, 'd) col_reader = "'d \<Rightarrow> (dec_error + 'v) \<times> 'd"

abbreviation MaxInt32 :: u64 where
  "MaxInt32 \<equiv> 0x7FFFFFFF"

subsection \<open>Byte runs\<close>

record RleByteEncoder =
  rbe_enc :: encoder
  rbe_state :: byte
  rbe_count :: nat

definition RleByteEncoder_new :: RleByteEncoder where
  "RleByteEncoder_new = \<lparr>rbe_enc = [], rbe_state = 0, rbe_count = 0\<rparr>"

definition RleByteEncoder_Write :: "RleByteEncoder \<Rightarrow> byte \<Rightarrow> RleByteEncoder" where
  "RleByteEncoder_Write e v =
     (if rbe_count e > 0 \<and> v = rbe_state e then e\<lparr>rbe_count := rbe_count e + 1\<rparr>
      else let enc1 = (if rbe_count e > 0 then WriteVarUint (rbe_enc e) (of_nat (rbe_count e - 1)) else rbe_enc e)
           in \<lparr>rbe_enc = WriteUint8 enc1 v, rbe_state = v, rbe_count = 1\<rparr>)"

definition RleByteEncoder_Bytes :: "RleByteEncoder \<Rightarrow> byte list" where
  "RleByteEncoder_Bytes e = rbe_enc e"

record RleByteDecoder =
  rb_dec :: decoder
  rb_state :: byte
  rb_count :: int

definition NewRleByteDecoder :: "byte list \<Rightarrow> RleByteDecoder" where
  "NewRleByteDecoder data = \<lparr>rb_dec = NewDecoder data, rb_state = 0, rb_count = 0\<rparr>"

text \<open>The part of \<open>ReadRleByte\<close> after the \<open>count == 0\<close> block.\<close>

definition rb_take :: "(byte, RleByteDecoder) col_reader" where
  "rb_take d = (Inr (rb_state d), if rb_count d > 0 then d\<lparr>rb_count := rb_count d - 1\<rparr> else d)"

definition ReadRleByte :: "(byte, RleByteDecoder) col_reader" where
  "ReadRleByte d =
     (if rb_count d = 0 then
        (case ReadUint8 (rb_dec d) of
           (Inl err, c) \<Rightarrow> (Inl err, d\<lparr>rb_dec := c\<rparr>)
         | (Inr b, c) \<Rightarrow>
             let d = d\<lparr>rb_dec := c, rb_state := b\<rparr> in
             if HasContent c then
               (case ReadVarUint c of
                  (Inl err, c) \<Rightarrow> (Inl err, d\<lparr>rb_dec := c\<rparr>)
                | (Inr cnt, c) \<Rightarrow>
                    if cnt > MaxInt32 then (Inl ErrOverflow, d\<lparr>rb_dec := c\<rparr>)
                    else rb_take (d\<lparr>rb_dec := c, rb_count := uint cnt + 1\<rparr>))
             else rb_take (d\<lparr>rb_count := -1\<rparr>))
      else rb_take d)"

subsection \<open>Runs of unsigned integers\<close>

record UintOptRleEncoder =
  uoe_enc :: encoder
  uoe_state :: u64
  uoe_count :: nat

definition UintOptRleEncoder_new :: UintOptRleEncoder where
  "UintOptRleEncoder_new = \<lparr>uoe_enc = [], uoe_state = 0, uoe_count = 0\<rparr>"

text \<open>\<open>flushRun\<close>; \<open>WriteVarInt\<close> panics on a magnitude of more than 55 bits.\<close>

definition UintOptRleEncoder_flushRun :: "UintOptRleEncoder \<Rightarrow> enc_error + encoder" where
  "UintOptRleEncoder_flushRun e =
     (if uoe_count e = 1 then WriteVarIntE (uoe_enc e) (uoe_state e)
      else Inr (WriteVarUint (writeNegVarUint (uoe_enc e) (uoe_state e)) (of_nat (uoe_count e - 2))))"

definition UintOptRleEncoder_Write :: "UintOptRleEncoder \<Rightarrow> u64 \<Rightarrow> enc_error + UintOptRleEncoder" where
  "UintOptRleEncoder_Write e v =
     (if uoe_count e > 0 \<and> v = uoe_state e then Inr (e\<lparr>uoe_count := uoe_count e + 1\<rparr>)
      else ebind (if uoe_count e > 0 then UintOptRleEncoder_flushRun e else Inr (uoe_enc e))
             (\<lambda>enc. Inr \<lparr>uoe_enc = enc, uoe_state = v, uoe_count = 1\<rparr>))"

definition UintOptRleEncoder_Bytes :: "UintOptRleEncoder \<Rightarrow> enc_error + byte list" where
  "UintOptRleEncoder_Bytes e =
     (if uoe_count e = 0 then Inr (uoe_enc e)
      else if uoe_count e = 1 then WriteVarIntE (uoe_enc e) (uoe_state e)
      else Inr (WriteVarUint (writeNegVarUint (uoe_enc e) (uoe_state e)) (of_nat (uoe_count e - 2))))"

record UintOptRleDecoder =
  uo_dec :: decoder
  uo_state :: u64
  uo_count :: int

definition NewUintOptRleDecoder :: "byte list \<Rightarrow> UintOptRleDecoder" where
  "NewUintOptRleDecoder data = \<lparr>uo_dec = NewDecoder data, uo_state = 0, uo_count = 0\<rparr>"

definition uo_take :: "(u64, UintOptRleDecoder) col_reader" where
  "uo_take d = (Inr (uo_state d), d\<lparr>uo_count := uo_count d - 1\<rparr>)"

definition ReadUintOptRle :: "(u64, UintOptRleDecoder) col_reader" where
  "ReadUintOptRle d =
     (if uo_count d = 0 then
        (case ReadVarIntWithSign (uo_dec d) of
           (Inl err, c) \<Rightarrow> (Inl err, d\<lparr>uo_dec := c\<rparr>)
         | (Inr (mag, neg), c) \<Rightarrow>
             let d = d\<lparr>uo_dec := c, uo_state := mag, uo_count := 1\<rparr> in
             if neg then
               (case ReadVarUint c of
                  (Inl err, c) \<Rightarrow> (Inl err, d\<lparr>uo_dec := c\<rparr>)
                | (Inr cnt, c) \<Rightarrow>
                    if cnt > MaxInt32 then (Inl ErrOverflow, d\<lparr>uo_dec := c\<rparr>)
                    else uo_take (d\<lparr>uo_dec := c, uo_count := uint cnt + 2\<rparr>))
             else uo_take d)
      else uo_take d)"

subsection \<open>Runs of differences\<close>

record IntDiffOptRleEncoder =
  ide_enc :: encoder
  ide_state :: u64
  ide_diff :: u64
  ide_count :: nat

definition IntDiffOptRleEncoder_new :: IntDiffOptRleEncoder where
  "IntDiffOptRleEncoder_new = \<lparr>ide_enc = [], ide_state = 0, ide_diff = 0, ide_count = 0\<rparr>"

definition IntDiffOptRleEncoder_flushRun :: "IntDiffOptRleEncoder \<Rightarrow> enc_error + encoder" where
  "IntDiffOptRleEncoder_flushRun e =
     (let encoded = ide_diff e * 2;
          encoded = (if ide_count e > 1 then encoded + 1 else encoded)
      in ebind (WriteVarIntE (ide_enc e) encoded)
           (\<lambda>enc. Inr (if ide_count e > 1 then WriteVarUint enc (of_nat (ide_count e - 2)) else enc)))"

definition IntDiffOptRleEncoder_Write :: "IntDiffOptRleEncoder \<Rightarrow> u64 \<Rightarrow> enc_error + IntDiffOptRleEncoder" where
  "IntDiffOptRleEncoder_Write e v =
     (let newDiff = v - ide_state e in
      if ide_count e > 0 \<and> newDiff = ide_diff e then Inr (e\<lparr>ide_state := v, ide_count := ide_count e + 1\<rparr>)
      else ebind (if ide_count e > 0 then IntDiffOptRleEncoder_flushRun e else Inr (ide_enc e))
             (\<lambda>enc. Inr \<lparr>ide_enc = enc, ide_state = v, ide_diff = v - ide_state e, ide_count = 1\<rparr>))"

definition IntDiffOptRleEncoder_Bytes :: "IntDiffOptRleEncoder \<Rightarrow> enc_error + byte list" where
  "IntDiffOptRleEncoder_Bytes e =
     (if ide_count e = 0 then Inr (ide_enc e)
      else let encoded = ide_diff e * 2;
               encoded = (if ide_count e > 1 then encoded + 1 else encoded)
           in ebind (WriteVarIntE (ide_enc e) encoded)
                (\<lambda>out. Inr (if ide_count e > 1 then WriteVarUint out (of_nat (ide_count e - 2)) else out)))"

record IntDiffOptRleDecoder =
  id_dec :: decoder
  id_state :: u64
  id_diff :: u64
  id_count :: int

definition NewIntDiffOptRleDecoder :: "byte list \<Rightarrow> IntDiffOptRleDecoder" where
  "NewIntDiffOptRleDecoder data = \<lparr>id_dec = NewDecoder data, id_state = 0, id_diff = 0, id_count = 0\<rparr>"

definition id_take :: "(u64, IntDiffOptRleDecoder) col_reader" where
  "id_take d = (Inr (id_state d + id_diff d),
     d\<lparr>id_state := id_state d + id_diff d, id_count := id_count d - 1\<rparr>)"

definition ReadIntDiffOptRle :: "(u64, IntDiffOptRleDecoder) col_reader" where
  "ReadIntDiffOptRle d =
     (if id_count d = 0 then
        (case ReadVarInt (id_dec d) of
           (Inl err, c) \<Rightarrow> (Inl err, d\<lparr>id_dec := c\<rparr>)
         | (Inr encodedDiff, c) \<Rightarrow>
             let hasCount = encodedDiff AND 1;
                 d = d\<lparr>id_dec := c, id_diff := signed_drop_bit 1 encodedDiff, id_count := 1\<rparr> in
             if hasCount \<noteq> 0 then
               (case ReadVarUint c of
                  (Inl err, c) \<Rightarrow> (Inl err, d\<lparr>id_dec := c\<rparr>)
                | (Inr cnt, c) \<Rightarrow>
                    if cnt > MaxInt32 then (Inl ErrOverflow, d\<lparr>id_dec := c\<rparr>)
                    else id_take (d\<lparr>id_dec := c, id_count := uint cnt + 2\<rparr>))
             else id_take d)
      else id_take d)"

subsection \<open>Strings\<close>

function utf16CodeUnitLen :: "gostring \<Rightarrow> nat" where
  "utf16CodeUnitLen s =
     (if s = [] then 0
      else let (r, size) = decode_rune s
           in (if r \<ge> 0x10000 then 2 else 1) + utf16CodeUnitLen (drop size s))"
  by pat_completeness auto
termination
  by (relation "measure length") (auto dest!: decode_rune_size)

declare utf16CodeUnitLen.simps [simp del]

record StringEncoder =
  se_strs :: "gostring list"
  se_lens :: UintOptRleEncoder

definition StringEncoder_new :: StringEncoder where
  "StringEncoder_new = \<lparr>se_strs = [], se_lens = UintOptRleEncoder_new\<rparr>"

definition StringEncoder_Write :: "StringEncoder \<Rightarrow> gostring \<Rightarrow> enc_error + StringEncoder" where
  "StringEncoder_Write e s =
     ebind (UintOptRleEncoder_Write (se_lens e) (of_nat (utf16CodeUnitLen s)))
       (\<lambda>lens. Inr \<lparr>se_strs = se_strs e @ [s], se_lens = lens\<rparr>)"

definition StringEncoder_Bytes :: "StringEncoder \<Rightarrow> enc_error + byte list" where
  "StringEncoder_Bytes e =
     ebind (WriteVarString [] (concat (se_strs e))) (\<lambda>out.
     ebind (UintOptRleEncoder_Bytes (se_lens e)) (\<lambda>lens. Inr (out @ lens)))"

record StringDecoder =
  sd_str :: gostring
  sd_bytePos :: nat
  sd_lens :: UintOptRleDecoder

definition NewStringDecoder :: "byte list \<Rightarrow> dec_error + StringDecoder" where
  "NewStringDecoder data =
     (if length data = 0 then Inr \<lparr>sd_str = [], sd_bytePos = 0, sd_lens = NewUintOptRleDecoder []\<rparr>
      else case ReadVarString (NewDecoder data) of
             (Inl err, _) \<Rightarrow> Inl err
           | (Inr str, dec) \<Rightarrow>
               Inr \<lparr>sd_str = str, sd_bytePos = 0, sd_lens = NewUintOptRleDecoder (RemainingBytes dec)\<rparr>)"

definition ReadStringChunk :: "gostring \<Rightarrow> nat \<Rightarrow> u64 \<Rightarrow> gostring \<times> nat" where
  "ReadStringChunk str bytePos n =
     (let end = AdvanceUTF16 str bytePos (unat n) in (take (end - bytePos) (drop bytePos str), end))"

definition StringDecoder_Read :: "(gostring, StringDecoder) col_reader" where
  "StringDecoder_Read d =
     (case ReadUintOptRle (sd_lens d) of
        (Inl err, lens) \<Rightarrow> (Inl err, d\<lparr>sd_lens := lens\<rparr>)
      | (Inr l, lens) \<Rightarrow>
          let (s, p) = ReadStringChunk (sd_str d) (sd_bytePos d) l
          in (Inr s, d\<lparr>sd_lens := lens, sd_bytePos := p\<rparr>))"

subsection \<open>The contract of a column\<close>

text \<open>Reading a whole sequence from a column decoder, and writing one to a column encoder.\<close>

fun col_run :: "('v, 'd) col_reader \<Rightarrow> 'd \<Rightarrow> 'v list \<Rightarrow> 'd \<Rightarrow> bool" where
  "col_run rd d [] d' \<longleftrightarrow> d' = d"
| "col_run rd d (v # vs) d' \<longleftrightarrow> (\<exists>d1. rd d = (Inr v, d1) \<and> col_run rd d1 vs d')"

lemma col_run_append:
  "col_run rd d (vs @ ws) d' \<longleftrightarrow> (\<exists>d1. col_run rd d vs d1 \<and> col_run rd d1 ws d')"
  by (induction vs arbitrary: d) auto

fun write_all :: "('e \<Rightarrow> 'v \<Rightarrow> enc_error + 'e) \<Rightarrow> 'e \<Rightarrow> 'v list \<Rightarrow> enc_error + 'e" where
  "write_all w e [] = Inr e"
| "write_all w e (v # vs) = ebind (w e v) (\<lambda>e. write_all w e vs)"

lemma write_all_snoc: "write_all w e (vs @ [v]) = ebind (write_all w e vs) (\<lambda>e. w e v)"
proof (induction vs arbitrary: e)
  case Nil
  show ?case by (cases "w e v") simp_all
next
  case (Cons u vs)
  then show ?case by (cases "w e u") simp_all
qed

fun read_all :: "('v, 'd) col_reader \<Rightarrow> nat \<Rightarrow> 'd \<Rightarrow> dec_error + 'v list" where
  "read_all rd 0 d = Inr []"
| "read_all rd (Suc n) d =
     (case rd d of (Inl err, _) \<Rightarrow> Inl err
      | (Inr v, d) \<Rightarrow> (case read_all rd n d of Inl err \<Rightarrow> Inl err | Inr vs \<Rightarrow> Inr (v # vs)))"

lemma read_all_col_run: "col_run rd d vs d' \<Longrightarrow> read_all rd (length vs) d = Inr vs"
  by (induction vs arbitrary: d) auto

text \<open>
  \<open>col_decodes\<close>: from any decoder that \<open>At\<close> holds of at the start of the bytes, reading
  yields the values and ends with \<open>At\<close> right after them; \<open>s\<close> is what the column carries from run to run.
\<close>

definition col_decodes ::
    "('v, 'd) col_reader \<Rightarrow> ('s \<Rightarrow> decoder \<Rightarrow> 'd \<Rightarrow> bool) \<Rightarrow> byte list \<Rightarrow> 's \<Rightarrow> 'v list \<Rightarrow> 's \<Rightarrow> bool" where
  "col_decodes rd At bs s vs s' \<longleftrightarrow> (\<forall>pre post d. At s \<lparr>buf = pre @ bs @ post, pos = length pre\<rparr> d \<longrightarrow>
     (\<exists>d'. col_run rd d vs d' \<and> At s' \<lparr>buf = pre @ bs @ post, pos = length pre + length bs\<rparr> d'))"

lemma col_decodes_Nil: "col_decodes rd At [] s [] s"
  by (auto simp: col_decodes_def)

lemma col_decodes_append:
  assumes "col_decodes rd At bs s vs s1" and "col_decodes rd At bs' s1 vs' s2"
  shows "col_decodes rd At (bs @ bs') s (vs @ vs') s2"
  unfolding col_decodes_def
proof (intro allI impI)
  fix pre post d
  assume "At s \<lparr>buf = pre @ (bs @ bs') @ post, pos = length pre\<rparr> d"
  then obtain d1 where 1: "col_run rd d vs d1" "At s1 \<lparr>buf = pre @ bs @ bs' @ post, pos = length pre + length bs\<rparr> d1"
    using assms(1) unfolding col_decodes_def by (metis append_assoc)
  then have "At s1 \<lparr>buf = (pre @ bs) @ bs' @ post, pos = length (pre @ bs)\<rparr> d1" by simp
  then obtain d2 where "col_run rd d1 vs' d2"
      "At s2 \<lparr>buf = (pre @ bs) @ bs' @ post, pos = length (pre @ bs) + length bs'\<rparr> d2"
    using assms(2) unfolding col_decodes_def by blast
  with 1 show "\<exists>d'. col_run rd d (vs @ vs') d' \<and>
      At s2 \<lparr>buf = pre @ (bs @ bs') @ post, pos = length pre + length (bs @ bs')\<rparr> d'"
    by (auto simp: col_run_append add.assoc)
qed

locale column =
  fixes new_enc :: 'e
    and wr :: "'e \<Rightarrow> 'v \<Rightarrow> enc_error + 'e"
    and bytes :: "'e \<Rightarrow> enc_error + byte list"
    and new_dec :: "byte list \<Rightarrow> dec_error + 'd"
    and rd :: "('v, 'd) col_reader"
    and ok :: "'v list \<Rightarrow> bool"
  assumes decodes: "ok vs \<Longrightarrow> \<exists>e bs d d'. write_all wr new_enc vs = Inr e \<and> bytes e = Inr bs \<and>
      new_dec bs = Inr d \<and> col_run rd d vs d'"
begin

lemma write_total: "ok vs \<Longrightarrow> \<exists>e bs. write_all wr new_enc vs = Inr e \<and> bytes e = Inr bs"
  using decodes by blast

lemma roundtrip:
  "ok vs \<Longrightarrow> write_all wr new_enc vs = Inr e \<Longrightarrow> bytes e = Inr bs \<Longrightarrow> new_dec bs = Inr d \<Longrightarrow>
   read_all rd (length vs) d = Inr vs"
  using decodes[of vs] read_all_col_run by fastforce

lemma bytes_injective:
  assumes "ok vs" "ok ws" "length ws = length vs"
    and "write_all wr new_enc vs = Inr e1" "bytes e1 = Inr bs"
    and "write_all wr new_enc ws = Inr e2" "bytes e2 = Inr bs"
  shows "ws = vs"
proof -
  obtain d where d: "new_dec bs = Inr d" using decodes[OF assms(1)] assms(4,5) by auto
  then show ?thesis using roundtrip[OF assms(1,4,5) d] roundtrip[OF assms(2,6,7) d] assms(3) by simp
qed

end

subsection \<open>Unsigned runs satisfy it\<close>

definition uo_at :: "unit \<Rightarrow> decoder \<Rightarrow> UintOptRleDecoder \<Rightarrow> bool" where
  "uo_at u c d \<longleftrightarrow> uo_dec d = c \<and> uo_count d = 0"

definition uo_run_bytes :: "u64 \<Rightarrow> nat \<Rightarrow> byte list" where
  "uo_run_bytes v c =
     (if c = 1 then signmag_bytes False v else signmag_bytes True v @ WriteVarUint [] (of_nat (c - 2)))"

lemma count_fits:
  assumes "c < 2 ^ 31"
  shows "uint (of_nat c :: u64) = int c" "\<not> of_nat c > MaxInt32" "unat (of_nat c :: u64) < 2 ^ 56"
proof -
  have u: "unat (of_nat c :: u64) = c" using assms by (simp add: unat_of_nat)
  then show "uint (of_nat c :: u64) = int c" by (metis uint_nat)
  show "\<not> of_nat c > MaxInt32" unfolding word_less_nat_alt u using assms by simp
  show "unat (of_nat c :: u64) < 2 ^ 56" using u assms by simp
qed

lemma uo_rest_of_run:
  "uo_count d = int n \<Longrightarrow> uo_state d = v \<Longrightarrow> col_run ReadUintOptRle d (replicate n v) (d\<lparr>uo_count := 0\<rparr>)"
proof (induction n arbitrary: d)
  case (Suc n)
  then show ?case using Suc.IH[of "d\<lparr>uo_count := int n\<rparr>"] by (simp add: ReadUintOptRle_def uo_take_def)
qed simp

lemma uo_decodes_run:
  assumes c: "0 < c" "c \<le> 2 ^ 31" and v: "unat v < 2 ^ 55"
  shows "col_decodes ReadUintOptRle uo_at (uo_run_bytes v c) () (replicate c v) ()"
  unfolding col_decodes_def
proof (intro allI impI)
  fix pre post and d :: UintOptRleDecoder
  let ?b = "pre @ uo_run_bytes v c @ post"
  let ?p = "length pre + length (uo_run_bytes v c)"
  let ?d1 = "d\<lparr>uo_dec := \<lparr>buf = ?b, pos = ?p\<rparr>, uo_state := v, uo_count := int (c - 1)\<rparr>"
  assume at: "uo_at () \<lparr>buf = ?b, pos = length pre\<rparr> d"
  have "ReadUintOptRle d = (Inr v, ?d1)"
  proof (cases "c = 1")
    case True
    with at readsD[OF reads_ReadVarIntWithSign[OF v, of False], of pre post] show ?thesis
      by (simp add: ReadUintOptRle_def uo_at_def uo_run_bytes_def uo_take_def)
  next
    case False
    let ?n = "of_nat (c - 2) :: u64"
    have "c - 2 < 2 ^ 31" using c by simp
    note n = count_fits[OF this]
    have "uint ?n + 2 - 1 = int (c - 1)" using c False unfolding n(1) by simp
    with at False n(2) readsD[OF reads_ReadVarIntWithSign[OF v, of True], of pre "WriteVarUint [] ?n @ post"]
      readsD[OF reads_ReadVarUint[OF n(3)], of "pre @ signmag_bytes True v" post]
    show ?thesis
      by (simp add: ReadUintOptRle_def uo_at_def uo_run_bytes_def uo_take_def add.assoc)
  qed
  moreover have "col_run ReadUintOptRle ?d1 (replicate (c - 1) v) (?d1\<lparr>uo_count := 0\<rparr>)"
    by (rule uo_rest_of_run) simp_all
  ultimately have "col_run ReadUintOptRle d (replicate c v) (?d1\<lparr>uo_count := 0\<rparr>)"
    using c(1) by (cases c) auto
  moreover have "uo_at () \<lparr>buf = ?b, pos = ?p\<rparr> (?d1\<lparr>uo_count := 0\<rparr>)" by (simp add: uo_at_def)
  ultimately show "\<exists>d'. col_run ReadUintOptRle d (replicate c v) d' \<and> uo_at () \<lparr>buf = ?b, pos = ?p\<rparr> d'"
    by blast
qed

text \<open>What the encoder holds: the flushed bytes decode to all values but those of the open run.\<close>

definition uo_inv :: "UintOptRleEncoder \<Rightarrow> u64 list \<Rightarrow> bool" where
  "uo_inv e vs \<longleftrightarrow> (\<exists>done. vs = done @ replicate (uoe_count e) (uoe_state e) \<and>
     (uoe_count e = 0 \<longrightarrow> done = []) \<and> col_decodes ReadUintOptRle uo_at (uoe_enc e) () done ())"

definition uo_ok :: "u64 list \<Rightarrow> bool" where
  "uo_ok vs \<longleftrightarrow> length vs \<le> 2 ^ 31 \<and> (\<forall>v \<in> set vs. unat v < 2 ^ 55)"

lemma uo_flush:
  assumes "uo_inv e vs" "uo_ok vs" "uoe_count e > 0"
  shows "UintOptRleEncoder_flushRun e = Inr (uoe_enc e @ uo_run_bytes (uoe_state e) (uoe_count e))"
    and "col_decodes ReadUintOptRle uo_at (uoe_enc e @ uo_run_bytes (uoe_state e) (uoe_count e)) () vs ()"
proof -
  obtain done' where vs: "vs = done' @ replicate (uoe_count e) (uoe_state e)"
      and dec: "col_decodes ReadUintOptRle uo_at (uoe_enc e) () done' ()"
    using assms(1) by (auto simp: uo_inv_def)
  have s: "unat (uoe_state e) < 2 ^ 55" and c: "uoe_count e \<le> 2 ^ 31"
    using assms vs by (auto simp: uo_ok_def)
  show "UintOptRleEncoder_flushRun e = Inr (uoe_enc e @ uo_run_bytes (uoe_state e) (uoe_count e))"
    using signmag_WriteVarIntE[OF s] WriteVarUint_append[of "uoe_enc e @ signmag_bytes True (uoe_state e)"]
    by (simp add: UintOptRleEncoder_flushRun_def uo_run_bytes_def writeNegVarUint_eq)
  show "col_decodes ReadUintOptRle uo_at (uoe_enc e @ uo_run_bytes (uoe_state e) (uoe_count e)) () vs ()"
    unfolding vs by (rule col_decodes_append[OF dec uo_decodes_run[OF assms(3) c s]])
qed

lemma uo_write_all: "uo_ok vs \<Longrightarrow> \<exists>e. write_all UintOptRleEncoder_Write UintOptRleEncoder_new vs = Inr e \<and> uo_inv e vs"
proof (induction vs rule: rev_induct)
  case Nil
  show ?case by (simp add: uo_inv_def UintOptRleEncoder_new_def col_decodes_Nil)
next
  case (snoc v vs)
  then have ok: "uo_ok vs" by (simp add: uo_ok_def)
  with snoc obtain e where e: "write_all UintOptRleEncoder_Write UintOptRleEncoder_new vs = Inr e" "uo_inv e vs" by blast
  have "\<exists>e'. UintOptRleEncoder_Write e v = Inr e' \<and> uo_inv e' (vs @ [v])"
  proof (cases "uoe_count e > 0")
    case True
    with e(2) uo_flush[OF e(2) ok] show ?thesis
      by (cases "v = uoe_state e")
        (auto simp: UintOptRleEncoder_Write_def uo_inv_def replicate_append_same)
  next
    case False
    with e(2) show ?thesis
      by (auto simp: UintOptRleEncoder_Write_def uo_inv_def)
  qed
  with e(1) show ?case by (simp add: write_all_snoc)
qed

lemma uo_bytes:
  assumes "uo_inv e vs" "uo_ok vs"
  obtains bs where "UintOptRleEncoder_Bytes e = Inr bs" "col_decodes ReadUintOptRle uo_at bs () vs ()"
proof (cases "uoe_count e > 0")
  case True
  have "UintOptRleEncoder_Bytes e = UintOptRleEncoder_flushRun e"
    using True by (simp add: UintOptRleEncoder_Bytes_def UintOptRleEncoder_flushRun_def)
  with uo_flush[OF assms True] that show ?thesis by auto
next
  case False
  with assms(1) that[of "uoe_enc e"] show ?thesis by (auto simp: UintOptRleEncoder_Bytes_def uo_inv_def)
qed

lemma col_decodes_run:
  "col_decodes rd At bs s vs s' \<Longrightarrow> At s (NewDecoder bs) d \<Longrightarrow> \<exists>d'. col_run rd d vs d'"
  unfolding col_decodes_def NewDecoder_def by (metis append.left_neutral append.right_neutral list.size(3))

interpretation uintcol: column UintOptRleEncoder_new UintOptRleEncoder_Write UintOptRleEncoder_Bytes
    "\<lambda>bs. Inr (NewUintOptRleDecoder bs)" ReadUintOptRle uo_ok
proof
  fix vs assume ok: "uo_ok vs"
  obtain e where e: "write_all UintOptRleEncoder_Write UintOptRleEncoder_new vs = Inr e" "uo_inv e vs"
    using uo_write_all[OF ok] by blast
  obtain bs where "UintOptRleEncoder_Bytes e = Inr bs" "col_decodes ReadUintOptRle uo_at bs () vs ()"
    using uo_bytes[OF e(2) ok] by blast
  with e(1) show "\<exists>e bs d d'. write_all UintOptRleEncoder_Write UintOptRleEncoder_new vs = Inr e \<and>
      UintOptRleEncoder_Bytes e = Inr bs \<and> Inr (NewUintOptRleDecoder bs) = Inr d \<and> col_run ReadUintOptRle d vs d'"
    using col_decodes_run[of ReadUintOptRle uo_at bs "()" vs "()" "NewUintOptRleDecoder bs"]
    by (auto simp: uo_at_def NewUintOptRleDecoder_def)
qed

subsection \<open>Byte runs satisfy it\<close>

definition rb_at :: "unit \<Rightarrow> decoder \<Rightarrow> RleByteDecoder \<Rightarrow> bool" where
  "rb_at u c d \<longleftrightarrow> rb_dec d = c \<and> rb_count d = 0"

lemma rb_rest_of_run:
  "rb_count d = int n \<Longrightarrow> rb_state d = v \<Longrightarrow> col_run ReadRleByte d (replicate n v) (d\<lparr>rb_count := 0\<rparr>)"
proof (induction n arbitrary: d)
  case (Suc n)
  then show ?case using Suc.IH[of "d\<lparr>rb_count := int n\<rparr>"] by (simp add: ReadRleByte_def rb_take_def)
qed simp

lemma rb_forever: "rb_count d = -1 \<Longrightarrow> rb_state d = v \<Longrightarrow> col_run ReadRleByte d (replicate n v) d"
  by (induction n) (auto simp: ReadRleByte_def rb_take_def)

lemma rb_decodes_run:
  assumes k: "k < 2 ^ 31"
  shows "col_decodes ReadRleByte rb_at (v # WriteVarUint [] (of_nat k)) () (replicate (Suc k) v) ()"
  unfolding col_decodes_def
proof (intro allI impI)
  fix pre post and d :: RleByteDecoder
  let ?w = "WriteVarUint [] (of_nat k :: u64)"
  let ?b = "pre @ (v # ?w) @ post"
  let ?p = "length pre + length (v # ?w)"
  let ?d1 = "d\<lparr>rb_dec := \<lparr>buf = ?b, pos = ?p\<rparr>, rb_state := v, rb_count := int k\<rparr>"
  assume at: "rb_at () \<lparr>buf = ?b, pos = length pre\<rparr> d"
  note n = count_fits[OF k]
  have "HasContent \<lparr>buf = ?b, pos = Suc (length pre)\<rparr>"
    using length_WriteVarUint_pos[of "of_nat k"] by (simp add: HasContent_def)
  then have "ReadRleByte d = (Inr v, ?d1)"
    using at n(2) readsD[OF reads_readByte, of pre v "?w @ post"]
      readsD[OF reads_ReadVarUint[OF n(3)], of "pre @ [v]" post]
    by (simp add: ReadRleByte_def rb_at_def ReadUint8_def rb_take_def n(1))
  moreover have "col_run ReadRleByte ?d1 (replicate k v) (?d1\<lparr>rb_count := 0\<rparr>)"
    by (rule rb_rest_of_run) simp_all
  ultimately have "col_run ReadRleByte d (replicate (Suc k) v) (?d1\<lparr>rb_count := 0\<rparr>)" by auto
  moreover have "rb_at () \<lparr>buf = ?b, pos = ?p\<rparr> (?d1\<lparr>rb_count := 0\<rparr>)" by (simp add: rb_at_def)
  ultimately show "\<exists>d'. col_run ReadRleByte d (replicate (Suc k) v) d' \<and> rb_at () \<lparr>buf = ?b, pos = ?p\<rparr> d'"
    by blast
qed

text \<open>The last run has no count: at the end of the buffer its byte repeats for ever.\<close>

lemma rb_last_run:
  assumes "rb_at () \<lparr>buf = pre @ [v], pos = length pre\<rparr> d" and "0 < n"
  shows "\<exists>d'. col_run ReadRleByte d (replicate n v) d'"
proof -
  let ?d1 = "d\<lparr>rb_dec := \<lparr>buf = pre @ [v], pos = Suc (length pre)\<rparr>, rb_state := v, rb_count := -1\<rparr>"
  have "ReadRleByte d = (Inr v, ?d1)"
    using assms(1) readsD[OF reads_readByte, of pre v "[]"]
    by (simp add: ReadRleByte_def rb_at_def ReadUint8_def HasContent_def rb_take_def)
  moreover have "col_run ReadRleByte ?d1 (replicate (n - 1) v) ?d1" by (rule rb_forever) simp_all
  ultimately show ?thesis using assms(2) by (cases n) auto
qed

definition rb_inv :: "RleByteEncoder \<Rightarrow> byte list \<Rightarrow> bool" where
  "rb_inv e vs \<longleftrightarrow>
     (if rbe_count e = 0 then vs = [] \<and> rbe_enc e = []
      else \<exists>done bs. vs = done @ replicate (rbe_count e) (rbe_state e) \<and> rbe_enc e = bs @ [rbe_state e] \<and>
             col_decodes ReadRleByte rb_at bs () done ())"

lemma rb_inv_Write:
  assumes "rb_inv e vs" and "length vs \<le> 2 ^ 31"
  shows "rb_inv (RleByteEncoder_Write e v) (vs @ [v])"
proof (cases "rbe_count e = 0")
  case True
  then show ?thesis using assms
    by (auto simp: rb_inv_def RleByteEncoder_Write_def WriteUint8_def col_decodes_Nil)
next
  case False
  then obtain done' bs where inv: "vs = done' @ replicate (rbe_count e) (rbe_state e)"
      "rbe_enc e = bs @ [rbe_state e]" "col_decodes ReadRleByte rb_at bs () done' ()"
    using assms(1) by (auto simp: rb_inv_def)
  show ?thesis
  proof (cases "v = rbe_state e")
    case True
    with False inv show ?thesis
      by (auto simp: rb_inv_def RleByteEncoder_Write_def replicate_append_same)
  next
    case new: False
    obtain k where k: "rbe_count e = Suc k" using False by (cases "rbe_count e") auto
    let ?w = "WriteVarUint [] (of_nat k)"
    have "k < 2 ^ 31" using assms(2) inv(1) k by simp
    then have "col_decodes ReadRleByte rb_at (bs @ rbe_state e # ?w) () vs ()"
      unfolding inv(1) k by (rule col_decodes_append[OF inv(3) rb_decodes_run])
    moreover have "rbe_enc (RleByteEncoder_Write e v) = (bs @ rbe_state e # ?w) @ [v]"
      using new inv(2) WriteVarUint_append[of "bs @ [rbe_state e]"] k
      by (simp add: RleByteEncoder_Write_def WriteUint8_def)
    ultimately show ?thesis using k new
      by (auto simp: rb_inv_def RleByteEncoder_Write_def)
  qed
qed

lemma rb_write_all:
  "length vs \<le> 2 ^ 31 \<Longrightarrow>
   \<exists>e. write_all (\<lambda>e v. Inr (RleByteEncoder_Write e v)) RleByteEncoder_new vs = Inr e \<and> rb_inv e vs"
proof (induction vs rule: rev_induct)
  case Nil
  show ?case by (simp add: rb_inv_def RleByteEncoder_new_def)
next
  case (snoc v vs)
  then show ?case using rb_inv_Write by (fastforce simp: write_all_snoc)
qed

interpretation bytecol: column RleByteEncoder_new "\<lambda>e v. Inr (RleByteEncoder_Write e v)"
    "\<lambda>e. Inr (RleByteEncoder_Bytes e)" "\<lambda>bs. Inr (NewRleByteDecoder bs)" ReadRleByte "\<lambda>vs. length vs \<le> 2 ^ 31"
proof
  fix vs :: "byte list" assume "length vs \<le> 2 ^ 31"
  then obtain e where e: "write_all (\<lambda>e v. Inr (RleByteEncoder_Write e v)) RleByteEncoder_new vs = Inr e" "rb_inv e vs"
    using rb_write_all by blast
  have "\<exists>d'. col_run ReadRleByte (NewRleByteDecoder (rbe_enc e)) vs d'"
  proof (cases "rbe_count e = 0")
    case True
    then show ?thesis using e(2) by (simp add: rb_inv_def)
  next
    case False
    then obtain done' bs where inv: "vs = done' @ replicate (rbe_count e) (rbe_state e)"
        "rbe_enc e = bs @ [rbe_state e]" "col_decodes ReadRleByte rb_at bs () done' ()"
      using e(2) by (auto simp: rb_inv_def)
    have "rb_at () \<lparr>buf = [] @ bs @ [rbe_state e], pos = length []\<rparr> (NewRleByteDecoder (rbe_enc e))"
      by (simp add: rb_at_def NewRleByteDecoder_def NewDecoder_def inv(2))
    then obtain d1 where d1: "col_run ReadRleByte (NewRleByteDecoder (rbe_enc e)) done' d1"
        "rb_at () \<lparr>buf = bs @ [rbe_state e], pos = length bs\<rparr> d1"
      using inv(3) unfolding col_decodes_def by fastforce
    from rb_last_run[OF d1(2), of "rbe_count e"] False d1(1) show ?thesis
      by (auto simp: inv(1) col_run_append)
  qed
  with e(1) show "\<exists>e bs d d'. write_all (\<lambda>e v. Inr (RleByteEncoder_Write e v)) RleByteEncoder_new vs = Inr e \<and>
      Inr (RleByteEncoder_Bytes e) = Inr bs \<and> Inr (NewRleByteDecoder bs) = Inr d \<and> col_run ReadRleByte d vs d'"
    by (simp add: RleByteEncoder_Bytes_def)
qed

subsection \<open>Runs of differences satisfy it\<close>

definition id_at :: "u64 \<Rightarrow> decoder \<Rightarrow> IntDiffOptRleDecoder \<Rightarrow> bool" where
  "id_at s c d \<longleftrightarrow> id_dec d = c \<and> id_count d = 0 \<and> id_state d = s"

definition small_diff :: "u64 \<Rightarrow> bool" where
  "small_diff g \<longleftrightarrow> \<bar>sint g\<bar> < 2 ^ 54"

fun small_diffs :: "u64 \<Rightarrow> u64 list \<Rightarrow> bool" where
  "small_diffs s [] = True"
| "small_diffs s (v # vs) = (small_diff (v - s) \<and> small_diffs v vs)"

lemma small_diffs_snoc: "small_diffs s (vs @ [v]) \<longleftrightarrow> small_diffs s vs \<and> small_diff (v - last (s # vs))"
  by (induction vs arbitrary: s) auto

text \<open>The values of a run of difference \<open>g\<close> that starts after \<open>s\<close>.\<close>

fun diff_run :: "u64 \<Rightarrow> u64 \<Rightarrow> nat \<Rightarrow> u64 list" where
  "diff_run s g 0 = []"
| "diff_run s g (Suc n) = (s + g) # diff_run (s + g) g n"

lemma diff_run_snoc: "diff_run s g (Suc n) = diff_run s g n @ [s + of_nat (Suc n) * g]"
proof (induction n arbitrary: s)
  case (Suc n)
  show ?case by (subst diff_run.simps(2), subst Suc.IH) (simp add: algebra_simps)
qed simp

lemma length_diff_run [simp]: "length (diff_run s g n) = n"
  by (induction n arbitrary: s) simp_all

lemma id_rest_of_run:
  "id_count d = int n \<Longrightarrow> id_diff d = g \<Longrightarrow>
   col_run ReadIntDiffOptRle d (diff_run (id_state d) g n) (d\<lparr>id_state := id_state d + of_nat n * g, id_count := 0\<rparr>)"
proof (induction n arbitrary: d)
  case (Suc n)
  then show ?case
    using Suc.IH[of "d\<lparr>id_state := id_state d + g, id_count := int n\<rparr>"]
    by (simp add: ReadIntDiffOptRle_def id_take_def algebra_simps)
qed simp

lemma abs_sint_unat:
  fixes v :: u64
  assumes "\<bar>sint v\<bar> < 2 ^ 55"
  shows "unat (if sint v < 0 then - v else v) < 2 ^ 55"
proof -
  have "v = word_of_int (sint v)" by simp
  then have "(if sint v < 0 then - v else v) = word_of_int \<bar>sint v\<bar>"
    by (metis abs_if wi_hom_neg)
  moreover have "unat (word_of_int k :: u64) < 2 ^ 55" if "0 \<le> k" "k < 2 ^ 55" for k
    using that by (simp add: unat_eq_nat_uint uint_word_of_int)
  ultimately show ?thesis using assms by simp
qed

definition diff_code :: "u64 \<Rightarrow> bool \<Rightarrow> u64" where
  "diff_code g many = (if many then g * 2 + 1 else g * 2)"

lemma sint_of_int: "- (2 ^ 63) \<le> k \<Longrightarrow> k < 2 ^ 63 \<Longrightarrow> sint (word_of_int k :: u64) = k"
  by (simp add: signed_take_bit_int_eq_self sint_sbintrunc')

lemma sint_diff_code: "small_diff g \<Longrightarrow> sint (diff_code g many) = 2 * sint g + (if many then 1 else 0)"
proof -
  assume "small_diff g"
  then have "- (2 ^ 63) \<le> 2 * sint g + (if many then 1 else 0)" "2 * sint g + (if many then 1 else 0) < 2 ^ 63"
    by (auto simp: small_diff_def)
  then have "sint (word_of_int (2 * sint g + (if many then 1 else 0)) :: u64) = 2 * sint g + (if many then 1 else 0)"
    by (rule sint_of_int)
  moreover have "diff_code g many = word_of_int (2 * sint g + (if many then 1 else 0))"
    by (simp add: diff_code_def mult.commute)
  ultimately show ?thesis by simp
qed

lemma diff_code_flag: "(diff_code g many AND 1 \<noteq> 0) = many"
  by (simp add: diff_code_def and_one_eq mod_2_eq_odd)

lemma diff_code_shift: "small_diff g \<Longrightarrow> signed_drop_bit 1 (diff_code g many) = g"
proof -
  assume "small_diff g"
  then have "sint (signed_drop_bit 1 (diff_code g many)) = sint g"
    by (simp add: sint_signed_drop_bit_eq sint_diff_code drop_bit_eq_div)
  then show ?thesis by (simp add: signed_word_eqI)
qed

lemma WriteVarIntE_diff:
  assumes "small_diff g"
  obtains bs where "\<And>e. WriteVarIntE e (diff_code g many) = Inr (e @ bs)" "reads ReadVarInt bs (diff_code g many)"
proof -
  let ?v = "diff_code g many"
  let ?m = "if sint ?v < 0 then - ?v else ?v"
  have "\<bar>sint ?v\<bar> < 2 ^ 55" using assms sint_diff_code[OF assms, of many] by (auto simp: small_diff_def)
  then have "unat ?m < 2 ^ 55" by (rule abs_sint_unat)
  then have w: "WriteVarIntE e ?v = Inr (e @ signmag_bytes (sint ?v < 0) ?m)" for e
    by (simp add: WriteVarIntE_eq Let_def)
  show ?thesis by (rule that[OF w reads_ReadVarInt[OF w[of "[]", simplified]]])
qed

lemma id_decodes_run:
  assumes g: "small_diff g" and c: "0 < c" "c \<le> 2 ^ 31"
  obtains bs where
    "\<And>e. ebind (WriteVarIntE e (diff_code g (c > 1)))
        (\<lambda>enc. Inr (if c > 1 then WriteVarUint enc (of_nat (c - 2)) else enc)) = Inr (e @ bs)"
    "\<And>s. col_decodes ReadIntDiffOptRle id_at bs s (diff_run s g c) (s + of_nat c * g)"
proof -
  obtain w where w: "\<And>e. WriteVarIntE e (diff_code g (c > 1)) = Inr (e @ w)" "reads ReadVarInt w (diff_code g (c > 1))"
    using WriteVarIntE_diff[OF g] by blast
  let ?n = "of_nat (c - 2) :: u64"
  let ?bs = "w @ (if c > 1 then WriteVarUint [] ?n else [])"
  have "c - 2 < 2 ^ 31" using c by simp
  note n = count_fits[OF this]
  have dec: "col_decodes ReadIntDiffOptRle id_at ?bs s (diff_run s g c) (s + of_nat c * g)" for s
    unfolding col_decodes_def
  proof (intro allI impI)
    fix pre post and d :: IntDiffOptRleDecoder
    let ?b = "pre @ ?bs @ post" and ?p = "length pre + length ?bs"
    let ?d1 = "d\<lparr>id_dec := \<lparr>buf = ?b, pos = ?p\<rparr>, id_state := s + g, id_diff := g, id_count := int (c - 1)\<rparr>"
    assume at: "id_at s \<lparr>buf = ?b, pos = length pre\<rparr> d"
    have "ReadIntDiffOptRle d = (Inr (s + g), ?d1)"
    proof (cases "c > 1")
      case False
      then have "c = 1" using c(1) by simp
      with at False readsD[OF w(2), of pre post] diff_code_flag[of g "c > 1"] diff_code_shift[OF g, of "c > 1"]
      show ?thesis by (simp add: ReadIntDiffOptRle_def id_at_def id_take_def)
    next
      case True
      then have "uint ?n + 2 - 1 = int (c - 1)" unfolding n(1) by simp
      with at True n(2) readsD[OF w(2), of pre "WriteVarUint [] ?n @ post"] diff_code_flag[of g "c > 1"]
        diff_code_shift[OF g, of "c > 1"] readsD[OF reads_ReadVarUint[OF n(3)], of "pre @ w" post]
      show ?thesis by (simp add: ReadIntDiffOptRle_def id_at_def id_take_def add.assoc)
    qed
    moreover have "col_run ReadIntDiffOptRle ?d1 (diff_run (s + g) g (c - 1))
        (?d1\<lparr>id_state := s + g + of_nat (c - 1) * g, id_count := 0\<rparr>)"
      using id_rest_of_run[of ?d1 "c - 1" g] by simp
    ultimately have "col_run ReadIntDiffOptRle d (diff_run s g c)
        (?d1\<lparr>id_state := s + g + of_nat (c - 1) * g, id_count := 0\<rparr>)"
      using c(1) by (cases c) auto
    moreover have "s + g + of_nat (c - 1) * g = s + of_nat c * g"
      using c(1) by (cases c) (simp_all add: algebra_simps)
    then have "id_at (s + of_nat c * g) \<lparr>buf = ?b, pos = ?p\<rparr>
        (?d1\<lparr>id_state := s + g + of_nat (c - 1) * g, id_count := 0\<rparr>)"
      by (simp add: id_at_def)
    ultimately show "\<exists>d'. col_run ReadIntDiffOptRle d (diff_run s g c) d' \<and>
        id_at (s + of_nat c * g) \<lparr>buf = ?b, pos = ?p\<rparr> d'"
      by blast
  qed
  have "ebind (WriteVarIntE e (diff_code g (c > 1)))
        (\<lambda>enc. Inr (if c > 1 then WriteVarUint enc ?n else enc)) = Inr (e @ ?bs)" for e
    using w(1) WriteVarUint_append[of "e @ w" ?n] by (simp del: of_nat_diff)
  then show ?thesis by (rule that[of ?bs]) (rule dec)
qed

lemma id_flushRun_eq:
  "IntDiffOptRleEncoder_flushRun e = ebind (WriteVarIntE (ide_enc e) (diff_code (ide_diff e) (ide_count e > 1)))
     (\<lambda>enc. Inr (if ide_count e > 1 then WriteVarUint enc (of_nat (ide_count e - 2)) else enc))"
  by (simp add: IntDiffOptRleEncoder_flushRun_def diff_code_def)

lemma id_Bytes_eq:
  "IntDiffOptRleEncoder_Bytes e = (if ide_count e = 0 then Inr (ide_enc e) else IntDiffOptRleEncoder_flushRun e)"
  by (simp add: IntDiffOptRleEncoder_Bytes_def IntDiffOptRleEncoder_flushRun_def)

definition id_inv :: "IntDiffOptRleEncoder \<Rightarrow> u64 list \<Rightarrow> bool" where
  "id_inv e vs \<longleftrightarrow> ide_state e = last (0 # vs) \<and>
     (if ide_count e = 0 then vs = [] \<and> ide_enc e = []
      else \<exists>done s. vs = done @ diff_run s (ide_diff e) (ide_count e) \<and> small_diff (ide_diff e) \<and>
             ide_state e = s + of_nat (ide_count e) * ide_diff e \<and>
             col_decodes ReadIntDiffOptRle id_at (ide_enc e) 0 done s)"

lemma id_invI:
  assumes "ide_count e > 0" "small_diff (ide_diff e)" "ide_state e = last (0 # vs)"
    and "vs = done @ diff_run s (ide_diff e) (ide_count e)"
    and "ide_state e = s + of_nat (ide_count e) * ide_diff e"
    and "col_decodes ReadIntDiffOptRle id_at (ide_enc e) 0 done s"
  shows "id_inv e vs"
proof -
  have "\<exists>done s. vs = done @ diff_run s (ide_diff e) (ide_count e) \<and> small_diff (ide_diff e) \<and>
      ide_state e = s + of_nat (ide_count e) * ide_diff e \<and> col_decodes ReadIntDiffOptRle id_at (ide_enc e) 0 done s"
    using assms(2,4-6) by blast
  with assms(1,3) show ?thesis by (simp only: id_inv_def) simp
qed

definition id_ok :: "u64 list \<Rightarrow> bool" where
  "id_ok vs \<longleftrightarrow> length vs \<le> 2 ^ 31 \<and> small_diffs 0 vs"

lemma id_flush:
  assumes inv: "id_inv e vs" and "id_ok vs" and c: "ide_count e > 0"
  obtains bs where "IntDiffOptRleEncoder_flushRun e = Inr bs"
    "col_decodes ReadIntDiffOptRle id_at bs 0 vs (ide_state e)"
proof -
  obtain done' s where vs: "vs = done' @ diff_run s (ide_diff e) (ide_count e)" "small_diff (ide_diff e)"
      "ide_state e = s + of_nat (ide_count e) * ide_diff e"
      and dec: "col_decodes ReadIntDiffOptRle id_at (ide_enc e) 0 done' s"
    using inv c by (auto simp: id_inv_def)
  have "ide_count e \<le> 2 ^ 31" using assms(2) vs(1) by (simp add: id_ok_def)
  then show ?thesis
  proof (rule id_decodes_run[OF vs(2) c])
    fix bs
    assume "\<And>enc. ebind (WriteVarIntE enc (diff_code (ide_diff e) (ide_count e > 1)))
        (\<lambda>enc. Inr (if ide_count e > 1 then WriteVarUint enc (of_nat (ide_count e - 2)) else enc)) = Inr (enc @ bs)"
      and "\<And>s. col_decodes ReadIntDiffOptRle id_at bs s (diff_run s (ide_diff e) (ide_count e))
        (s + of_nat (ide_count e) * ide_diff e)"
    then show ?thesis
      using that[of "ide_enc e @ bs"] col_decodes_append[OF dec] unfolding id_flushRun_eq vs(1,3) by simp
  qed
qed

lemma id_write_step:
  assumes inv: "id_inv e vs" and ok: "id_ok (vs @ [v])"
  shows "\<exists>e'. IntDiffOptRleEncoder_Write e v = Inr e' \<and> id_inv e' (vs @ [v])"
proof -
  have okv: "id_ok vs" and st: "ide_state e = last (0 # vs)" and g: "small_diff (v - ide_state e)"
    using inv ok by (auto simp: id_ok_def id_inv_def small_diffs_snoc simp del: last.simps)
  consider (empty) "ide_count e = 0" | (same) "ide_count e > 0" "v - ide_state e = ide_diff e"
    | (new) "ide_count e > 0" "v - ide_state e \<noteq> ide_diff e" by blast
  then show ?thesis
  proof cases
    case empty
    have "id_inv \<lparr>ide_enc = [], ide_state = v, ide_diff = v, ide_count = 1\<rparr> [v]"
      by (rule id_invI[of _ _ "[]" 0]) (use g inv empty in \<open>simp_all add: id_inv_def col_decodes_Nil\<close>)
    with inv empty show ?thesis by (simp add: IntDiffOptRleEncoder_Write_def id_inv_def)
  next
    case same
    then obtain done' s where vs: "vs = done' @ diff_run s (ide_diff e) (ide_count e)" "small_diff (ide_diff e)"
        "ide_state e = s + of_nat (ide_count e) * ide_diff e" "col_decodes ReadIntDiffOptRle id_at (ide_enc e) 0 done' s"
      using inv by (auto simp: id_inv_def)
    have v: "v = s + of_nat (Suc (ide_count e)) * ide_diff e"
      using same(2) vs(3) by (simp add: algebra_simps)
    let ?e = "e\<lparr>ide_state := v, ide_count := Suc (ide_count e)\<rparr>"
    have "id_inv ?e (vs @ [v])"
    proof (rule id_invI[of _ _ done' s])
      show "vs @ [v] = done' @ diff_run s (ide_diff ?e) (ide_count ?e)"
        unfolding vs(1) v by (simp add: diff_run_snoc del: diff_run.simps)
    qed (use vs(2,4) v in simp_all)
    with same show ?thesis by (simp add: IntDiffOptRleEncoder_Write_def)
  next
    case new
    obtain bs where bs: "IntDiffOptRleEncoder_flushRun e = Inr bs"
        "col_decodes ReadIntDiffOptRle id_at bs 0 vs (ide_state e)"
      using id_flush[OF inv okv new(1)] .
    have "id_inv \<lparr>ide_enc = bs, ide_state = v, ide_diff = v - ide_state e, ide_count = 1\<rparr> (vs @ [v])"
      by (rule id_invI[of _ _ vs "ide_state e"]) (use bs(2) g in simp_all)
    with bs(1) new show ?thesis by (simp add: IntDiffOptRleEncoder_Write_def)
  qed
qed

lemma id_write_all:
  "id_ok vs \<Longrightarrow> \<exists>e. write_all IntDiffOptRleEncoder_Write IntDiffOptRleEncoder_new vs = Inr e \<and> id_inv e vs"
proof (induction vs rule: rev_induct)
  case Nil
  show ?case by (simp add: id_inv_def IntDiffOptRleEncoder_new_def)
next
  case (snoc v vs)
  then have "id_ok vs" by (simp add: id_ok_def small_diffs_snoc)
  with snoc obtain e where "write_all IntDiffOptRleEncoder_Write IntDiffOptRleEncoder_new vs = Inr e" "id_inv e vs" by blast
  with id_write_step[OF _ snoc.prems] show ?case by (auto simp: write_all_snoc)
qed

interpretation diffcol: column IntDiffOptRleEncoder_new IntDiffOptRleEncoder_Write IntDiffOptRleEncoder_Bytes
    "\<lambda>bs. Inr (NewIntDiffOptRleDecoder bs)" ReadIntDiffOptRle id_ok
proof
  fix vs assume ok: "id_ok vs"
  then obtain e where e: "write_all IntDiffOptRleEncoder_Write IntDiffOptRleEncoder_new vs = Inr e" "id_inv e vs"
    using id_write_all by blast
  obtain bs s' where bs: "IntDiffOptRleEncoder_Bytes e = Inr bs" "col_decodes ReadIntDiffOptRle id_at bs 0 vs s'"
  proof (cases "ide_count e = 0")
    case True
    then show ?thesis using e(2) that[of "[]" 0] by (simp add: id_Bytes_eq id_inv_def col_decodes_Nil)
  next
    case False
    then show ?thesis using id_flush[OF e(2) ok] that by (metis id_Bytes_eq gr0I)
  qed
  have "\<exists>d'. col_run ReadIntDiffOptRle (NewIntDiffOptRleDecoder bs) vs d'"
    by (rule col_decodes_run[OF bs(2)]) (simp add: id_at_def NewIntDiffOptRleDecoder_def)
  with e(1) bs(1) show "\<exists>e bs d d'. write_all IntDiffOptRleEncoder_Write IntDiffOptRleEncoder_new vs = Inr e \<and>
      IntDiffOptRleEncoder_Bytes e = Inr bs \<and> Inr (NewIntDiffOptRleDecoder bs) = Inr d \<and>
      col_run ReadIntDiffOptRle d vs d'"
    by simp
qed

subsection \<open>The string column satisfies it\<close>

lemma utf16CodeUnitLen_eq: "utf16CodeUnitLen s = utf16Len s"
proof (induction s rule: utf16Len.induct)
  case (1 s)
  then show ?case
    by (simp add: utf16CodeUnitLen.simps[of s] utf16Len.simps[of s] Let_def split: prod.splits)
qed

lemma utf16Len_le_length: "utf16Len s \<le> length s"
proof (induction s rule: utf16Len.induct)
  case (1 s)
  obtain r n where d: "decode_rune s = (r, n)" by (cases "decode_rune s")
  show ?case
  proof (cases "s = []")
    case False
    then have "utf16Len (drop n s) \<le> length s - n" "0 < n" "n \<le> length s"
      using 1[OF False d[symmetric] refl] decode_rune_size[OF d[symmetric]] by simp_all
    moreover have "r > 0xFFFF \<Longrightarrow> 2 \<le> n"
      using d False by (cases s) (auto simp: decode_rune.simps Let_def rune_error_def split: list.splits if_splits)
    ultimately show ?thesis using d False by (auto simp: utf16Len.simps[of s])
  qed simp
qed

definition str_ok :: "gostring list \<Rightarrow> bool" where
  "str_ok ss \<longleftrightarrow> length ss \<le> 2 ^ 31 \<and> list_all valid_utf8 ss \<and> length (concat ss) < 2 ^ 55"

abbreviation str_lens :: "gostring list \<Rightarrow> u64 list" where
  "str_lens ss \<equiv> map (\<lambda>s. of_nat (utf16Len s)) ss"

lemma unat_utf16Len: "length s < 2 ^ 55 \<Longrightarrow> unat (of_nat (utf16Len s) :: u64) = utf16Len s"
  using utf16Len_le_length[of s] by (simp add: unat_of_nat)

lemma str_ok_lens: "str_ok ss \<Longrightarrow> uo_ok (str_lens ss)"
proof -
  assume ok: "str_ok ss"
  have "unat (of_nat (utf16Len s) :: u64) < 2 ^ 55" if "s \<in> set ss" for s
  proof -
    have "length s \<le> length (concat ss)" using that by (induction ss) auto
    then show ?thesis using ok utf16Len_le_length[of s] by (simp add: str_ok_def unat_of_nat)
  qed
  then show ?thesis using ok by (auto simp: uo_ok_def str_ok_def)
qed

lemma str_write_all:
  "write_all StringEncoder_Write \<lparr>se_strs = pre, se_lens = l\<rparr> ss =
   ebind (write_all UintOptRleEncoder_Write l (str_lens ss)) (\<lambda>l. Inr \<lparr>se_strs = pre @ ss, se_lens = l\<rparr>)"
proof (induction ss arbitrary: pre l)
  case (Cons s ss)
  then show ?case
    by (cases "UintOptRleEncoder_Write l (of_nat (utf16Len s))") (simp_all add: StringEncoder_Write_def utf16CodeUnitLen_eq)
qed simp

lemma str_col_run:
  assumes "list_all valid_utf8 ss" and "length (concat ss) < 2 ^ 55"
    and "col_run ReadUintOptRle (sd_lens d) (str_lens ss) l'"
    and "sd_str d = pre @ concat ss" and "sd_bytePos d = length pre"
  shows "\<exists>d'. col_run StringDecoder_Read d ss d'"
  using assms
proof (induction ss arbitrary: d pre)
  case (Cons s ss)
  from Cons.prems(3) obtain l1 where l1: "ReadUintOptRle (sd_lens d) = (Inr (of_nat (utf16Len s)), l1)"
      "col_run ReadUintOptRle l1 (str_lens ss) l'" by auto
  have u: "unat (of_nat (utf16Len s) :: u64) = utf16Len s" using Cons.prems(2) by (intro unat_utf16Len) simp
  have "AdvanceUTF16 (sd_str d) (sd_bytePos d) (utf16Len s) = length pre + length s"
    using AdvanceUTF16_valid[of s pre "concat ss"] Cons.prems by simp
  then have "StringDecoder_Read d = (Inr s, d\<lparr>sd_lens := l1, sd_bytePos := length pre + length s\<rparr>)"
    using l1(1) Cons.prems(4,5) u by (simp add: StringDecoder_Read_def ReadStringChunk_def)
  moreover have "\<exists>d'. col_run StringDecoder_Read (d\<lparr>sd_lens := l1, sd_bytePos := length pre + length s\<rparr>) ss d'"
    using Cons.prems l1(2) by (intro Cons.IH[of _ "pre @ s"]) auto
  ultimately show ?case by auto
qed (metis col_run.simps(1))

interpretation strcol: column StringEncoder_new StringEncoder_Write StringEncoder_Bytes
    NewStringDecoder StringDecoder_Read str_ok
proof
  fix ss assume ok: "str_ok ss"
  obtain l bs d' where l: "write_all UintOptRleEncoder_Write UintOptRleEncoder_new (str_lens ss) = Inr l"
      "UintOptRleEncoder_Bytes l = Inr bs" "col_run ReadUintOptRle (NewUintOptRleDecoder bs) (str_lens ss) d'"
    using uintcol.decodes[OF str_ok_lens[OF ok]] by auto
  let ?s = "concat ss" and ?e = "\<lparr>se_strs = ss, se_lens = l\<rparr>"
  have valid: "valid_utf8 ?s" "length ?s < 2 ^ 56"
    using ok valid_utf8_concat[of ss "[]"] by (auto simp: str_ok_def)
  have "write_all StringEncoder_Write StringEncoder_new ss = Inr ?e"
    using str_write_all[of "[]" UintOptRleEncoder_new ss] l(1) by (simp add: StringEncoder_new_def)
  moreover have "StringEncoder_Bytes ?e = Inr (WriteVarBytes [] ?s @ bs)"
    using l(2) valid by (simp add: StringEncoder_Bytes_def WriteVarString_bytes)
  moreover have "NewStringDecoder (WriteVarBytes [] ?s @ bs) =
      Inr \<lparr>sd_str = ?s, sd_bytePos = 0, sd_lens = NewUintOptRleDecoder bs\<rparr>"
    using varstring.read_back[of ?s bs] valid WriteVarUint_Nil[of "of_nat (length ?s)"]
    by (simp add: NewStringDecoder_def RemainingBytes_def WriteVarBytes_def)
  moreover have "\<exists>d'. col_run StringDecoder_Read \<lparr>sd_str = ?s, sd_bytePos = 0, sd_lens = NewUintOptRleDecoder bs\<rparr> ss d'"
    using ok l(3) by (intro str_col_run[of _ _ _ "[]"]) (auto simp: str_ok_def)
  ultimately show "\<exists>e bs d d'. write_all StringEncoder_Write StringEncoder_new ss = Inr e \<and>
      StringEncoder_Bytes e = Inr bs \<and> NewStringDecoder bs = Inr d \<and> col_run StringDecoder_Read d ss d'"
    by blast
qed

subsection \<open>Properties\<close>

text \<open>
  C28: A column of at most 2^31 strings, each of them valid UTF-8 and together shorter than 2^55 bytes, is encoded
  without a panic and decodes to the same strings, although only their UTF-16 lengths are stored beside the joined text.
\<close>

theorem string_column_roundtrip:
  assumes "str_ok ss"
  shows "\<exists>e bs d. write_all StringEncoder_Write StringEncoder_new ss = Inr e \<and> StringEncoder_Bytes e = Inr bs \<and>
    NewStringDecoder bs = Inr d \<and> read_all StringDecoder_Read (length ss) d = Inr ss"
proof -
  obtain e bs d d' where *: "write_all StringEncoder_Write StringEncoder_new ss = Inr e" "StringEncoder_Bytes e = Inr bs"
      "NewStringDecoder bs = Inr d" "col_run StringDecoder_Read d ss d'"
    using strcol.decodes[OF assms] by blast
  from read_all_col_run[OF *(4)] *(1-3) show ?thesis by blast
qed

theorem string_column_roundtrip_witness:
  "\<exists>e bs d. write_all StringEncoder_Write StringEncoder_new [[0x61], [0xF0, 0x9F, 0x98, 0x80], []] = Inr e \<and>
    StringEncoder_Bytes e = Inr bs \<and> NewStringDecoder bs = Inr d \<and>
    read_all StringDecoder_Read 3 d = Inr [[0x61], [0xF0, 0x9F, 0x98, 0x80], []]"
proof -
  have "valid_utf8 [0x61]" "valid_utf8 [0xF0, 0x9F, 0x98, 0x80]" by (simp_all add: valid_utf8.simps utf8_eval)
  then have "str_ok [[0x61], [0xF0, 0x9F, 0x98, 0x80], []]" by (simp add: str_ok_def)
  from string_column_roundtrip[OF this] show ?thesis by (simp only: list.size numeral_3_eq_3) simp
qed

text \<open>
  C29: A column of at most 2^31 signed integers whose successive differences, starting from 0, are below 2^54 in
  magnitude is encoded without a panic and decodes to the same integers; the run flag shares a word with the difference.
\<close>

theorem int_diff_column_roundtrip:
  assumes "id_ok vs"
  shows "\<exists>e bs. write_all IntDiffOptRleEncoder_Write IntDiffOptRleEncoder_new vs = Inr e \<and>
    IntDiffOptRleEncoder_Bytes e = Inr bs \<and>
    read_all ReadIntDiffOptRle (length vs) (NewIntDiffOptRleDecoder bs) = Inr vs"
proof -
  obtain e bs d' where *: "write_all IntDiffOptRleEncoder_Write IntDiffOptRleEncoder_new vs = Inr e"
      "IntDiffOptRleEncoder_Bytes e = Inr bs" "col_run ReadIntDiffOptRle (NewIntDiffOptRleDecoder bs) vs d'"
    using diffcol.decodes[OF assms] by auto
  from read_all_col_run[OF *(3)] *(1,2) show ?thesis by blast
qed

theorem int_diff_column_roundtrip_witness:
  "\<exists>e bs. write_all IntDiffOptRleEncoder_Write IntDiffOptRleEncoder_new [5, 6, 7, 3] = Inr e \<and>
    IntDiffOptRleEncoder_Bytes e = Inr bs \<and>
    read_all ReadIntDiffOptRle 4 (NewIntDiffOptRleDecoder bs) = Inr [5, 6, 7, 3]"
proof -
  have "id_ok [5, 6, 7, 3]" by (simp add: id_ok_def small_diff_def)
  moreover have "length [5, 6, 7, 3 :: u64] = 4" by simp
  ultimately show ?thesis using int_diff_column_roundtrip[of "[5, 6, 7, 3]"] by metis
qed

text \<open>
  Beyond these conditions two columns go wrong without an error.  Only the joined text is validated, so two pieces that
  cut a character are accepted and the first reads back as the whole character.  The difference is doubled without a
  check, so the column of the single integer -2^63 is the same as that of 0.
\<close>

lemma string_pieces_joined:
  "ebind (write_all StringEncoder_Write StringEncoder_new [[0xC3], [0xA9]]) StringEncoder_Bytes = Inr [2, 0xC3, 0xA9, 0x41, 0]"
  by (simp add: StringEncoder_Write_def StringEncoder_Bytes_def StringEncoder_new_def UintOptRleEncoder_Write_def UintOptRleEncoder_Bytes_def
      UintOptRleEncoder_new_def utf16CodeUnitLen.simps valid_utf8.simps utf8_eval WriteVarString_def WriteVarStringE_def
      WriteVarUint.simps writeNegVarUint_def)

lemma int_diff_wraps:
  "ebind (write_all IntDiffOptRleEncoder_Write IntDiffOptRleEncoder_new [0x8000000000000000]) IntDiffOptRleEncoder_Bytes =
   ebind (write_all IntDiffOptRleEncoder_Write IntDiffOptRleEncoder_new [0]) IntDiffOptRleEncoder_Bytes"
proof -
  have "WriteVarIntE [] 18446744073709551616 = WriteVarIntE [] 0" by (rule arg_cong, transfer) simp
  then show ?thesis by (simp add: IntDiffOptRleEncoder_Write_def IntDiffOptRleEncoder_Bytes_def IntDiffOptRleEncoder_new_def)
qed

end
