(* ===== verification/Float_Bits.thy ===== *)
theory Float_Bits
  imports Ygo_Prelude
begin

text \<open>
  The conversions of Go that the tagged-value encoder uses, on IEEE 754 bit patterns:
  \<^verbatim>\<open>float32(v)\<close> (round to nearest, ties to even), \<^verbatim>\<open>float64(f)\<close> (exact), \<^verbatim>\<open>float64(i)\<close> of an integer, and \<^verbatim>\<open>==\<close>.
\<close>

text \<open>\<open>rnd sig n\<close> is \<open>sig / 2^n\<close> rounded to the nearest integer, ties to even.\<close>

definition rnd :: "nat \<Rightarrow> nat \<Rightarrow> nat" where
  "rnd sig n =
     (let q = sig div 2 ^ n; r = sig mod 2 ^ n
      in if 2 * r > 2 ^ n \<or> (2 * r = 2 ^ n \<and> odd q) then q + 1 else q)"

fun top_bit :: "nat \<Rightarrow> nat" where
  "top_bit n = (if n < 2 then 0 else Suc (top_bit (n div 2)))"

declare top_bit.simps [simp del]

definition float64_exp :: "u64 \<Rightarrow> nat" where
  "float64_exp v = unat v div 2 ^ 52 mod 2 ^ 11"

definition float64_man :: "u64 \<Rightarrow> nat" where
  "float64_man v = unat v mod 2 ^ 52"

definition float64_neg :: "u64 \<Rightarrow> bool" where
  "float64_neg v = bit v 63"

definition float64_nan :: "u64 \<Rightarrow> bool" where
  "float64_nan v \<longleftrightarrow> float64_exp v = 2047 \<and> float64_man v \<noteq> 0"

definition float64_eq :: "u64 \<Rightarrow> u64 \<Rightarrow> bool" where
  "float64_eq a b \<longleftrightarrow> \<not> float64_nan a \<and> \<not> float64_nan b \<and>
     (a = b \<or> (float64_exp a = 0 \<and> float64_man a = 0 \<and> float64_exp b = 0 \<and> float64_man b = 0))"

definition float32_of_float64 :: "u64 \<Rightarrow> u32" where
  "float32_of_float64 v =
     (let e = float64_exp v; m = float64_man v;
          sign = (if float64_neg v then 2 ^ 31 else 0);
          mag = (if e = 2047 then (if m = 0 then 0x7F800000 else 0x7FC00000)
                 else if e = 0 then 0
                 else let b = (if 897 \<le> e then (e - 897) * 2 ^ 23 + rnd (2 ^ 52 + m) 29
                               else rnd (2 ^ 52 + m) (29 + (897 - e)))
                      in if b \<ge> 0x7F800000 then 0x7F800000 else b)
      in of_nat (sign + mag))"

definition float64_of_float32 :: "u32 \<Rightarrow> u64" where
  "float64_of_float32 f =
     (let e = unat f div 2 ^ 23 mod 2 ^ 8; m = unat f mod 2 ^ 23;
          sign = (if bit f 31 then 2 ^ 63 else 0);
          mag = (if e = 255 then 2047 * 2 ^ 52 + (if m = 0 then 0 else 2 ^ 51)
                 else if e = 0 \<and> m = 0 then 0
                 else if e = 0 then (top_bit m + 874) * 2 ^ 52 + (m - 2 ^ top_bit m) * 2 ^ (52 - top_bit m)
                 else (e + 896) * 2 ^ 52 + m * 2 ^ 29)
      in of_nat (sign + mag))"

definition float64_of_nat :: "nat \<Rightarrow> nat" where
  "float64_of_nat n =
     (if n = 0 then 0
      else let k = top_bit n
           in (k + 1022) * 2 ^ 52 + (if k \<le> 52 then n * 2 ^ (52 - k) else rnd n (k - 52)))"

definition float64_of_int64 :: "u64 \<Rightarrow> u64" where
  "float64_of_int64 v =
     (if sint v < 0 then of_nat (2 ^ 63 + float64_of_nat (nat (- sint v)))
      else of_nat (float64_of_nat (nat (sint v))))"

definition float64_of_uint64 :: "u64 \<Rightarrow> u64" where
  "float64_of_uint64 v = of_nat (float64_of_nat (unat v))"

text \<open>The integer a pattern stands for, when it stands for one.\<close>

definition int_of_float64 :: "u64 \<Rightarrow> int" where
  "int_of_float64 v =
     (let e = float64_exp v; m = float64_man v;
          mag = (if e = 0 then 0
                 else if 1075 \<le> e then (2 ^ 52 + m) * 2 ^ (e - 1075) else (2 ^ 52 + m) div 2 ^ (1075 - e))
      in if float64_neg v then - int mag else int mag)"

lemma top_bit_bounds: "0 < n \<Longrightarrow> 2 ^ top_bit n \<le> n \<and> n < 2 ^ Suc (top_bit n)"
proof (induction n rule: top_bit.induct)
  case (1 n)
  show ?case
  proof (cases "n < 2")
    case True
    then show ?thesis using 1 by (simp add: top_bit.simps[of n])
  next
    case False
    then have "2 ^ top_bit (n div 2) \<le> n div 2" "n div 2 < 2 ^ Suc (top_bit (n div 2))"
      using "1.IH" by auto
    moreover have "n = 2 * (n div 2) + n mod 2" "n mod 2 < 2" by simp_all
    ultimately show ?thesis using False unfolding top_bit.simps[of n] by (simp del: mod_less_divisor) linarith
  qed
qed

lemma float64_of_nat_fields:
  assumes "0 < n" and "n \<le> 2 ^ 53"
  obtains k m where "float64_of_nat n = (k + 1023) * 2 ^ 52 + m" "m < 2 ^ 52" "k \<le> 53"
    "(2 ^ 52 + m) * 2 ^ k = n * 2 ^ 52"
proof -
  let ?k = "top_bit n"
  have b: "2 ^ ?k \<le> n" "n < 2 ^ Suc ?k" using top_bit_bounds[OF assms(1)] by auto
  have k: "?k \<le> 53"
  proof (rule ccontr)
    assume "\<not> ?k \<le> 53"
    then have "(2::nat) ^ 54 \<le> 2 ^ ?k" by (intro power_increasing) auto
    with b(1) assms(2) show False by simp
  qed
  show ?thesis
  proof (cases "?k \<le> 52")
    case True
    have e: "(2::nat) ^ 52 = 2 ^ ?k * 2 ^ (52 - ?k)" using True by (simp flip: power_add)
    have le: "2 ^ 52 \<le> n * 2 ^ (52 - ?k)" unfolding e using b(1) by (rule mult_le_mono1)
    have lt: "n * 2 ^ (52 - ?k) < 2 * 2 ^ 52"
      unfolding e using b(2) by simp
    define m where "m = n * 2 ^ (52 - ?k) - 2 ^ 52"
    have nm: "n * 2 ^ (52 - ?k) = 2 ^ 52 + m" using le by (simp add: m_def)
    have "float64_of_nat n = (?k + 1023) * 2 ^ 52 + m"
      using assms(1) True nm by (simp add: float64_of_nat_def algebra_simps)
    moreover have "(2 ^ 52 + m) * 2 ^ ?k = n * 2 ^ 52"
      unfolding nm[symmetric] using e by (simp only: mult.assoc mult.commute mult.left_commute)
    ultimately show ?thesis using that[of ?k m] lt nm k by simp
  next
    case False
    then have "?k = 53" using k by simp
    then have "n = 2 ^ 53" using b(1) assms(2) by simp
    then have "float64_of_nat n = (53 + 1023) * 2 ^ 52 + 0"
      using \<open>?k = 53\<close> by (simp add: float64_of_nat_def rnd_def)
    then show ?thesis using that[of 53 0] \<open>n = 2 ^ 53\<close> by simp
  qed
qed

text \<open>The integers of at most \<open>2^53\<close> in magnitude survive the conversion.\<close>

lemma float64_of_int64_exact:
  assumes "\<bar>sint v\<bar> \<le> 2 ^ 53"
  shows "int_of_float64 (float64_of_int64 v) = sint v"
proof (cases "sint v = 0")
  case True
  then show ?thesis
    by (simp add: float64_of_int64_def float64_of_nat_def int_of_float64_def float64_exp_def float64_man_def float64_neg_def)
next
  case False
  define n where "n = nat \<bar>sint v\<bar>"
  have n: "0 < n" "n \<le> 2 ^ 53" using False assms by (auto simp: n_def)
  obtain k m where f: "float64_of_nat n = (k + 1023) * 2 ^ 52 + m" "m < 2 ^ 52" "k \<le> 53"
      "(2 ^ 52 + m) * 2 ^ k = n * 2 ^ 52"
    using float64_of_nat_fields[OF n] .
  have lt: "float64_of_nat n < 2 ^ 63" using f(1-3) by simp
  define s :: nat where "s = (if sint v < 0 then 2 ^ 63 else 0)"
  have bits: "float64_of_int64 v = of_nat (s + float64_of_nat n)"
    by (simp add: float64_of_int64_def s_def n_def)
  have u: "unat (float64_of_int64 v) = s + float64_of_nat n"
    unfolding bits using lt by (simp add: unat_of_nat s_def del: of_nat_add)
  let ?q = "(if sint v < 0 then 2048 else 0) + (k + 1023)"
  have "s + float64_of_nat n = m + ?q * 2 ^ 52" by (simp add: s_def f(1))
  then have "unat (float64_of_int64 v) div 2 ^ 52 = ?q" "unat (float64_of_int64 v) mod 2 ^ 52 = m"
    unfolding u using f(2) by (simp_all only: div_mult_self1 mod_mult_self1 div_less mod_less power_not_zero) simp_all
  moreover have "?q mod 2 ^ 11 = k + 1023"
  proof -
    have "(2048 + (k + 1023)) mod 2048 = k + 1023" using f(3) by (simp only: mod_add_self1) simp
    then show ?thesis using f(3) by simp
  qed
  ultimately have "float64_exp (float64_of_int64 v) = k + 1023" "float64_man (float64_of_int64 v) = m"
    by (simp_all only: float64_exp_def float64_man_def)
  moreover have "float64_neg (float64_of_int64 v) = (sint v < 0)"
  proof -
    have "bit (float64_of_int64 v) 63 = bit (unat (float64_of_int64 v)) 63" by (simp add: bit_unsigned_iff)
    also have "\<dots> = (sint v < 0)" 
      unfolding u bit_iff_odd using lt div_add_self1[of "2 ^ 63" "float64_of_nat n"] by (simp add: s_def)
    finally show ?thesis by (simp add: float64_neg_def)
  qed
  moreover have "(if 1075 \<le> k + 1023 then (2 ^ 52 + m) * 2 ^ (k + 1023 - 1075) else (2 ^ 52 + m) div 2 ^ (1075 - (k + 1023))) = n"
  proof (cases "52 \<le> k")
    case True
    then have "(2::nat) ^ k = 2 ^ (k - 52) * 2 ^ 52" by (metis power_add le_add_diff_inverse2)
    with f(4) True show ?thesis by simp
  next
    case False
    then have "(2::nat) ^ 52 = 2 ^ (52 - k) * 2 ^ k" by (simp flip: power_add)
    with f(4) have "(2 ^ 52 + m) * 2 ^ k = (n * 2 ^ (52 - k)) * 2 ^ k" by (simp only: mult.assoc)
    then have "2 ^ 52 + m = n * 2 ^ (52 - k)" by (simp only: mult_cancel2) simp
    with False show ?thesis by simp
  qed
  ultimately show ?thesis by (simp add: int_of_float64_def n_def Let_def)
qed

end
