(* ===== verification/Any_Codec.thy ===== *)
theory Any_Codec
  imports Var_String Float_Bits "HOL-Library.List_Lexorder" "HOL-Library.Multiset"
begin

text \<open>
  The tagged values of lib0: \<open>WriteAny\<close> of \<^verbatim>\<open>src/encoding/encoder.go\<close>, \<open>readAny\<close> and \<open>Skip\<close> of
  \<^verbatim>\<open>src/internal/anycodec/decoder.go\<close>.  A Go \<^verbatim>\<open>any\<close> is a datatype with one constructor per dynamic type of
  the source's switch; \<open>AOther\<close> is every type that the switch does not name.  A Go map is the
  list of its entries (its iteration order), with distinct keys.
\<close>

datatype goany =
    ANil
  | ABool bool
  | AInt u64
  | AInt8 "8 word"
  | AInt16 "16 word"
  | AInt32 u32
  | AInt64 u64
  | AUint u64
  | AUint8 "8 word"
  | AUint16 "16 word"
  | AUint32 u32
  | AUint64 u64
  | AFloat32 u32
  | AFloat64 u64
  | ABigInt u64
  | AString gostring
  | ABytes "byte list"
  | AArray "goany list"
  | AMap "(gostring \<times> goany) list"
  | AOther

subsection \<open>Writing\<close>

definition isFloat32Lossless :: "u64 \<Rightarrow> bool" where
  "isFloat32Lossless v = float64_eq (float64_of_float32 (float32_of_float64 v)) v"

definition writeAnyInt :: "u64 \<Rightarrow> encoder \<Rightarrow> enc_error + encoder" where
  "writeAnyInt v e =
     (if sint v \<ge> - (2 ^ 31) \<and> sint v \<le> 2 ^ 31 - 1 then WriteVarIntE (WriteUint8 e 125) v
      else if sint v \<ge> - (2 ^ 53) \<and> sint v \<le> 2 ^ 53 then Inr (WriteFloat64 (WriteUint8 e 123) (float64_of_int64 v))
      else Inr (WriteBigInt64 (WriteUint8 e 122) v))"

definition writeAnyUint :: "u64 \<Rightarrow> encoder \<Rightarrow> enc_error + encoder" where
  "writeAnyUint v e =
     (if v \<le> 0x7FFFFFFFFFFFFFFF then writeAnyInt v e
      else Inr (WriteFloat64 (WriteUint8 e 123) (float64_of_uint64 v)))"

fun write_seq :: "('a \<Rightarrow> encoder \<Rightarrow> enc_error + encoder) \<Rightarrow> 'a list \<Rightarrow> encoder \<Rightarrow> enc_error + encoder" where
  "write_seq w [] e = Inr e"
| "write_seq w (x # xs) e = ebind (w x e) (write_seq w xs)"

lemma write_seq_cong [fundef_cong]:
  "xs = ys \<Longrightarrow> e = e' \<Longrightarrow> (\<And>x e. x \<in> set ys \<Longrightarrow> w x e = w' x e) \<Longrightarrow> write_seq w xs e = write_seq w' ys e'"
  by (induction ys arbitrary: xs e e') (auto simp: ebind_def split: sum.split)

lemma map_entry_size: "(k, v) \<in> set kvs \<Longrightarrow> size v < Suc (size_list (size_prod size size) (kvs :: (gostring \<times> goany) list))"
  by (induction kvs) auto

function WriteAny :: "goany \<Rightarrow> encoder \<Rightarrow> enc_error + encoder" where
  "WriteAny ANil e = Inr (WriteUint8 e 126)"
| "WriteAny (ABool b) e = Inr (WriteUint8 e (if b then 120 else 121))"
| "WriteAny (AInt v) e = writeAnyInt v e"
| "WriteAny (AInt8 v) e = writeAnyInt (scast v) e"
| "WriteAny (AInt16 v) e = writeAnyInt (scast v) e"
| "WriteAny (AInt32 v) e = writeAnyInt (scast v) e"
| "WriteAny (AInt64 v) e = writeAnyInt v e"
| "WriteAny (AUint v) e = writeAnyUint v e"
| "WriteAny (AUint8 v) e = writeAnyInt (ucast v) e"
| "WriteAny (AUint16 v) e = writeAnyInt (ucast v) e"
| "WriteAny (AUint32 v) e = writeAnyInt (ucast v) e"
| "WriteAny (AUint64 v) e = writeAnyUint v e"
| "WriteAny (AFloat32 f) e = Inr (WriteFloat32 (WriteUint8 e 124) f)"
| "WriteAny (AFloat64 v) e =
     (if isFloat32Lossless v then Inr (WriteFloat32 (WriteUint8 e 124) (float32_of_float64 v))
      else Inr (WriteFloat64 (WriteUint8 e 123) v))"
| "WriteAny (ABigInt v) e = Inr (WriteBigInt64 (WriteUint8 e 122) v)"
| "WriteAny (AString s) e = WriteVarString (WriteUint8 e 119) s"
| "WriteAny (ABytes b) e = Inr (WriteVarBytes (WriteUint8 e 116) b)"
| "WriteAny (AArray xs) e = write_seq WriteAny xs (WriteVarUint (WriteUint8 e 117) (of_nat (length xs)))"
| "WriteAny (AMap kvs) e =
     write_seq (\<lambda>kv e. ebind (WriteVarString e (fst kv)) (WriteAny (snd kv))) (sort_key fst kvs)
       (WriteVarUint (WriteUint8 e 118) (of_nat (length kvs)))"
| "WriteAny AOther e = Inl UnsupportedType"
  by pat_completeness auto
termination
  by (relation "measure (\<lambda>(v, e). size v)") (auto simp: map_entry_size less_Suc_eq_le size_list_estimation')

subsection \<open>Reading\<close>

abbreviation maxAnyDepth :: nat where "maxAnyDepth \<equiv> 100"
abbreviation maxAnyElements :: u64 where "maxAnyElements \<equiv> 100000"

text \<open>The guard of both containers: more elements than bytes left cannot be there.\<close>

definition check_count :: "u64 \<Rightarrow> 'a reader \<Rightarrow> 'a reader" where
  "check_count n m d =
     (if n > maxAnyElements then (Inl ErrDepthExceeded, d)
      else if unat n > Remaining d then (Inl ErrUnexpectedEOF, d)
      else m d)"

function readAny :: "(u64 \<Rightarrow> goany) \<Rightarrow> nat \<Rightarrow> bool \<Rightarrow> goany reader" where
  "readAny bigInt depth skip =
     (if depth > maxAnyDepth then rfail ErrDepthExceeded
      else rbind ReadUint8 (\<lambda>tag.
        if tag = 127 \<or> tag = 126 then rreturn ANil
        else if tag = 120 then rreturn (ABool True)
        else if tag = 121 then rreturn (ABool False)
        else if tag = 125 then rbind ReadVarInt (\<lambda>v. rreturn (if skip then ANil else AInt64 v))
        else if tag = 124 then rbind ReadFloat32 (\<lambda>v. rreturn (if skip then ANil else AFloat32 v))
        else if tag = 123 then rbind ReadFloat64 (\<lambda>v. rreturn (if skip then ANil else AFloat64 v))
        else if tag = 122 then rbind ReadBigInt64 (\<lambda>v. rreturn (if skip then ANil else bigInt v))
        else if tag = 119 then
          (if skip then rbind ReadVarBytes (\<lambda>b. if \<not> valid_utf8 b then rfail ErrInvalidUTF8 else rreturn ANil)
           else rbind ReadVarString (\<lambda>s. rreturn (AString s)))
        else if tag = 116 then rbind ReadVarBytes (\<lambda>b. rreturn (if skip then ANil else ABytes b))
        else if tag = 117 then rbind ReadVarUint (\<lambda>n. check_count n
          (rbind (read_n (readAny bigInt (depth + 1) skip) (unat n)) (\<lambda>vs.
           rreturn (if skip then ANil else AArray vs))))
        else if tag = 118 then rbind ReadVarUint (\<lambda>n. check_count n
          (rbind (read_n (rbind
               (if skip then rbind ReadVarBytes (\<lambda>b. if \<not> valid_utf8 b then rfail ErrInvalidUTF8 else rreturn [])
                else ReadVarString) (\<lambda>k.
               rbind (readAny bigInt (depth + 1) skip) (\<lambda>v. rreturn (k, v)))) (unat n)) (\<lambda>kvs.
           rreturn (if skip then ANil else AMap (foldl (\<lambda>m kv. map_put (fst kv) (snd kv) m) [] kvs)))))
        else rfail ErrUnknownTag))"
  by pat_completeness auto
termination
  by (relation "measure (\<lambda>(bigInt, depth, skip). 101 - depth)") auto

declare readAny.simps [simp del]

definition ReadAny :: "(u64 \<Rightarrow> goany) \<Rightarrow> goany reader" where
  "ReadAny bigInt = readAny bigInt 0 False"

definition Skip :: "byte list \<Rightarrow> nat \<times> dec_error option" where
  "Skip data =
     (let (r, d) = readAny (\<lambda>_. ANil) 0 True (NewDecoder data)
      in (length data - Remaining d, case r of Inl err \<Rightarrow> Some err | Inr _ \<Rightarrow> None))"

subsection \<open>The cursor stays inside the buffer\<close>

lemma rsafe_check_count [rsafe_intros]: "rsafe m \<Longrightarrow> rsafe (check_count n m)"
  by (auto simp: rsafe_def check_count_def advances_refl)

lemma rsafe_readAny [rsafe_intros]: "rsafe (readAny bigInt depth skip)"
proof (induction bigInt depth skip rule: readAny.induct)
  case (1 bigInt depth skip)
  then have "depth \<le> maxAnyDepth \<Longrightarrow> rsafe (readAny bigInt (depth + 1) skip)" by simp
  then show ?case
    by (cases "depth \<le> maxAnyDepth"; subst readAny.simps) (auto intro!: rsafe_intros)
qed

subsection \<open>Skipping consumes what reading consumes\<close>

text \<open>Two readers agree when they fail alike and leave the same cursor, whatever they return.\<close>

fun outcome :: "(dec_error + 'a) \<times> decoder \<Rightarrow> (dec_error + unit) \<times> decoder" where
  "outcome (Inl err, d) = (Inl err, d)"
| "outcome (Inr x, d) = (Inr (), d)"

definition agree :: "'a reader \<Rightarrow> 'b reader \<Rightarrow> bool" where
  "agree m m' \<longleftrightarrow> (\<forall>d. outcome (m d) = outcome (m' d))"

lemma outcome_cases:
  assumes "outcome p = outcome q"
  obtains err d where "p = (Inl err, d)" "q = (Inl err, d)" | x y d where "p = (Inr x, d)" "q = (Inr y, d)"
  using assms by (cases p rule: outcome.cases; cases q rule: outcome.cases) auto

lemma agree_rreturn: "agree (rreturn x) (rreturn y)"
  by (simp add: agree_def rreturn_def)

lemma agree_rfail: "agree (rfail e) (rfail e)"
  by (simp add: agree_def rfail_def)

lemma agree_rbind:
  assumes "agree m m'" and "\<And>x y. agree (f x) (f' y)"
  shows "agree (rbind m f) (rbind m' f')"
  unfolding agree_def
proof
  fix d
  from assms(1) have "outcome (m d) = outcome (m' d)" by (simp add: agree_def)
  then show "outcome (rbind m f d) = outcome (rbind m' f' d)"
    using assms(2) by (cases rule: outcome_cases) (auto simp: rbind_def agree_def)
qed

lemma agree_rbind_same: "(\<And>x. agree (f x) (f' x)) \<Longrightarrow> agree (rbind m f) (rbind m f')"
  unfolding agree_def rbind_def by (auto split: sum.split prod.split)

lemma agree_if: "agree m m' \<Longrightarrow> agree n n' \<Longrightarrow> agree (if b then m else n) (if b then m' else n')"
  by simp

lemma agree_read_n: "agree m m' \<Longrightarrow> agree (read_n m n) (read_n m' n)"
  by (induction n) (auto intro!: agree_rbind agree_rreturn)

lemma agree_check_count: "agree m m' \<Longrightarrow> agree (check_count n m) (check_count n m')"
  by (auto simp: agree_def check_count_def)

lemmas agree_intros = agree_rreturn agree_rfail agree_if agree_check_count agree_read_n

lemma agree_utf8:
  "agree (rbind ReadVarBytes (\<lambda>b. if \<not> valid_utf8 b then rfail ErrInvalidUTF8 else rreturn x)) ReadVarString"
  unfolding ReadVarString_def by (intro agree_rbind_same agree_intros)

lemma rbind_assoc: "rbind (rbind m f) g = rbind m (\<lambda>x. rbind (f x) g)"
  by (auto simp: rbind_def fun_eq_iff split: sum.splits prod.splits)

lemma agree_utf8_return:
  "agree (rbind ReadVarBytes (\<lambda>b. if \<not> valid_utf8 b then rfail ErrInvalidUTF8 else rreturn x))
     (rbind ReadVarString (\<lambda>s. rreturn (f s)))"
  unfolding ReadVarString_def rbind_assoc
  by (intro agree_rbind_same) (auto simp: rbind_def rfail_def rreturn_def agree_def)

lemma readAny_skip_agree: "agree (readAny bigInt depth True) (readAny bigInt' depth False)"
proof (induction bigInt depth True rule: readAny.induct)
  case (1 bigInt depth)
  then have IH: "\<not> depth > maxAnyDepth \<Longrightarrow> agree (readAny bigInt (depth + 1) True) (readAny bigInt' (depth + 1) False)"
    by simp
  show ?case
  proof (cases "depth > maxAnyDepth")
    case True
    then show ?thesis by (simp add: readAny.simps agree_rfail)
  next
    case False
    have rec: "agree (readAny bigInt (depth + 1) True) (readAny bigInt' (depth + 1) False)" using IH False .
    show ?thesis
      unfolding readAny.simps[of bigInt depth True] readAny.simps[of bigInt' depth False]
        if_not_P[OF False] if_True if_False
      by (intro agree_rbind_same agree_if agree_rreturn agree_rfail agree_utf8_return agree_check_count
          agree_rbind[OF agree_read_n] agree_rbind[OF agree_utf8] agree_rbind[OF rec] rec)
  qed
qed

subsection \<open>Round trip\<close>

text \<open>A writer that only appends, and what it appends does not depend on what is there.\<close>

definition appends :: "(encoder \<Rightarrow> enc_error + encoder) \<Rightarrow> bool" where
  "appends w \<longleftrightarrow> (\<exists>err. \<forall>e. w e = Inl err) \<or> (\<exists>bs. \<forall>e. w e = Inr (e @ bs))"

lemma appendsE:
  assumes "appends w"
  obtains err where "\<And>e. w e = Inl err" | bs where "\<And>e. w e = Inr (e @ bs)"
  using assms by (auto simp: appends_def)

lemma appends_Inl: "(\<And>e. w e = Inl err) \<Longrightarrow> appends w"
  by (auto simp: appends_def)

lemma appends_Inr: "(\<And>e. w e = Inr (e @ bs)) \<Longrightarrow> appends w"
  by (auto simp: appends_def)

lemma appendsD: "appends w \<Longrightarrow> w e0 = Inr e1 \<Longrightarrow> \<exists>bs. \<forall>e. w e = Inr (e @ bs)"
  by (auto elim!: appendsE)

lemma appends_prefix: "appends w \<Longrightarrow> appends (\<lambda>e. w (e @ bs))"
  by (erule appendsE) (auto intro: appends_Inl appends_Inr)

lemma appends_ebind: "appends v \<Longrightarrow> appends w \<Longrightarrow> appends (\<lambda>e. ebind (v e) w)"
  by (elim appendsE) (auto intro: appends_Inl appends_Inr)

lemma appends_write_seq: "(\<And>x. x \<in> set xs \<Longrightarrow> appends (w x)) \<Longrightarrow> appends (write_seq w xs)"
proof (induction xs)
  case Nil
  show ?case by (rule appends_Inr[of _ "[]"]) simp
next
  case (Cons x xs)
  have "appends (\<lambda>e. ebind (w x e) (write_seq w xs))" using Cons by (intro appends_ebind) simp_all
  then show ?case by (simp add: appends_def)
qed

lemma write_seq_parts:
  assumes "\<And>x. x \<in> set xs \<Longrightarrow> appends (w x)" and "write_seq w xs [] = Inr bs"
  shows "\<exists>bss. list_all2 (\<lambda>b x. w x [] = Inr b) bss xs \<and> bs = concat bss"
  using assms
proof (induction xs arbitrary: bs)
  case (Cons x xs)
  then obtain b where b: "w x [] = Inr b" "write_seq w xs b = Inr bs" by (auto simp: ebind_Inr_iff)
  have "appends (write_seq w xs)" using Cons.prems by (intro appends_write_seq) simp
  then obtain bs' where bs': "\<And>e. write_seq w xs e = Inr (e @ bs')" using b(2) by (auto elim!: appendsE)
  then obtain bss where "list_all2 (\<lambda>b x. w x [] = Inr b) bss xs" "bs' = concat bss"
    using Cons.IH[of bs'] Cons.prems(1) by auto
  then show ?case using b bs' by (intro exI[of _ "b # bss"]) simp
qed simp

lemma appends_WriteVarIntE: "appends (\<lambda>e. WriteVarIntE e v)"
  by (simp add: appends_def WriteVarIntE_eq Let_def)

lemma appends_WriteVarString: "appends (\<lambda>e. WriteVarString e s)"
proof (cases "valid_utf8 s")
  case True
  then have "WriteVarString e s = Inr (e @ WriteVarBytes [] s)" for e
    using varbytes.wr_append[of e s] WriteVarString_bytes[of s e] by metis
  then show ?thesis by (rule appends_Inr)
qed (simp add: appends_def WriteVarString_def WriteVarStringE_def)

lemma appends_writeAnyInt: "appends (writeAnyInt v)"
proof -
  have "appends (\<lambda>e. WriteVarIntE (WriteUint8 e 125) v)"
    using appends_prefix[OF appends_WriteVarIntE[of v], of "[125]"] by (simp add: WriteUint8_def)
  then show ?thesis
    by (auto simp: writeAnyInt_def appends_def WriteUint8_def WriteFloat64_def WriteBigInt64_def)
qed

lemma appends_writeAnyUint: "appends (writeAnyUint v)"
  using appends_writeAnyInt[of v] by (auto simp: writeAnyUint_def appends_def WriteUint8_def WriteFloat64_def)

lemma WriteVarUint_tag: "WriteVarUint (WriteUint8 e tag) n = e @ tag # WriteVarUint [] n"
  using WriteVarUint_append[of "e @ [tag]" n] by (simp add: WriteUint8_def)

lemma appends_counted: "appends w \<Longrightarrow> appends (\<lambda>e. w (WriteVarUint (WriteUint8 e tag) n))"
  unfolding WriteVarUint_tag by (rule appends_prefix)

lemma appends_WriteAny: "appends (WriteAny v)"
proof (induction v)
  case (AArray xs)
  have "appends (\<lambda>e. write_seq WriteAny xs (WriteVarUint (WriteUint8 e 117) (of_nat (length xs))))"
    using AArray by (intro appends_counted appends_write_seq)
  then show ?case by (simp add: appends_def)
next
  case (AMap kvs)
  have "appends (\<lambda>e. write_seq (\<lambda>kv e. ebind (WriteVarString e (fst kv)) (WriteAny (snd kv))) (sort_key fst kvs)
      (WriteVarUint (WriteUint8 e 118) (of_nat (length kvs))))"
    using AMap by (intro appends_counted appends_write_seq appends_ebind appends_WriteVarString)
      (auto simp: snds.simps)
  then show ?case by (simp add: appends_def)
next
  case (AString s)
  have "appends (\<lambda>e. WriteVarString (WriteUint8 e 119) s)"
    using appends_prefix[OF appends_WriteVarString[of s], of "[119]"] by (simp add: WriteUint8_def)
  then show ?case by (simp add: appends_def)
next
  case (ABytes b)
  have "WriteVarBytes (WriteUint8 e 116) b = e @ 116 # WriteVarBytes [] b" for e
    using varbytes.wr_append[of "e @ [116]" b] by (simp add: WriteUint8_def)
  then show ?case by (simp add: appends_def)
next
  case (AFloat64 x)
  show ?case
    by (cases "isFloat32Lossless x") (simp_all add: appends_def WriteUint8_def WriteFloat32_def WriteFloat64_def)
qed (insert appends_writeAnyInt appends_writeAnyUint,
    auto simp: appends_def WriteUint8_def WriteFloat32_def WriteFloat64_def WriteBigInt64_def)

text \<open>What a value comes back as: integers by magnitude, a lossless float as \<^verbatim>\<open>float32\<close>, a map in key order.\<close>

definition norm_int :: "u64 \<Rightarrow> goany" where
  "norm_int v =
     (if - (2 ^ 31) \<le> sint v \<and> sint v \<le> 2 ^ 31 - 1 then AInt64 v
      else if - (2 ^ 53) \<le> sint v \<and> sint v \<le> 2 ^ 53 then AFloat64 (float64_of_int64 v)
      else ABigInt v)"

definition norm_uint :: "u64 \<Rightarrow> goany" where
  "norm_uint v = (if v \<le> 0x7FFFFFFFFFFFFFFF then norm_int v else AFloat64 (float64_of_uint64 v))"

fun norm_any :: "goany \<Rightarrow> goany" where
  "norm_any (AInt v) = norm_int v"
| "norm_any (AInt8 v) = norm_int (scast v)"
| "norm_any (AInt16 v) = norm_int (scast v)"
| "norm_any (AInt32 v) = norm_int (scast v)"
| "norm_any (AInt64 v) = norm_int v"
| "norm_any (AUint v) = norm_uint v"
| "norm_any (AUint8 v) = norm_int (ucast v)"
| "norm_any (AUint16 v) = norm_int (ucast v)"
| "norm_any (AUint32 v) = norm_int (ucast v)"
| "norm_any (AUint64 v) = norm_uint v"
| "norm_any (AFloat64 v) = (if isFloat32Lossless v then AFloat32 (float32_of_float64 v) else AFloat64 v)"
| "norm_any (AArray xs) = AArray (map norm_any xs)"
| "norm_any (AMap kvs) = AMap (sort_key fst (map (\<lambda>kv. (fst kv, norm_any (snd kv))) kvs))"
| "norm_any v = v"

text \<open>The limits of the reader: nesting, element counts, lengths; and the keys of a map differ.\<close>

fun fits_any :: "nat \<Rightarrow> goany \<Rightarrow> bool" where
  "fits_any depth (AString s) = (depth \<le> maxAnyDepth \<and> length s < 2 ^ 56)"
| "fits_any depth (ABytes b) = (depth \<le> maxAnyDepth \<and> length b < 2 ^ 56)"
| "fits_any depth (AArray xs) = (depth \<le> maxAnyDepth \<and> length xs \<le> 100000 \<and> (\<forall>x \<in> set xs. fits_any (depth + 1) x))"
| "fits_any depth (AMap kvs) = (depth \<le> maxAnyDepth \<and> length kvs \<le> 100000 \<and> distinct (map fst kvs) \<and>
     (\<forall>kv \<in> set kvs. length (fst kv) < 2 ^ 56 \<and> fits_any (depth + 1) (snd kv)))"
| "fits_any depth v = (depth \<le> maxAnyDepth)"

lemma fits_any_depth: "fits_any depth v \<Longrightarrow> depth \<le> maxAnyDepth"
  by (cases v) simp_all

lemma reads_tag: "reads (f t) bs x \<Longrightarrow> reads (rbind ReadUint8 f) (t # bs) x"
  using reads_rbind[OF reads_readByte, of f t bs x] by (simp add: ReadUint8_def[abs_def])

lemma reads_return: "reads m bs v \<Longrightarrow> reads (rbind m (\<lambda>v. rreturn (f v))) bs (f v)"
  using reads_rbind[OF _ reads_rreturn] by fastforce

lemma reads_check_count:
  assumes "reads m bs v" and "n \<le> length bs" and "n \<le> 100000"
  shows "reads (check_count (of_nat n) m) bs v"
proof -
  have u: "unat (of_nat n :: u64) = n" using assms(3) by (simp add: unat_of_nat)
  have "\<not> of_nat n > maxAnyElements" unfolding word_less_nat_alt u using assms(3) by simp
  then show ?thesis using assms u by (auto simp: reads_def check_count_def Remaining_def)
qed

lemma reads_readAny:
  assumes "depth \<le> maxAnyDepth"
  shows "reads (readAny bigInt depth False) [126] ANil"
    and "reads (readAny bigInt depth False) [120] (ABool True)"
    and "reads (readAny bigInt depth False) [121] (ABool False)"
    and "reads ReadVarInt bs i \<Longrightarrow> reads (readAny bigInt depth False) (125 # bs) (AInt64 i)"
    and "reads ReadFloat32 bs f \<Longrightarrow> reads (readAny bigInt depth False) (124 # bs) (AFloat32 f)"
    and "reads ReadFloat64 bs g \<Longrightarrow> reads (readAny bigInt depth False) (123 # bs) (AFloat64 g)"
    and "reads ReadBigInt64 bs i \<Longrightarrow> reads (readAny bigInt depth False) (122 # bs) (bigInt i)"
    and "reads ReadVarString bs s \<Longrightarrow> reads (readAny bigInt depth False) (119 # bs) (AString s)"
    and "reads ReadVarBytes bs b \<Longrightarrow> reads (readAny bigInt depth False) (116 # bs) (ABytes b)"
  by (subst readAny.simps, subst if_not_P, use assms in simp, rule reads_tag,
      simp add: reads_rreturn reads_return)+

lemma length_concat_ge: "\<forall>b \<in> set bss. b \<noteq> [] \<Longrightarrow> length bss \<le> length (concat bss)"
proof (induction bss)
  case (Cons b bss)
  then show ?case by (cases b) auto
qed simp

lemma reads_counted:
  assumes "list_all2 (reads m) bss vs" and "length vs \<le> 100000" and "\<forall>b \<in> set bss. b \<noteq> []"
  shows "reads (rbind ReadVarUint (\<lambda>n. check_count n (rbind (read_n m (unat n)) (\<lambda>vs. rreturn (f vs)))))
     (WriteVarUint [] (of_nat (length vs)) @ concat bss) (f vs)"
proof (rule reads_rbind)
  have u: "unat (of_nat (length vs) :: u64) = length vs" using assms(2) by (simp add: unat_of_nat)
  then show "reads ReadVarUint (WriteVarUint [] (of_nat (length vs))) (of_nat (length vs))"
    using assms(2) by (intro reads_ReadVarUint) simp
  show "reads (check_count (of_nat (length vs)) (rbind (read_n m (unat (of_nat (length vs) :: u64))) (\<lambda>vs. rreturn (f vs))))
      (concat bss) (f vs)"
    unfolding u using assms length_concat_ge[OF assms(3)] list_all2_lengthD[OF assms(1)]
    by (intro reads_check_count reads_return reads_read_n) auto
qed

lemma reads_readAny_array:
  assumes "depth \<le> maxAnyDepth" and "list_all2 (reads (readAny bigInt (depth + 1) False)) bss vs"
    and "length vs \<le> 100000" and "\<forall>b \<in> set bss. b \<noteq> []"
  shows "reads (readAny bigInt depth False) (117 # WriteVarUint [] (of_nat (length vs)) @ concat bss) (AArray vs)"
proof -
  have "\<not> depth > maxAnyDepth" using assms(1) by simp
  then show ?thesis
    by (subst readAny.simps, subst if_not_P, assumption, intro reads_tag) (simp, use assms(2-) in \<open>intro reads_counted, simp_all\<close>)
qed

lemma reads_readAny_map:
  assumes "depth \<le> maxAnyDepth"
    and "list_all2 (reads (rbind ReadVarString (\<lambda>k. rbind (readAny bigInt (depth + 1) False) (\<lambda>v. rreturn (k, v))))) bss kvs"
    and "length kvs \<le> 100000" and "\<forall>b \<in> set bss. b \<noteq> []" and "distinct (map fst kvs)"
  shows "reads (readAny bigInt depth False) (118 # WriteVarUint [] (of_nat (length kvs)) @ concat bss) (AMap kvs)"
proof -
  have nd: "\<not> depth > maxAnyDepth" using assms(1) by simp
  have "reads (rbind ReadVarUint (\<lambda>n. check_count n (rbind (read_n (rbind ReadVarString (\<lambda>k.
        rbind (readAny bigInt (depth + 1) False) (\<lambda>v. rreturn (k, v)))) (unat n)) (\<lambda>kvs.
        rreturn (AMap (foldl (\<lambda>m kv. map_put (fst kv) (snd kv) m) [] kvs))))))
      (WriteVarUint [] (of_nat (length kvs)) @ concat bss) (AMap kvs)"
    using reads_counted[OF assms(2-4), of "\<lambda>kvs. AMap (foldl (\<lambda>m kv. map_put (fst kv) (snd kv) m) [] kvs)"]
      map_put_fold[of "[]" kvs] assms(5) by simp
  then show ?thesis
    unfolding readAny.simps[of bigInt depth] if_not_P[OF nd] by (intro reads_tag) simp
qed

lemma reads_writeAnyInt:
  assumes "writeAnyInt v [] = Inr bs" and d: "depth \<le> maxAnyDepth"
  shows "reads (readAny ABigInt depth False) bs (norm_int v) \<and> bs \<noteq> []"
proof -
  consider (int) "- (2 ^ 31) \<le> sint v" "sint v \<le> 2 ^ 31 - 1"
    | (float) "\<not> (- (2 ^ 31) \<le> sint v \<and> sint v \<le> 2 ^ 31 - 1)" "- (2 ^ 53) \<le> sint v" "sint v \<le> 2 ^ 53"
    | (big) "\<not> (- (2 ^ 31) \<le> sint v \<and> sint v \<le> 2 ^ 31 - 1)" "\<not> (- (2 ^ 53) \<le> sint v \<and> sint v \<le> 2 ^ 53)"
    by blast
  then show ?thesis
  proof cases
    case int
    then obtain b where b: "WriteVarIntE [] v = Inr b" "bs = 125 # b"
      using assms(1) by (auto simp: writeAnyInt_def WriteUint8_def WriteVarIntE_eq Let_def split: if_splits)
    then show ?thesis
      using reads_readAny(4)[OF d reads_ReadVarInt[OF b(1)]] int by (simp add: norm_int_def)
  next
    case float
    then have "bs = 123 # be_bytes64 (float64_of_int64 v)" "norm_int v = AFloat64 (float64_of_int64 v)"
      using assms(1) by (auto simp: writeAnyInt_def WriteUint8_def WriteFloat64_def norm_int_def)
    then show ?thesis using reads_readAny(6)[OF d reads_ReadFloat64] by simp
  next
    case big
    then have "bs = 122 # be_bytes64 v" "norm_int v = ABigInt v"
      using assms(1) by (auto simp: writeAnyInt_def WriteUint8_def WriteBigInt64_def norm_int_def)
    then show ?thesis using reads_readAny(7)[OF d reads_ReadBigInt64] by simp
  qed
qed

lemma reads_writeAnyUint:
  assumes "writeAnyUint v [] = Inr bs" and d: "depth \<le> maxAnyDepth"
  shows "reads (readAny ABigInt depth False) bs (norm_uint v) \<and> bs \<noteq> []"
proof (cases "v \<le> 0x7FFFFFFFFFFFFFFF")
  case True
  then show ?thesis using assms reads_writeAnyInt[of v bs] by (simp add: writeAnyUint_def norm_uint_def)
next
  case False
  then have "bs = 123 # be_bytes64 (float64_of_uint64 v)"
    using assms(1) by (auto simp: writeAnyUint_def WriteUint8_def WriteFloat64_def)
  then show ?thesis using False reads_readAny(6)[OF d reads_ReadFloat64] by (simp add: norm_uint_def)
qed

lemma reads_entry:
  assumes "reads ReadVarString kb k" and "reads m vb v"
  shows "reads (rbind ReadVarString (\<lambda>k. rbind m (\<lambda>v. rreturn (k, v)))) (kb @ vb) (k, v)"
  by (rule reads_rbind[OF assms(1)], rule reads_return[OF assms(2), of "Pair k"])

lemma sort_key_map_values:
  "sort_key fst (map (\<lambda>kv. (fst kv, f (snd kv))) kvs) = map (\<lambda>kv. (fst kv, f (snd kv))) (sort_key fst kvs)"
proof -
  have ins: "insort_key fst (fst kv, f (snd kv)) (map (\<lambda>kv. (fst kv, f (snd kv))) l) =
      map (\<lambda>kv. (fst kv, f (snd kv))) (insort_key fst kv l)" for kv l
    by (induction l) auto
  show ?thesis by (induction kvs) (simp_all add: ins)
qed

lemma WriteAny_entry:
  assumes "ebind (WriteVarString [] k) (WriteAny v) = Inr b"
  obtains vb where "b = WriteVarBytes [] k @ vb" "WriteAny v [] = Inr vb" "valid_utf8 k"
proof -
  have k: "valid_utf8 k"
    using assms by (auto simp: WriteVarString_def WriteVarStringE_def split: if_splits)
  with assms have "WriteAny v (WriteVarBytes [] k) = Inr b" by (simp add: WriteVarString_bytes)
  with appends_WriteAny[of v] obtain vb where "\<And>e. WriteAny v e = Inr (e @ vb)" "b = WriteVarBytes [] k @ vb"
    by (auto elim!: appendsE)
  then show ?thesis using that k by simp
qed

lemma WriteAny_counted:
  assumes "write_seq w xs (WriteVarUint (WriteUint8 [] t) n) = Inr bs" and "\<And>x. x \<in> set xs \<Longrightarrow> appends (w x)"
  obtains bss where "bs = t # WriteVarUint [] n @ concat bss" "list_all2 (\<lambda>b x. w x [] = Inr b) bss xs"
proof -
  have "appends (write_seq w xs)" using assms(2) by (rule appends_write_seq)
  then obtain bs' where "\<And>e. write_seq w xs e = Inr (e @ bs')" "bs = t # WriteVarUint [] n @ bs'"
    using assms(1) by (auto simp: WriteVarUint_tag elim!: appendsE)
  with write_seq_parts[of xs w bs'] assms(2) that show ?thesis by auto
qed

lemma list_all2_reads:
  assumes "list_all2 (\<lambda>b x. w x [] = Inr b) bss xs"
    and "\<And>x b. x \<in> set xs \<Longrightarrow> w x [] = Inr b \<Longrightarrow> reads m b (f x) \<and> b \<noteq> []"
  shows "list_all2 (reads m) bss (map f xs)" "\<forall>b \<in> set bss. b \<noteq> []"
  using assms by (induction rule: list_all2_induct) auto

lemma WriteAny_reads:
  "fits_any depth v \<Longrightarrow> WriteAny v [] = Inr bs \<Longrightarrow> reads (readAny ABigInt depth False) bs (norm_any v) \<and> bs \<noteq> []"
proof (induction v arbitrary: depth bs)
  case (AArray xs)
  obtain bss where bss: "bs = 117 # WriteVarUint [] (of_nat (length xs)) @ concat bss"
      "list_all2 (\<lambda>b x. WriteAny x [] = Inr b) bss xs"
    using WriteAny_counted[OF AArray.prems(2)[simplified] appends_WriteAny] .
  have "reads (readAny ABigInt (depth + 1) False) b (norm_any x) \<and> b \<noteq> []" if "x \<in> set xs" "WriteAny x [] = Inr b" for x b
    using AArray.IH[OF that(1) _ that(2), of "depth + 1"] AArray.prems(1) that(1) by simp
  note parts = list_all2_reads[of WriteAny bss xs _ norm_any, OF bss(2) this]
  have "reads (readAny ABigInt depth False)
      (117 # WriteVarUint [] (of_nat (length (map norm_any xs))) @ concat bss) (AArray (map norm_any xs))"
    by (rule reads_readAny_array[OF _ parts(1) _ parts(2)]) (use AArray.prems(1) in simp_all)
  then show ?case unfolding bss(1) norm_any.simps length_map by blast
next
  case (AMap kvs)
  let ?w = "\<lambda>kv e. ebind (WriteVarString e (fst kv)) (WriteAny (snd kv))"
  let ?n = "\<lambda>kv. (fst kv, norm_any (snd kv))"
  let ?m = "rbind ReadVarString (\<lambda>k. rbind (readAny ABigInt (depth + 1) False) (\<lambda>v. rreturn (k, v)))"
  have ap: "appends (?w kv)" for kv
    by (intro appends_ebind appends_WriteVarString appends_WriteAny)
  have wr: "write_seq ?w (sort_key fst kvs) (WriteVarUint (WriteUint8 [] 118) (of_nat (length kvs))) = Inr bs"
    using AMap.prems(2) by simp
  obtain bss where bss: "bs = 118 # WriteVarUint [] (of_nat (length kvs)) @ concat bss"
      "list_all2 (\<lambda>b kv. ?w kv [] = Inr b) bss (sort_key fst kvs)"
    using WriteAny_counted[OF wr ap] .
  have "reads ?m b (?n kv) \<and> b \<noteq> []" if kv: "kv \<in> set (sort_key fst kvs)" and b: "?w kv [] = Inr b" for kv b
  proof -
    obtain vb where vb: "b = WriteVarBytes [] (fst kv) @ vb" "WriteAny (snd kv) [] = Inr vb" "valid_utf8 (fst kv)"
      using WriteAny_entry[OF b] .
    have v: "reads (readAny ABigInt (depth + 1) False) vb (norm_any (snd kv)) \<and> vb \<noteq> []"
      using AMap.IH[of kv "snd kv", OF _ _ _ vb(2)] AMap.prems(1) kv by (auto simp: snds.simps)
    have "reads ReadVarString (WriteVarBytes [] (fst kv)) (fst kv)"
      using AMap.prems(1) kv vb(3) by (intro reads_ReadVarString) auto
    from reads_entry[OF this conjunct1[OF v]] v show ?thesis unfolding vb(1) by blast
  qed
  note parts = list_all2_reads[of ?w bss _ ?m ?n, OF bss(2) this]
  have "distinct (map fst (map ?n (sort_key fst kvs)))"
    using AMap.prems(1) by (simp add: comp_def distinct_map)
  then have "reads (readAny ABigInt depth False)
      (118 # WriteVarUint [] (of_nat (length (map ?n (sort_key fst kvs)))) @ concat bss) (AMap (map ?n (sort_key fst kvs)))"
    by (rule reads_readAny_map[OF _ parts(1) _ parts(2), rotated -1]) (use AMap.prems(1) in simp_all)
  then show ?case unfolding bss(1) norm_any.simps sort_key_map_values length_map length_sort by blast
next
  case (AString s)
  then have "valid_utf8 s" "bs = 119 # WriteVarBytes [] s"
    using varbytes.wr_append[of "[119]" s]
    by (auto simp: WriteVarString_def WriteVarStringE_def WriteUint8_def WriteVarBytes_def split: if_splits)
  then show ?case using AString.prems(1) reads_readAny(8)[OF _ reads_ReadVarString] by simp
next
  case (ABytes b)
  then have "bs = 116 # WriteVarBytes [] b" using varbytes.wr_append[of "[116]" b] by (simp add: WriteUint8_def)
  then show ?case using ABytes.prems(1) reads_readAny(9)[OF _ reads_ReadVarBytes] by simp
next
  case (AFloat64 v)
  then show ?case
    using reads_readAny(5)[OF _ reads_ReadFloat32] reads_readAny(6)[OF _ reads_ReadFloat64]
    by (cases "isFloat32Lossless v") (auto simp: WriteUint8_def WriteFloat32_def WriteFloat64_def)
next
  case (AFloat32 f)
  then show ?case using reads_readAny(5)[OF _ reads_ReadFloat32] by (auto simp: WriteUint8_def WriteFloat32_def)
next
  case (ABigInt v)
  then show ?case using reads_readAny(7)[OF _ reads_ReadBigInt64] by (auto simp: WriteUint8_def WriteBigInt64_def)
next
  case (ABool b)
  then show ?case by (cases b) (auto simp: WriteUint8_def reads_readAny(2,3))
next
  case ANil
  then show ?case by (auto simp: WriteUint8_def reads_readAny(1))
qed (simp_all add: reads_writeAnyInt reads_writeAnyUint)

subsection \<open>Properties\<close>

text \<open>
  C30: A value within the limits that the writer accepts is read back with the cursor right after it, up
  to the documented normalisation (integers by magnitude, lossless floats narrowed, maps by key).
\<close>

theorem any_roundtrip:
  assumes "fits_any 0 v" and "WriteAny v [] = Inr bs"
  shows "ReadAny ABigInt (NewDecoder (bs @ rest)) = (Inr (norm_any v), \<lparr>buf = bs @ rest, pos = length bs\<rparr>)"
  using readsD[OF conjunct1[OF WriteAny_reads[OF assms]], of "[]" rest] by (simp add: ReadAny_def NewDecoder_def)

theorem any_roundtrip_witness:
  "ReadAny ABigInt (NewDecoder [117, 2, 125, 5, 119, 1, 0x61, 7]) =
     (Inr (AArray [AInt64 5, AString [0x61]]), \<lparr>buf = [117, 2, 125, 5, 119, 1, 0x61, 7], pos = 7\<rparr>)"
proof -
  have f: "fits_any 0 (AArray [AInt 5, AString [0x61]])" by simp
  have w: "WriteAny (AArray [AInt 5, AString [0x61]]) [] = Inr [117, 2, 125, 5, 119, 1, 0x61]"
    by (simp add: WriteUint8_def WriteVarUint.simps writeAnyInt_def WriteVarIntE_def WriteVarString_def
        WriteVarStringE_def valid_utf8.simps utf8_eval word_le_nat_alt)
  have n: "norm_int 5 = AInt64 5" by (simp add: norm_int_def)
  from any_roundtrip[OF f w, of "[7]"] n show ?thesis by simp
qed

text \<open>
  C31: Skipping a value consumes exactly the bytes that reading it consumes and reports the same error,
  on every input.
\<close>

theorem skip_equals_read:
  "Skip data = (case ReadAny bigInt (NewDecoder data) of
     (Inl err, d) \<Rightarrow> (pos d, Some err) | (Inr v, d) \<Rightarrow> (pos d, None))"
proof -
  let ?s = "readAny (\<lambda>_. ANil) 0 True (NewDecoder data)" and ?r = "readAny bigInt 0 False (NewDecoder data)"
  have "outcome ?s = outcome ?r" using readAny_skip_agree by (simp add: agree_def)
  moreover have "advances (NewDecoder data) (snd ?s)"
    by (rule rsafeD[OF rsafe_readAny]) (simp add: NewDecoder_def)
  then have "length data - Remaining (snd ?s) = pos (snd ?s)"
    by (simp add: advances_def Remaining_def NewDecoder_def)
  ultimately show ?thesis
    by (elim outcome_cases) (simp_all add: Skip_def ReadAny_def)
qed

text \<open>
  C32: The encoding of a map does not depend on the iteration order of its entries.
\<close>

theorem any_map_deterministic:
  assumes "mset kvs = mset kvs'" and "distinct (map fst kvs)"
  shows "WriteAny (AMap kvs) e = WriteAny (AMap kvs') e"
proof -
  have "inj_on fst (set kvs)" using assms(2) by (simp add: distinct_map)
  moreover have "mset kvs = mset (sort_key fst kvs')" using assms(1) by simp
  ultimately have "sort_key fst kvs = sort_key fst kvs'"
    by (intro sort_key_inj_key_eq) simp_all
  moreover have "length kvs = length kvs'" using assms(1) by (metis size_mset)
  ultimately show ?thesis by simp
qed

theorem any_map_deterministic_witness:
  "WriteAny (AMap [([0x62], ANil), ([0x61], ABool True)]) [] = WriteAny (AMap [([0x61], ABool True), ([0x62], ANil)]) []"
  by (rule any_map_deterministic) (simp_all add: add_mset_commute)

text \<open>
  C33: Whatever the bytes, reading a tagged value never moves the cursor outside the buffer, never goes
  back and never changes the buffer.
\<close>

theorem any_reader_safe:
  "advances (NewDecoder data) (snd (ReadAny bigInt (NewDecoder data)))"
  unfolding ReadAny_def by (rule rsafeD[OF rsafe_readAny]) (simp add: NewDecoder_def)

end
