(* ===== verification/Id_Range.thy ===== *)
theory Id_Range
  imports Ygo_Prelude "HOL-Library.Multiset"
begin

text \<open>
  Identifiers, state vectors and runs of clocks: \<^verbatim>\<open>src/crdt/id.go\<close> and the normalisation of range lists
  shared by \<^verbatim>\<open>src/crdt/idset.go\<close> and \<^verbatim>\<open>src/crdt/delete_set.go\<close>.  A clock is a 64-bit word; \<open>fits\<close> says that
  the end of a run does not wrap, and under it a run stands for an interval of natural numbers.
\<close>

type_synonym ClientID = u64

record ID =
  Client :: ClientID
  IdClock :: u64

definition ID_Equals :: "ID \<Rightarrow> ID \<Rightarrow> bool" where
  "ID_Equals a b \<longleftrightarrow> Client a = Client b \<and> IdClock a = IdClock b"

text \<open>A state vector is a Go map: a missing client reads as clock 0.\<close>

type_synonym StateVector = "(ClientID \<times> u64) list"

definition StateVector_Clock :: "StateVector \<Rightarrow> ClientID \<Rightarrow> u64" where
  "StateVector_Clock sv client = (case map_of sv client of None \<Rightarrow> 0 | Some c \<Rightarrow> c)"

definition StateVector_Has :: "StateVector \<Rightarrow> ID \<Rightarrow> bool" where
  "StateVector_Has sv i \<longleftrightarrow> StateVector_Clock sv (Client i) > IdClock i"

subsection \<open>Runs of clocks\<close>

record IDRange =
  Clock :: u64
  Len :: u64

abbreviation start :: "IDRange \<Rightarrow> nat" where
  "start r \<equiv> unat (Clock r)"

abbreviation stop :: "IDRange \<Rightarrow> nat" where
  "stop r \<equiv> unat (Clock r) + unat (Len r)"

definition fits :: "IDRange \<Rightarrow> bool" where
  "fits r \<longleftrightarrow> stop r < 2 ^ 64"

definition clocks :: "IDRange \<Rightarrow> nat set" where
  "clocks r = {start r..<stop r}"

abbreviation covered :: "IDRange list \<Rightarrow> nat set" where
  "covered rs \<equiv> (\<Union>r \<in> set rs. clocks r)"

lemma unat_add_fits: "unat a + unat b < 2 ^ 64 \<Longrightarrow> unat (a + b :: u64) = unat a + unat b"
  by (simp add: unat_plus_if')

lemma unat_end: "fits r \<Longrightarrow> unat (Clock r + Len r) = stop r"
  by (simp add: fits_def unat_add_fits)

lemma in_range_iff: "fits r \<Longrightarrow> Clock r \<le> c \<and> c < Clock r + Len r \<longleftrightarrow> unat c \<in> clocks r"
  by (auto simp: word_le_nat_alt word_less_nat_alt unat_end clocks_def)

lemma end_le_iff: "fits r \<Longrightarrow> Clock r + Len r \<ge> c \<longleftrightarrow> unat c \<le> stop r"
  by (simp add: word_le_nat_alt unat_end)

lemma end_less_iff: "fits r \<Longrightarrow> c > Clock r + Len r \<longleftrightarrow> stop r < unat c"
  by (simp add: word_less_nat_alt unat_end)

lemma Len_zero_iff: "Len r = 0 \<longleftrightarrow> stop r = start r"
  by (simp add: unat_eq_0)

text \<open>A run extended to the end of a run that starts inside it or right after it.\<close>

definition join_range :: "IDRange \<Rightarrow> IDRange \<Rightarrow> IDRange" where
  "join_range left right =
     (if Clock right + Len right > Clock left + Len left
      then \<lparr>Clock = Clock left, Len = Clock right + Len right - Clock left\<rparr> else left)"

lemma join_range_Clock [simp]: "Clock (join_range l r) = Clock l"
  by (simp add: join_range_def)

lemma join_range_stop:
  assumes "fits l" and "fits r"
  shows "stop (join_range l r) = max (stop l) (stop r)"
proof (cases "stop l < stop r")
  case True
  then have "Clock l \<le> Clock r + Len r" using assms by (simp add: word_le_nat_alt unat_end)
  then have "unat (Clock r + Len r - Clock l) = stop r - start l"
    using assms by (simp add: unat_sub unat_end)
  with True assms show ?thesis by (simp add: join_range_def end_less_iff unat_end)
qed (use assms in \<open>simp add: join_range_def end_less_iff unat_end\<close>)

lemma join_range_fits: "fits l \<Longrightarrow> fits r \<Longrightarrow> fits (join_range l r)"
  using join_range_stop[of l r] by (simp add: fits_def)

lemma join_range_clocks:
  "fits l \<Longrightarrow> fits r \<Longrightarrow> start l \<le> start r \<Longrightarrow> start r \<le> stop l \<Longrightarrow> clocks (join_range l r) = clocks l \<union> clocks r"
  using join_range_stop[of l r] by (auto simp: clocks_def)

subsection \<open>Sorting and merging\<close>

text \<open>
  The loop of \<open>getIDs\<close> after sorting: \<open>left\<close> is the element under the write cursor, the list is
  what the read cursor has not seen.  The write cursor never passes the read cursor, so merging
  in place and merging into a new list give the same elements.
\<close>

fun merge_ranges :: "IDRange \<Rightarrow> IDRange list \<Rightarrow> IDRange list" where
  "merge_ranges left [] = (if Len left = 0 then [] else [left])"
| "merge_ranges left (right # rest) =
     (if Clock left + Len left \<ge> Clock right
      then merge_ranges (join_range left right) rest
      else if Len left = 0 then merge_ranges right rest
      else left # merge_ranges right rest)"

definition normalize_ranges :: "IDRange list \<Rightarrow> IDRange list" where
  "normalize_ranges rs = (case sort_key Clock rs of [] \<Rightarrow> [] | r # rest \<Rightarrow> merge_ranges r rest)"

text \<open>Normal form: increasing, not touching, not empty, not wrapping.\<close>

definition normal :: "IDRange list \<Rightarrow> bool" where
  "normal rs \<longleftrightarrow> sorted_wrt (\<lambda>a b. stop a < start b) rs \<and> (\<forall>r \<in> set rs. fits r \<and> Len r \<noteq> 0)"

lemma normal_Nil [simp]: "normal []"
  by (simp add: normal_def)

lemma normal_Cons: "normal (r # rs) \<longleftrightarrow> fits r \<and> Len r \<noteq> 0 \<and> (\<forall>s \<in> set rs. stop r < start s) \<and> normal rs"
  by (auto simp: normal_def)

lemma normal_snoc: "normal (rs @ [r]) \<longleftrightarrow> normal rs \<and> fits r \<and> Len r \<noteq> 0 \<and> (\<forall>s \<in> set rs. stop s < start r)"
  by (auto simp: normal_def sorted_wrt_append)

lemma normal_fits: "normal rs \<Longrightarrow> r \<in> set rs \<Longrightarrow> fits r"
  by (auto simp: normal_def)

lemma merge_ranges_covered:
  "sorted (map Clock (left # rest)) \<Longrightarrow> \<forall>r \<in> set (left # rest). fits r \<Longrightarrow>
   covered (merge_ranges left rest) = covered (left # rest)"
proof (induction left rest rule: merge_ranges.induct)
  case (1 left)
  then show ?case by (auto simp: clocks_def Len_zero_iff)
next
  case (2 left right rest)
  have le: "start left \<le> start right" and f: "fits left" "fits right"
    using "2.prems" by (auto simp: word_le_nat_alt)
  consider (touch) "start right \<le> stop left" | (empty) "stop left < start right" "Len left = 0"
    | (apart) "stop left < start right" "Len left \<noteq> 0" by linarith
  then show ?case
  proof cases
    case touch
    then have "covered (merge_ranges (join_range left right) rest) = covered (join_range left right # rest)"
      using "2.IH"(1) "2.prems" f by (simp add: end_le_iff join_range_fits)
    then show ?thesis using touch f le by (simp add: end_le_iff join_range_clocks Un_assoc)
  next
    case empty
    have ne: "\<not> Clock right \<le> Clock left + Len left"
      using end_le_iff[OF f(1), of "Clock right"] empty(1) by simp
    have "merge_ranges left (right # rest) = merge_ranges right rest"
      unfolding merge_ranges.simps if_not_P[OF ne] using empty(2) by simp
    moreover have "clocks left = {}" using empty(2) by (simp add: clocks_def)
    ultimately show ?thesis using "2.IH"(2)[OF ne empty(2)] "2.prems" by simp
  next
    case apart
    then show ?thesis using "2.IH"(3) "2.prems" f by (simp add: end_le_iff)
  qed
qed

lemma merge_ranges_normal:
  "sorted (map Clock (left # rest)) \<Longrightarrow> \<forall>r \<in> set (left # rest). fits r \<Longrightarrow>
   normal (merge_ranges left rest) \<and> (\<forall>r \<in> set (merge_ranges left rest). start left \<le> start r)"
proof (induction left rest rule: merge_ranges.induct)
  case (1 left)
  then show ?case by (simp add: normal_Cons)
next
  case (2 left right rest)
  have le: "start left \<le> start right" and f: "fits left" "fits right"
    using "2.prems" by (auto simp: word_le_nat_alt)
  consider (touch) "start right \<le> stop left" | (empty) "stop left < start right" "Len left = 0"
    | (apart) "stop left < start right" "Len left \<noteq> 0" by linarith
  then show ?case
  proof cases
    case touch
    then show ?thesis using "2.IH"(1) "2.prems" f by (simp add: end_le_iff join_range_fits)
  next
    case empty
    have ne: "\<not> Clock right \<le> Clock left + Len left"
      using end_le_iff[OF f(1), of "Clock right"] empty(1) by simp
    have "merge_ranges left (right # rest) = merge_ranges right rest"
      unfolding merge_ranges.simps if_not_P[OF ne] using empty(2) by simp
    then show ?thesis using "2.IH"(2)[OF ne empty(2)] "2.prems" le by (auto intro: order_trans)
  next
    case apart
    then have "normal (merge_ranges right rest)" "\<forall>r \<in> set (merge_ranges right rest). start right \<le> start r"
      using "2.IH"(3) "2.prems" f by (simp_all add: end_le_iff)
    then show ?thesis using apart f le by (auto simp: end_le_iff normal_Cons intro: order.strict_trans2 order_trans)
  qed
qed

lemma normalize_ranges_covered: "\<forall>r \<in> set rs. fits r \<Longrightarrow> covered (normalize_ranges rs) = covered rs"
proof -
  assume f: "\<forall>r \<in> set rs. fits r"
  have s: "set (sort_key Clock rs) = set rs" "sorted (map Clock (sort_key Clock rs))" by simp_all
  show ?thesis
  proof (cases "sort_key Clock rs")
    case Nil
    then show ?thesis using s(1) by (simp add: normalize_ranges_def)
  next
    case (Cons r rest)
    then have "set (r # rest) = set rs" "sorted (map Clock (r # rest))" using s by simp_all
    then show ?thesis using merge_ranges_covered[of r rest] f Cons by (simp add: normalize_ranges_def)
  qed
qed

lemma normalize_ranges_normal: "\<forall>r \<in> set rs. fits r \<Longrightarrow> normal (normalize_ranges rs)"
proof -
  assume f: "\<forall>r \<in> set rs. fits r"
  have s: "set (sort_key Clock rs) = set rs" "sorted (map Clock (sort_key Clock rs))" by simp_all
  show ?thesis
  proof (cases "sort_key Clock rs")
    case (Cons r rest)
    then have "set (r # rest) = set rs" "sorted (map Clock (r # rest))" using s by simp_all
    then show ?thesis using merge_ranges_normal[of r rest] f Cons by (simp add: normalize_ranges_def)
  qed (simp add: normalize_ranges_def)
qed

text \<open>A normal list is determined by the clocks it covers, whatever order the sort left ties in.\<close>

lemma covered_Min:
  assumes "normal (r # rs)"
  shows "start r \<in> covered (r # rs)" and "\<forall>n \<in> covered (r # rs). start r \<le> n"
    and "stop r \<notin> covered (r # rs)" and "\<forall>n. start r \<le> n \<and> n < stop r \<longrightarrow> n \<in> covered (r # rs)"
    and "covered rs = covered (r # rs) - {..<stop r}"
proof -
  have l: "Len r \<noteq> 0" "start r < stop r" using assms by (auto simp: normal_Cons unat_gt_0)
  have later: "stop r < start s" if "s \<in> set rs" for s using assms that by (auto simp: normal_Cons)
  show "start r \<in> covered (r # rs)" using l by (auto simp: clocks_def)
  show "\<forall>n \<in> covered (r # rs). start r \<le> n"
    using later by (fastforce simp: clocks_def)
  show "stop r \<notin> covered (r # rs)" using later by (fastforce simp: clocks_def)
  show "\<forall>n. start r \<le> n \<and> n < stop r \<longrightarrow> n \<in> covered (r # rs)" by (auto simp: clocks_def)
  show "covered rs = covered (r # rs) - {..<stop r}" using later by (fastforce simp: clocks_def)
qed

lemma normal_unique: "normal xs \<Longrightarrow> normal ys \<Longrightarrow> covered xs = covered ys \<Longrightarrow> xs = ys"
proof (induction xs arbitrary: ys)
  case Nil
  then show ?case using covered_Min(1) by (cases ys) fastforce+
next
  case (Cons x xs)
  then obtain y ys' where ys: "ys = y # ys'" using covered_Min(1)[OF Cons.prems(1)] by (cases ys) auto
  note cx = covered_Min[OF Cons.prems(1)] and cy = covered_Min[OF Cons.prems(2)[unfolded ys]]
  have eq: "covered (x # xs) = covered (y # ys')" using Cons.prems(3) ys by simp
  have st: "start x = start y" using cx(1,2) cy(1,2) eq by (metis order_antisym)
  have "stop x = stop y"
    using cx(3,4) cy(3,4) st eq by (metis linorder_neqE_nat le_add1)
  then have "Clock x = Clock y" "Len x = Len y" using st by (simp_all add: word_unat_eq_iff)
  then have "x = y" by simp
  have "covered xs = covered ys'"
    by (subst cx(5), subst cy(5)) (simp only: eq \<open>stop x = stop y\<close>)
  then have "xs = ys'" using Cons.IH[of ys'] Cons.prems(1,2) ys by (simp only: normal_Cons)
  with \<open>x = y\<close> show ?case using ys by simp
qed

subsection \<open>The interface of a set of identifiers\<close>

abbreviation span :: "u64 \<Rightarrow> u64 \<Rightarrow> nat set" where
  "span clock n \<equiv> {unat clock..<unat clock + unat n}"

locale clock_set =
  fixes empty :: 's
    and add :: "'s \<Rightarrow> ClientID \<Rightarrow> u64 \<Rightarrow> u64 \<Rightarrow> 's"
    and has :: "'s \<Rightarrow> ClientID \<Rightarrow> u64 \<Rightarrow> bool"
    and union :: "'s \<Rightarrow> 's \<Rightarrow> 's"
    and abs :: "'s \<Rightarrow> ClientID \<Rightarrow> nat set"
    and inv :: "'s \<Rightarrow> bool"
  assumes empty: "inv empty" "abs empty = (\<lambda>c. {})"
    and add: "inv s \<Longrightarrow> unat k + unat n < 2 ^ 64 \<Longrightarrow> inv (add s c k n)"
      "inv s \<Longrightarrow> unat k + unat n < 2 ^ 64 \<Longrightarrow> abs (add s c k n) = (abs s)(c := abs s c \<union> span k n)"
    and has: "inv s \<Longrightarrow> has s c k \<longleftrightarrow> unat k \<in> abs s c"
    and union: "inv a \<Longrightarrow> inv b \<Longrightarrow> inv (union a b)"
      "inv a \<Longrightarrow> inv b \<Longrightarrow> abs (union a b) = (\<lambda>c. abs a c \<union> abs b c)"
begin

lemma has_empty: "\<not> has empty c k"
  by (simp add: has empty)

lemma has_add: "inv s \<Longrightarrow> unat k + unat n < 2 ^ 64 \<Longrightarrow>
    has (add s c k n) c' k' \<longleftrightarrow> has s c' k' \<or> (c' = c \<and> unat k \<le> unat k' \<and> unat k' < unat k + unat n)"
  by (auto simp: has add)

lemma has_union: "inv a \<Longrightarrow> inv b \<Longrightarrow> has (union a b) c k \<longleftrightarrow> has a c k \<or> has b c k"
  by (simp add: has union)

text \<open>Merging is commutative, associative and idempotent up to what the sets hold.\<close>

lemma union_semilattice:
  assumes "inv a" "inv b" "inv d"
  shows "has (union a b) c k \<longleftrightarrow> has (union b a) c k"
    and "has (union (union a b) d) c k \<longleftrightarrow> has (union a (union b d)) c k"
    and "has (union a a) c k \<longleftrightarrow> has a c k"
  using assms by (auto simp: has_union union)

text \<open>A loop that adds the runs of one client.\<close>

lemma add_all:
  "inv s \<Longrightarrow> \<forall>r \<in> set rs. fits r \<Longrightarrow>
   inv (foldl (\<lambda>s r. add s c (Clock r) (Len r)) s rs) \<and>
   abs (foldl (\<lambda>s r. add s c (Clock r) (Len r)) s rs) = (abs s)(c := abs s c \<union> covered rs)"
proof (induction rs arbitrary: s)
  case (Cons r rs)
  then have "unat (Clock r) + unat (Len r) < 2 ^ 64" by (simp add: fits_def)
  note add = add[OF Cons.prems(1) this, of c]
  show ?case using Cons.IH[OF add(1)] Cons.prems(2) add(2) by (auto simp: clocks_def fun_eq_iff)
qed simp

end

end
