(* ===== verification/Delete_Set.thy ===== *)
theory Delete_Set
  imports Id_Range
begin

text \<open>
  Delete sets: \<^verbatim>\<open>src/crdt/delete_set.go\<close>.  The set of a client is a list of runs, merged eagerly on insertion
  and sorted and compacted by \<open>Merge\<close>; \<open>order\<close>, when present, is the order in which clients were first added.
  The operations that apply a delete set to a document are with the struct store.
\<close>

type_synonym DeleteRange = IDRange

record DeleteSet =
  ds_clients :: "(ClientID \<times> DeleteRange list) list"
  order :: "ClientID list option"

definition newDeleteSet :: DeleteSet where
  "newDeleteSet = \<lparr>ds_clients = [], order = None\<rparr>"

definition newOrderedDeleteSet :: DeleteSet where
  "newOrderedDeleteSet = \<lparr>ds_clients = [], order = Some []\<rparr>"

text \<open>Reading a missing key of the map gives the empty slice.\<close>

definition ds_ranges :: "DeleteSet \<Rightarrow> ClientID \<Rightarrow> DeleteRange list" where
  "ds_ranges ds client = (case map_of (ds_clients ds) client of None \<Rightarrow> [] | Some rs \<Rightarrow> rs)"

definition seen :: "DeleteSet \<Rightarrow> ClientID \<Rightarrow> bool" where
  "seen ds client \<longleftrightarrow> map_of (ds_clients ds) client \<noteq> None"

definition set_ranges :: "ClientID \<Rightarrow> DeleteRange list \<Rightarrow> DeleteSet \<Rightarrow> DeleteSet" where
  "set_ranges client rs ds = ds\<lparr>ds_clients := map_put client rs (ds_clients ds)\<rparr>"

text \<open>The length is a Go \<open>int\<close>, converted to \<open>uint64\<close>.\<close>

definition DeleteSet_add :: "DeleteSet \<Rightarrow> ID \<Rightarrow> int \<Rightarrow> DeleteSet" where
  "DeleteSet_add ds i length' =
     (let ranges = ds_ranges ds (Client i);
          ds = (if \<not> seen ds (Client i) then ds\<lparr>order := map_option (\<lambda>os. os @ [Client i]) (order ds)\<rparr> else ds)
      in if ranges \<noteq> [] \<and> Clock (last ranges) + Len (last ranges) = IdClock i
         then set_ranges (Client i) (butlast ranges @ [(last ranges)\<lparr>Len := Len (last ranges) + word_of_int length'\<rparr>]) ds
         else set_ranges (Client i) (ranges @ [\<lparr>Clock = IdClock i, Len = word_of_int length'\<rparr>]) ds)"

definition IsDeleted :: "DeleteSet \<Rightarrow> ID \<Rightarrow> bool" where
  "IsDeleted ds i = list_ex (\<lambda>r. Clock r \<le> IdClock i \<and> IdClock i < Clock r + Len r) (ds_ranges ds (Client i))"

text \<open>The loop of \<open>sortAndCompact\<close> after sorting; the first argument is the last compacted run.\<close>

fun compact_loop :: "DeleteRange \<Rightarrow> DeleteRange list \<Rightarrow> DeleteRange list" where
  "compact_loop last' [] = [last']"
| "compact_loop last' (r # rs) =
     (if Clock last' + Len last' \<ge> Clock r then compact_loop (join_range last' r) rs
      else last' # compact_loop r rs)"

definition sort_compact :: "DeleteRange list \<Rightarrow> DeleteRange list" where
  "sort_compact rs = (case sort_key Clock rs of [] \<Rightarrow> [] | r # rest \<Rightarrow> compact_loop r rest)"

definition sortAndCompact :: "ClientID \<Rightarrow> DeleteSet \<Rightarrow> DeleteSet" where
  "sortAndCompact client ds = set_ranges client (sort_compact (ds_ranges ds client)) ds"

definition DeleteSet_Clients :: "DeleteSet \<Rightarrow> ClientID list" where
  "DeleteSet_Clients ds = map fst (ds_clients ds)"

definition orderedClients :: "DeleteSet \<Rightarrow> ClientID list" where
  "orderedClients ds =
     (let out = (case order ds of None \<Rightarrow> [] | Some os \<Rightarrow> os)
      in if length out = length (ds_clients ds) then out
         else out @ sort (filter (\<lambda>c. c \<notin> set out) (map fst (ds_clients ds))))"

definition Merge :: "DeleteSet \<Rightarrow> DeleteSet \<Rightarrow> DeleteSet" where
  "Merge ds other =
     (let ds = (case order ds of None \<Rightarrow> ds
                | Some os \<Rightarrow> ds\<lparr>order := Some (os @ filter (\<lambda>c. \<not> seen ds c) (orderedClients other))\<rparr>);
          ds = foldl (\<lambda>ds (client, ranges). set_ranges client (ds_ranges ds client @ ranges) ds) ds (ds_clients other)
      in foldl (\<lambda>ds (client, _). sortAndCompact client ds) ds (ds_clients other))"

subsection \<open>Invariant and abstraction\<close>

text \<open>
  One entry per client, runs that do not wrap, and an order that lists every client once.
\<close>

definition order_ok :: "DeleteSet \<Rightarrow> bool" where
  "order_ok ds \<longleftrightarrow> distinct (map fst (ds_clients ds)) \<and>
     (case order ds of None \<Rightarrow> True | Some os \<Rightarrow> distinct os \<and> set os = {c. seen ds c})"

definition ds_inv :: "DeleteSet \<Rightarrow> bool" where
  "ds_inv ds \<longleftrightarrow> distinct (map fst (ds_clients ds)) \<and> (\<forall>c. \<forall>r \<in> set (ds_ranges ds c). fits r) \<and>
     (case order ds of None \<Rightarrow> True | Some os \<Rightarrow> distinct os \<and> set os = {c. seen ds c})"

lemma ds_inv_order: "ds_inv ds \<Longrightarrow> order_ok ds"
  by (simp add: ds_inv_def order_ok_def)

definition deleted :: "DeleteSet \<Rightarrow> ClientID \<Rightarrow> nat set" where
  "deleted ds c = covered (ds_ranges ds c)"

lemma ranges_set [simp]:
  "ds_ranges (set_ranges c rs ds) = (ds_ranges ds)(c := rs)"
  "seen (set_ranges c rs ds) = (\<lambda>d. d = c \<or> seen ds d)"
  "order (set_ranges c rs ds) = order ds"
  "distinct (map fst (ds_clients (set_ranges c rs ds))) = distinct (map fst (ds_clients ds))"
  by (auto simp: set_ranges_def ds_ranges_def seen_def fun_eq_iff)

lemma ranges_order [simp]:
  "ds_ranges (ds\<lparr>order := x\<rparr>) = ds_ranges ds" "seen (ds\<lparr>order := x\<rparr>) = seen ds"
  by (auto simp: ds_ranges_def seen_def fun_eq_iff)

lemma seen_iff: "seen ds c \<longleftrightarrow> c \<in> set (map fst (ds_clients ds))"
  by (simp add: seen_def map_of_eq_None_iff)

lemma unseen_ranges: "\<not> seen ds c \<Longrightarrow> ds_ranges ds c = []"
  by (simp add: seen_def ds_ranges_def)

subsection \<open>Compaction\<close>

lemma compact_loop_covered:
  "sorted (map Clock (l # rs)) \<Longrightarrow> \<forall>r \<in> set (l # rs). fits r \<Longrightarrow>
   covered (compact_loop l rs) = covered (l # rs) \<and> (\<forall>r \<in> set (compact_loop l rs). fits r)"
proof (induction l rs rule: compact_loop.induct)
  case (2 l r rs)
  have le: "start l \<le> start r" and f: "fits l" "fits r"
    using "2.prems" by (auto simp: word_le_nat_alt)
  show ?case
  proof (cases "start r \<le> stop l")
    case True
    then have "covered (compact_loop (join_range l r) rs) = covered (join_range l r # rs) \<and>
        (\<forall>x \<in> set (compact_loop (join_range l r) rs). fits x)"
      using "2.IH"(1) "2.prems" f by (simp add: end_le_iff join_range_fits)
    then show ?thesis using True f le by (simp add: end_le_iff join_range_clocks Un_assoc)
  next
    case False
    then show ?thesis using "2.IH"(2) "2.prems" f by (simp add: end_le_iff)
  qed
qed simp

text \<open>The compacted runs are in order, with a gap between any two of them, even if some runs are empty.\<close>

definition separated :: "DeleteRange list \<Rightarrow> bool" where
  "separated rs \<longleftrightarrow> sorted_wrt (\<lambda>a b. stop a < start b) rs"

lemma compact_loop_separated:
  "sorted (map Clock (l # rs)) \<Longrightarrow> \<forall>r \<in> set (l # rs). fits r \<Longrightarrow>
   separated (compact_loop l rs) \<and> (\<forall>r \<in> set (compact_loop l rs). start l \<le> start r)"
proof (induction l rs rule: compact_loop.induct)
  case (2 l r rs)
  have le: "start l \<le> start r" and f: "fits l" "fits r"
    using "2.prems" by (auto simp: word_le_nat_alt)
  show ?case
  proof (cases "start r \<le> stop l")
    case True
    have "Clock (join_range l r) = Clock l" by (simp add: join_range_def Let_def)
    then show ?thesis using True "2.IH"(1) "2.prems" f by (simp add: end_le_iff join_range_fits)
  next
    case False
    then have "separated (compact_loop r rs)" "\<forall>x \<in> set (compact_loop r rs). start r \<le> start x"
      using "2.IH"(2) "2.prems" f by (simp_all add: end_le_iff)
    then show ?thesis using False f le by (fastforce simp: end_le_iff separated_def)
  qed
qed (simp add: separated_def)

lemma sort_compact_separated:
  assumes "\<forall>r \<in> set rs. fits r"
  shows "separated (sort_compact rs)"
proof (cases "sort_key Clock rs")
  case (Cons r rest)
  have "set (r # rest) = set rs" "sorted (map Clock (r # rest))" unfolding Cons[symmetric] by simp_all
  then show ?thesis using compact_loop_separated[of r rest] assms by (simp add: sort_compact_def Cons)
qed (simp add: sort_compact_def separated_def)

text \<open>Without empty runs compaction gives the normal form of the identifier sets.\<close>

lemma join_range_nonempty: "fits l \<Longrightarrow> fits r \<Longrightarrow> Len l \<noteq> 0 \<Longrightarrow> Len (join_range l r) \<noteq> 0"
  using join_range_stop[of l r] by (auto simp: Len_zero_iff max_def split: if_splits)

lemma compact_loop_merge:
  "\<forall>r \<in> set (l # rs). fits r \<and> Len r \<noteq> 0 \<Longrightarrow> compact_loop l rs = merge_ranges l rs"
proof (induction l rs rule: compact_loop.induct)
  case (2 l r rs)
  then show ?case by (simp add: join_range_fits join_range_nonempty)
qed simp

lemma sort_compact_covered:
  assumes "\<forall>r \<in> set rs. fits r"
  shows "covered (sort_compact rs) = covered rs" "\<forall>r \<in> set (sort_compact rs). fits r"
proof -
  have s: "set (sort_key Clock rs) = set rs" "sorted (map Clock (sort_key Clock rs))" by simp_all
  have "covered (sort_compact rs) = covered rs \<and> (\<forall>r \<in> set (sort_compact rs). fits r)"
  proof (cases "sort_key Clock rs")
    case Nil
    then show ?thesis using s(1) by (simp add: sort_compact_def)
  next
    case (Cons r rest)
    then have e: "set (r # rest) = set rs" "sorted (map Clock (r # rest))" using s by simp_all
    have "sort_compact rs = compact_loop r rest" by (simp add: sort_compact_def Cons)
    then show ?thesis using compact_loop_covered[OF e(2)] assms unfolding e(1) by simp
  qed
  then show "covered (sort_compact rs) = covered rs" "\<forall>r \<in> set (sort_compact rs). fits r" by simp_all
qed

lemma sort_compact_normalize:
  assumes "\<forall>r \<in> set rs. fits r \<and> Len r \<noteq> 0"
  shows "sort_compact rs = normalize_ranges rs"
proof (cases "sort_key Clock rs")
  case (Cons r rest)
  then have "set (r # rest) = set rs" by (metis set_sort)
  then have "compact_loop r rest = merge_ranges r rest" using assms by (intro compact_loop_merge) simp
  then show ?thesis using Cons by (simp add: sort_compact_def normalize_ranges_def)
qed (simp add: sort_compact_def normalize_ranges_def)

subsection \<open>Operations\<close>

lemma new_inv [simp]: "ds_inv newDeleteSet" "deleted newDeleteSet = (\<lambda>c. {})"
    "ds_inv newOrderedDeleteSet" "deleted newOrderedDeleteSet = (\<lambda>c. {})"
  by (auto simp: ds_inv_def deleted_def newDeleteSet_def newOrderedDeleteSet_def ds_ranges_def seen_def)

lemma extend_last:
  assumes "rs \<noteq> []" "\<forall>r \<in> set rs. fits r" "Clock (last rs) + Len (last rs) = k" "unat k + unat n < 2 ^ 64"
  defines "rs' \<equiv> butlast rs @ [(last rs)\<lparr>Len := Len (last rs) + n\<rparr>]"
  shows "covered rs' = covered rs \<union> span k n" "\<forall>r \<in> set rs'. fits r"
proof -
  define l where "l = last rs"
  have r: "rs = butlast rs @ [l]" using assms(1) by (simp add: l_def)
  have l: "fits l" "stop l = unat k" using assms(1-3) unat_end[of l] by (auto simp: l_def)
  have "unat (Len l + n) = unat (Len l) + unat n" using assms(4) l(2) by (intro unat_add_fits) simp
  then have "fits (l\<lparr>Len := Len l + n\<rparr>)" "clocks (l\<lparr>Len := Len l + n\<rparr>) = clocks l \<union> span k n"
    using l assms(4) by (auto simp: fits_def clocks_def)
  moreover have "set rs = set (butlast rs) \<union> {l}" by (subst r) simp
  ultimately show "covered rs' = covered rs \<union> span k n" "\<forall>r \<in> set rs'. fits r"
    using assms(2) by (auto simp: rs'_def simp flip: l_def)
qed

lemma set_ranges_inv:
  assumes "ds_inv ds" "\<forall>r \<in> set rs. fits r" "seen ds c \<or> order ds = None"
  shows "ds_inv (set_ranges c rs ds)" "deleted (set_ranges c rs ds) = (deleted ds)(c := covered rs)"
  using assms by (auto simp: ds_inv_def deleted_def fun_eq_iff split: option.splits)

lemma add_correct:
  assumes inv: "ds_inv ds" and fit: "unat k + unat n < 2 ^ 64"
  shows "ds_inv (DeleteSet_add ds \<lparr>Client = c, IdClock = k\<rparr> (uint n))"
    and "deleted (DeleteSet_add ds \<lparr>Client = c, IdClock = k\<rparr> (uint n)) = (deleted ds)(c := deleted ds c \<union> span k n)"
proof -
  define rs where "rs = (let rs = ds_ranges ds c in
    if rs \<noteq> [] \<and> Clock (last rs) + Len (last rs) = k
    then butlast rs @ [(last rs)\<lparr>Len := Len (last rs) + n\<rparr>] else rs @ [\<lparr>Clock = k, Len = n\<rparr>])"
  define ds' where "ds' = (if \<not> seen ds c then ds\<lparr>order := map_option (\<lambda>os. os @ [c]) (order ds)\<rparr> else ds)"
  have eq: "DeleteSet_add ds \<lparr>Client = c, IdClock = k\<rparr> (uint n) = set_ranges c rs ds'"
    by (simp add: DeleteSet_add_def rs_def ds'_def Let_def)
  have f: "\<forall>r \<in> set (ds_ranges ds c). fits r" using inv by (simp add: ds_inv_def)
  have rs: "covered rs = deleted ds c \<union> span k n" "\<forall>r \<in> set rs. fits r"
  proof -
    have "covered rs = deleted ds c \<union> span k n \<and> (\<forall>r \<in> set rs. fits r)"
    proof (cases "ds_ranges ds c \<noteq> [] \<and> Clock (last (ds_ranges ds c)) + Len (last (ds_ranges ds c)) = k")
      case True
      then show ?thesis using extend_last[OF _ f _ fit] by (simp add: rs_def deleted_def Let_def)
    next
      case False
      then have "rs = ds_ranges ds c @ [\<lparr>Clock = k, Len = n\<rparr>]" unfolding rs_def Let_def by (rule if_not_P)
      then show ?thesis using f fit by (auto simp: deleted_def clocks_def fits_def)
    qed
    then show "covered rs = deleted ds c \<union> span k n" "\<forall>r \<in> set rs. fits r" by simp_all
  qed
  show "ds_inv (DeleteSet_add ds \<lparr>Client = c, IdClock = k\<rparr> (uint n))"
    unfolding eq using inv rs(2) by (auto simp: ds_inv_def ds'_def split: option.splits)
  show "deleted (DeleteSet_add ds \<lparr>Client = c, IdClock = k\<rparr> (uint n)) = (deleted ds)(c := deleted ds c \<union> span k n)"
    unfolding eq using rs(1) by (auto simp: deleted_def ds'_def fun_eq_iff)
qed

lemma IsDeleted_correct: "ds_inv ds \<Longrightarrow> IsDeleted ds i \<longleftrightarrow> unat (IdClock i) \<in> deleted ds (Client i)"
  by (auto simp: IsDeleted_def deleted_def list_ex_iff ds_inv_def in_range_iff)

lemma orderedClients_correct:
  assumes "order_ok ds"
  shows "distinct (orderedClients ds)" "set (orderedClients ds) = {c. seen ds c}"
    "order ds = Some os \<Longrightarrow> orderedClients ds = os"
    "order ds = None \<Longrightarrow> sorted (orderedClients ds)"
proof -
  have d: "distinct (map fst (ds_clients ds))" using assms by (simp add: order_ok_def)
  have len: "length os = length (ds_clients ds)" if "order ds = Some os" for os
  proof -
    have "distinct os" "set os = set (map fst (ds_clients ds))"
      using assms that by (simp_all add: order_ok_def seen_iff set_eq_iff)
    then have "length os = card (set (map fst (ds_clients ds)))" by (metis distinct_card)
    then show ?thesis using distinct_card[OF d] by simp
  qed
  have n: "orderedClients ds = sort (map fst (ds_clients ds))" if "order ds = None"
    using that by (cases "ds_clients ds") (simp_all add: orderedClients_def)
  have s: "orderedClients ds = os" if "order ds = Some os" for os
    using that len[OF that] by (simp add: orderedClients_def)
  have "distinct (orderedClients ds) \<and> set (orderedClients ds) = {c. seen ds c}"
  proof (cases "order ds")
    case None
    then show ?thesis using n d by (auto simp: seen_iff)
  next
    case (Some os)
    then show ?thesis using s assms by (simp add: order_ok_def)
  qed
  then show "distinct (orderedClients ds)" "set (orderedClients ds) = {c. seen ds c}" by simp_all
  show "order ds = Some os \<Longrightarrow> orderedClients ds = os" by (rule s)
  show "order ds = None \<Longrightarrow> sorted (orderedClients ds)" by (simp add: n)
qed

lemma append_loop:
  "distinct (map fst cs) \<Longrightarrow>
   ds_ranges (foldl (\<lambda>ds (c, rs). set_ranges c (ds_ranges ds c @ rs) ds) ds cs) =
     (\<lambda>c. ds_ranges ds c @ (case map_of cs c of None \<Rightarrow> [] | Some rs \<Rightarrow> rs)) \<and>
   seen (foldl (\<lambda>ds (c, rs). set_ranges c (ds_ranges ds c @ rs) ds) ds cs) = (\<lambda>c. seen ds c \<or> c \<in> set (map fst cs)) \<and>
   order (foldl (\<lambda>ds (c, rs). set_ranges c (ds_ranges ds c @ rs) ds) ds cs) = order ds \<and>
   distinct (map fst (ds_clients (foldl (\<lambda>ds (c, rs). set_ranges c (ds_ranges ds c @ rs) ds) ds cs))) =
     distinct (map fst (ds_clients ds))"
proof (induction cs arbitrary: ds)
  case (Cons e cs)
  obtain c rs where e: "e = (c, rs)" by (cases e)
  have n: "map_of cs c = None" using Cons.prems e by (simp add: map_of_eq_None_iff)
  have "distinct (map fst cs)" using Cons.prems by simp
  from Cons.IH[OF this, of "set_ranges c (ds_ranges ds c @ rs) ds"] n show ?case
    unfolding e by (auto simp: fun_eq_iff)
qed simp

lemma compact_loop_clients:
  "distinct (map fst cs) \<Longrightarrow>
   ds_ranges (foldl (\<lambda>ds (c, rs). sortAndCompact c ds) ds cs) =
     (\<lambda>c. if c \<in> set (map fst cs) then sort_compact (ds_ranges ds c) else ds_ranges ds c) \<and>
   seen (foldl (\<lambda>ds (c, rs). sortAndCompact c ds) ds cs) = (\<lambda>c. seen ds c \<or> c \<in> set (map fst cs)) \<and>
   order (foldl (\<lambda>ds (c, rs). sortAndCompact c ds) ds cs) = order ds \<and>
   distinct (map fst (ds_clients (foldl (\<lambda>ds (c, rs). sortAndCompact c ds) ds cs))) = distinct (map fst (ds_clients ds))"
proof (induction cs arbitrary: ds)
  case (Cons e cs)
  obtain c rs where e: "e = (c, rs)" by (cases e)
  have n: "c \<notin> set (map fst cs)" using Cons.prems e by simp
  have "distinct (map fst cs)" using Cons.prems by simp
  from Cons.IH[OF this, of "sortAndCompact c ds"] n show ?case
    unfolding e by (auto simp: fun_eq_iff sortAndCompact_def)
qed simp

lemma Merge_parts:
  assumes "order_ok other"
  shows "ds_ranges (Merge ds other) = (\<lambda>c. if seen other c then sort_compact (ds_ranges ds c @ ds_ranges other c) else ds_ranges ds c)"
    and "seen (Merge ds other) = (\<lambda>c. seen ds c \<or> seen other c)"
    and "order (Merge ds other) = map_option (\<lambda>os. os @ filter (\<lambda>c. \<not> seen ds c) (orderedClients other)) (order ds)"
    and "distinct (map fst (ds_clients (Merge ds other))) = distinct (map fst (ds_clients ds))"
proof -
  have d: "distinct (map fst (ds_clients other))" using assms by (simp add: order_ok_def)
  define d1 where "d1 = (case order ds of None \<Rightarrow> ds
      | Some os \<Rightarrow> ds\<lparr>order := Some (os @ filter (\<lambda>c. \<not> seen ds c) (orderedClients other))\<rparr>)"
  define d2 where "d2 = foldl (\<lambda>ds (c, rs). set_ranges c (ds_ranges ds c @ rs) ds) d1 (ds_clients other)"
  have m: "Merge ds other = foldl (\<lambda>ds (c, _). sortAndCompact c ds) d2 (ds_clients other)"
    by (simp add: Merge_def d1_def d2_def)
  have d1: "ds_ranges d1 = ds_ranges ds" "seen d1 = seen ds" "ds_clients d1 = ds_clients ds"
    "order d1 = map_option (\<lambda>os. os @ filter (\<lambda>c. \<not> seen ds c) (orderedClients other)) (order ds)"
    by (simp_all add: d1_def split: option.splits)
  note a = append_loop[OF d, of d1, folded d2_def] and b = compact_loop_clients[OF d, of d2]
  show "ds_ranges (Merge ds other) = (\<lambda>c. if seen other c then sort_compact (ds_ranges ds c @ ds_ranges other c) else ds_ranges ds c)"
  proof
    fix c
    have "ds_ranges d2 c = ds_ranges ds c @ ds_ranges other c" using a d1(1) by (simp add: ds_ranges_def)
    then show "ds_ranges (Merge ds other) c =
        (if seen other c then sort_compact (ds_ranges ds c @ ds_ranges other c) else ds_ranges ds c)"
      unfolding m using b unseen_ranges[of other c] by (simp add: seen_iff)
  qed
  show "seen (Merge ds other) = (\<lambda>c. seen ds c \<or> seen other c)"
    unfolding m using a b d1 by (auto simp: fun_eq_iff seen_iff)
  show "order (Merge ds other) = map_option (\<lambda>os. os @ filter (\<lambda>c. \<not> seen ds c) (orderedClients other)) (order ds)"
    unfolding m using a b d1 by simp
  show "distinct (map fst (ds_clients (Merge ds other))) = distinct (map fst (ds_clients ds))"
    unfolding m using a b d1 by simp
qed

lemma Merge_order:
  assumes "order_ok ds" "order_ok other"
  shows "order_ok (Merge ds other)"
proof -
  note m = Merge_parts[OF assms(2), of ds]
  have "distinct os' \<and> set os' = {c. seen ds c \<or> seen other c}" if os': "order (Merge ds other) = Some os'" for os'
  proof -
    obtain os where os: "order ds = Some os" "os' = os @ filter (\<lambda>c. \<not> seen ds c) (orderedClients other)"
      using os' m(3) by auto
    then have "distinct os" "set os = {c. seen ds c}" using assms(1) by (simp_all add: order_ok_def)
    then show ?thesis using orderedClients_correct(1,2)[OF assms(2)] os(2) by auto
  qed
  then show ?thesis using assms(1) by (simp add: order_ok_def m(2,4) split: option.splits)
qed

lemma Merge_correct:
  assumes "ds_inv ds" "ds_inv other"
  shows "ds_inv (Merge ds other)" "deleted (Merge ds other) = (\<lambda>c. deleted ds c \<union> deleted other c)"
proof -
  note m = Merge_parts[OF ds_inv_order[OF assms(2)], of ds]
  have f: "\<forall>r \<in> set (ds_ranges ds c @ ds_ranges other c). fits r" for c
    using assms by (auto simp: ds_inv_def)
  have "order_ok (Merge ds other)" using assms by (intro Merge_order ds_inv_order)
  moreover have "\<forall>c. \<forall>r \<in> set (ds_ranges (Merge ds other) c). fits r"
    using assms(1) sort_compact_covered(2)[OF f] by (auto simp: ds_inv_def m(1))
  ultimately show "ds_inv (Merge ds other)" by (simp add: ds_inv_def order_ok_def)
  show "deleted (Merge ds other) = (\<lambda>c. deleted ds c \<union> deleted other c)"
    using sort_compact_covered(1)[OF f] unseen_ranges[of other] by (auto simp: fun_eq_iff deleted_def m(1))
qed

text \<open>The interface shared with the identifier sets.\<close>

interpretation deleteset: clock_set newDeleteSet "\<lambda>ds c k n. DeleteSet_add ds \<lparr>Client = c, IdClock = k\<rparr> (uint n)"
    "\<lambda>ds c k. IsDeleted ds \<lparr>Client = c, IdClock = k\<rparr>" Merge deleted ds_inv
  by unfold_locales (simp_all add: add_correct IsDeleted_correct Merge_correct)

subsection \<open>Properties\<close>

lemma ds_example:
  "ds_inv (DeleteSet_add (DeleteSet_add newOrderedDeleteSet \<lparr>Client = 5, IdClock = 10\<rparr> 4) \<lparr>Client = 2, IdClock = 0\<rparr> 3)"
  "ds_inv (DeleteSet_add (DeleteSet_add newDeleteSet \<lparr>Client = 9, IdClock = 1\<rparr> 1) \<lparr>Client = 5, IdClock = 7\<rparr> 3)"
  using deleteset.add(1)[OF deleteset.add(1)[OF new_inv(3), of 10 4 5], of 0 3 2]
    deleteset.add(1)[OF deleteset.add(1)[OF new_inv(1), of 1 1 9], of 7 3 5] by simp_all

text \<open>
  C14: merging delete sets is union: after a merge an item is deleted exactly when it was deleted in
  one of the two sets, whatever order the runs came in, and the merge keeps the set well formed.
\<close>

theorem delete_set_merge_union:
  assumes "ds_inv ds" "ds_inv other"
  shows "ds_inv (Merge ds other) \<and>
    (IsDeleted (Merge ds other) i \<longleftrightarrow> IsDeleted ds i \<or> IsDeleted other i)"
  using deleteset.union(1)[OF assms] deleteset.has_union[OF assms, of "Client i" "IdClock i"] by (cases i) simp

theorem delete_set_merge_union_witness:
  "IsDeleted (Merge
      (DeleteSet_add (DeleteSet_add newOrderedDeleteSet \<lparr>Client = 5, IdClock = 10\<rparr> 4) \<lparr>Client = 2, IdClock = 0\<rparr> 3)
      (DeleteSet_add (DeleteSet_add newDeleteSet \<lparr>Client = 9, IdClock = 1\<rparr> 1) \<lparr>Client = 5, IdClock = 7\<rparr> 3))
    \<lparr>Client = 5, IdClock = 9\<rparr>"
  unfolding conjunct2[OF delete_set_merge_union[OF ds_example]] by code_simp

text \<open>
  C23: a merge compacts exactly the clients of the merged-in set.  Their runs are in order with a gap between any two and
  cover the union; when no run of the two sets is empty, they are the one normal form of the union, without empty
  runs.  The runs of every other client stay as they are.
\<close>

theorem delete_set_merge_compact:
  assumes "ds_inv ds" "ds_inv other"
  shows "if seen other c
    then separated (ds_ranges (Merge ds other) c) \<and> covered (ds_ranges (Merge ds other) c) = deleted ds c \<union> deleted other c \<and>
      ((\<forall>r \<in> set (ds_ranges ds c @ ds_ranges other c). Len r \<noteq> 0) \<longrightarrow> normal (ds_ranges (Merge ds other) c) \<and>
        (\<forall>rs. normal rs \<and> covered rs = deleted ds c \<union> deleted other c \<longrightarrow> ds_ranges (Merge ds other) c = rs))
    else ds_ranges (Merge ds other) c = ds_ranges ds c"
proof (cases "seen other c")
  case True
  let ?rs = "ds_ranges ds c @ ds_ranges other c"
  have f: "\<forall>r \<in> set ?rs. fits r" using assms by (auto simp: ds_inv_def)
  have m: "ds_ranges (Merge ds other) c = sort_compact ?rs" using True by (simp add: Merge_parts(1)[OF ds_inv_order[OF assms(2)]])
  have c: "covered (sort_compact ?rs) = deleted ds c \<union> deleted other c"
    unfolding sort_compact_covered(1)[OF f] by (simp add: deleted_def)
  have "normal (sort_compact ?rs)" if "\<forall>r \<in> set ?rs. Len r \<noteq> 0"
  proof -
    have "sort_compact ?rs = normalize_ranges ?rs" using f that by (intro sort_compact_normalize) blast
    then show ?thesis using normalize_ranges_normal[OF f] by simp
  qed
  then show ?thesis using True c normal_unique sort_compact_separated[OF f] unfolding m by presburger
qed (simp add: Merge_parts(1)[OF ds_inv_order[OF assms(2)]])

theorem delete_set_merge_compact_witness:
  "ds_ranges (Merge
      (DeleteSet_add (DeleteSet_add newOrderedDeleteSet \<lparr>Client = 5, IdClock = 10\<rparr> 4) \<lparr>Client = 2, IdClock = 0\<rparr> 3)
      (DeleteSet_add (DeleteSet_add newDeleteSet \<lparr>Client = 9, IdClock = 1\<rparr> 1) \<lparr>Client = 5, IdClock = 7\<rparr> 3)) 5 =
    [\<lparr>Clock = 7, Len = 7\<rparr>]"
proof -
  let ?a = "DeleteSet_add (DeleteSet_add newOrderedDeleteSet \<lparr>Client = 5, IdClock = 10\<rparr> 4) \<lparr>Client = 2, IdClock = 0\<rparr> 3"
  let ?b = "DeleteSet_add (DeleteSet_add newDeleteSet \<lparr>Client = 9, IdClock = 1\<rparr> 1) \<lparr>Client = 5, IdClock = 7\<rparr> 3"
  have e: "seen ?b 5" "ds_ranges ?a 5 = [\<lparr>Clock = 10, Len = 4\<rparr>]" "ds_ranges ?b 5 = [\<lparr>Clock = 7, Len = 3\<rparr>]" by code_simp+
  have "normal [\<lparr>Clock = 7, Len = 7\<rparr>] \<and> covered [\<lparr>Clock = 7, Len = 7\<rparr>] = deleted ?a 5 \<union> deleted ?b 5"
    unfolding deleted_def e by (auto simp: normal_Cons fits_def clocks_def)
  then show ?thesis using delete_set_merge_compact[OF ds_example, of 5] unfolding if_P[OF e(1)] e(2,3) by simp
qed

text \<open>Insertions one after the other, and the clients of a list in the order of their first occurrence.\<close>

definition add_all :: "DeleteSet \<Rightarrow> (ID \<times> int) list \<Rightarrow> DeleteSet" where
  "add_all ds ops = foldl (\<lambda>ds (i, n). DeleteSet_add ds i n) ds ops"

definition first_seen :: "(ID \<times> int) list \<Rightarrow> ClientID list" where
  "first_seen ops = rev (remdups (rev (map (\<lambda>(i, _). Client i) ops)))"

lemma first_seen_simps [simp]:
  "first_seen [] = []" "first_seen (ops @ [(i, n)]) = first_seen ops @ (if Client i \<in> set (first_seen ops) then [] else [Client i])"
  "distinct (first_seen ops)"
  by (simp_all add: first_seen_def)

lemma first_seen_append: "first_seen (ops @ ops') = first_seen ops @ filter (\<lambda>c. c \<notin> set (first_seen ops)) (first_seen ops')"
proof (induction ops' rule: rev_induct)
  case (snoc x ops')
  obtain i n where x: "x = (i, n)" by (cases x)
  have "first_seen (ops @ ops' @ [x]) = first_seen ((ops @ ops') @ [(i, n)])" by (simp add: x)
  also have "\<dots> = first_seen ops @ filter (\<lambda>c. c \<notin> set (first_seen ops)) (first_seen (ops' @ [(i, n)]))"
    unfolding first_seen_simps(2) snoc.IH by auto
  finally show ?case by (simp add: x)
qed simp

lemma add_order:
  "order_ok ds \<Longrightarrow> order_ok (DeleteSet_add ds i n)" "seen (DeleteSet_add ds i n) = (\<lambda>c. c = Client i \<or> seen ds c)"
  "order (DeleteSet_add ds i n) = map_option (\<lambda>os. os @ (if seen ds (Client i) then [] else [Client i])) (order ds)"
  by (auto simp: DeleteSet_add_def Let_def order_ok_def fun_eq_iff option.map_ident split: option.splits)

lemma add_all_order:
  assumes "order_ok ds" "\<forall>c. \<not> seen ds c"
  shows "order_ok (add_all ds ops) \<and> seen (add_all ds ops) = (\<lambda>c. c \<in> set (first_seen ops)) \<and>
    order (add_all ds ops) = map_option (\<lambda>os. os @ first_seen ops) (order ds)"
proof (induction ops rule: rev_induct)
  case Nil
  then show ?case using assms by (cases "order ds") (simp_all add: add_all_def fun_eq_iff)
next
  case (snoc x ops)
  obtain i n where x: "x = (i, n)" by (cases x)
  have "add_all ds (ops @ [x]) = DeleteSet_add (add_all ds ops) i n" by (simp add: add_all_def x)
  then show ?case using snoc.IH add_order[of "add_all ds ops" i n] unfolding x by (cases "order ds") auto
qed

text \<open>
  C25: a set that records an order lists its clients in the order of their first insertion, each once, and a merge
  appends the new clients of the other set in their own order.  A set that records none lists its clients in
  ascending order.
\<close>

theorem delete_set_client_order:
  "orderedClients (add_all newOrderedDeleteSet ops) = first_seen ops \<and>
   orderedClients (add_all newDeleteSet ops) = sorted_list_of_set (set (first_seen ops)) \<and>
   orderedClients (Merge (add_all newOrderedDeleteSet ops) (add_all newOrderedDeleteSet ops')) = first_seen (ops @ ops') \<and>
   orderedClients (Merge (add_all newOrderedDeleteSet ops) (add_all newDeleteSet ops')) =
     first_seen ops @ filter (\<lambda>c. c \<notin> set (first_seen ops)) (sorted_list_of_set (set (first_seen ops')))"
proof -
  have n: "order_ok newOrderedDeleteSet" "order_ok newDeleteSet" by (simp_all add: ds_inv_order)
  have e: "\<forall>c. \<not> seen newOrderedDeleteSet c" "\<forall>c. \<not> seen newDeleteSet c"
    "order newOrderedDeleteSet = Some []" "order newDeleteSet = None"
    by (simp_all add: newOrderedDeleteSet_def newDeleteSet_def seen_def)
  have o: "order_ok (add_all newOrderedDeleteSet ops)" "seen (add_all newOrderedDeleteSet ops) = (\<lambda>c. c \<in> set (first_seen ops))"
      "order (add_all newOrderedDeleteSet ops) = Some (first_seen ops)" for ops
    using add_all_order[OF n(1) e(1), of ops] e(3) by simp_all
  have u: "order_ok (add_all newDeleteSet ops)" "seen (add_all newDeleteSet ops) = (\<lambda>c. c \<in> set (first_seen ops))"
      "order (add_all newDeleteSet ops) = None" for ops
    using add_all_order[OF n(2) e(2), of ops] e(4) by simp_all
  have s: "orderedClients (add_all newOrderedDeleteSet ops) = first_seen ops" for ops
    by (rule orderedClients_correct(3)[OF o(1,3)])
  have a: "orderedClients (add_all newDeleteSet ops) = sorted_list_of_set (set (first_seen ops))" for ops
    using orderedClients_correct(1,2,4)[OF u(1)[of ops]] u(2,3)[of ops]
    by (intro sorted_distinct_set_unique) simp_all
  have m: "orderedClients (Merge (add_all newOrderedDeleteSet ops) ds) = first_seen ops @ filter (\<lambda>c. c \<notin> set (first_seen ops)) (orderedClients ds)"
    if "order_ok ds" for ds
    using Merge_parts(3)[OF that, of "add_all newOrderedDeleteSet ops"] orderedClients_correct(3)[OF Merge_order[OF o(1)[of ops] that]]
    by (simp add: o(2,3))
  show ?thesis using s a m[OF o(1)[of ops']] m[OF u(1)[of ops']] by (simp add: first_seen_append)
qed

end
