(* ===== verification/Id_Set.thy ===== *)
theory Id_Set
  imports Id_Range
begin

text \<open>
  Sets of item identifiers: \<^verbatim>\<open>src/crdt/idset.go\<close> and \<^verbatim>\<open>src/crdt/idset_ops.go\<close>.  The set of a client is a lazily
  normalised list of runs.  \<open>members\<close> is the abstraction: the clocks of a client as natural
  numbers; union, difference and intersection are proved to be those of sets.
\<close>

subsection \<open>Lazily normalised ranges\<close>

record idRanges =
  is_sorted :: bool
  ids :: "IDRange list"

definition idRanges_add :: "idRanges \<Rightarrow> u64 \<Rightarrow> u64 \<Rightarrow> idRanges" where
  "idRanges_add r clock length' =
     (if ids r \<noteq> [] \<and> Clock (last (ids r)) + Len (last (ids r)) = clock
      then r\<lparr>ids := butlast (ids r) @ [(last (ids r))\<lparr>Len := Len (last (ids r)) + length'\<rparr>]\<rparr>
      else \<lparr>is_sorted = False, ids = ids r @ [\<lparr>Clock = clock, Len = length'\<rparr>]\<rparr>)"

text \<open>The result and the receiver, which caches the normalised list.\<close>

definition idRanges_getIDs :: "idRanges \<Rightarrow> IDRange list \<times> idRanges" where
  "idRanges_getIDs r =
     (if is_sorted r then (ids r, r)
      else let merged = normalize_ranges (ids r) in (merged, \<lparr>is_sorted = True, ids = merged\<rparr>))"

abbreviation getIDs :: "idRanges \<Rightarrow> IDRange list" where
  "getIDs r \<equiv> fst (idRanges_getIDs r)"

subsection \<open>The set\<close>

text \<open>
  A Go map from clients to ranges.  Reading normalises a client's list in place; since the cached
  list answers every later read alike (\<open>getIDs_cached\<close> below), the readers return only their result.
\<close>

type_synonym IDSet = "(ClientID \<times> idRanges) list"

definition NewIDSet :: IDSet where
  "NewIDSet = []"

definition IDSet_Add :: "IDSet \<Rightarrow> ClientID \<Rightarrow> u64 \<Rightarrow> u64 \<Rightarrow> IDSet" where
  "IDSet_Add s client clock length' =
     (if length' = 0 then s
      else let r = (case map_of s client of None \<Rightarrow> \<lparr>is_sorted = False, ids = []\<rparr> | Some r \<Rightarrow> r)
           in map_put client (idRanges_add r clock length') s)"

fun has_loop :: "IDRange list \<Rightarrow> u64 \<Rightarrow> bool" where
  "has_loop [] clock = False"
| "has_loop (rg # rgs) clock =
     (if Clock rg \<le> clock \<and> clock < Clock rg + Len rg then True
      else if Clock rg > clock then False
      else has_loop rgs clock)"

definition IDSet_Has :: "IDSet \<Rightarrow> ClientID \<Rightarrow> u64 \<Rightarrow> bool" where
  "IDSet_Has s client clock =
     (case map_of s client of None \<Rightarrow> False | Some r \<Rightarrow> has_loop (getIDs r) clock)"

definition IDSet_HasID :: "IDSet \<Rightarrow> ID \<Rightarrow> bool" where
  "IDSet_HasID s i = IDSet_Has s (Client i) (IdClock i)"

definition IDSet_IsEmpty :: "IDSet \<Rightarrow> bool" where
  "IDSet_IsEmpty s = list_all (\<lambda>(c, r). \<not> length (getIDs r) > 0) s"

definition IDSet_Clients :: "IDSet \<Rightarrow> ClientID list" where
  "IDSet_Clients s = sort (map fst (filter (\<lambda>(c, r). length (getIDs r) > 0) s))"

definition IDSet_Ranges :: "IDSet \<Rightarrow> ClientID \<Rightarrow> IDRange list option" where
  "IDSet_Ranges s client =
     (case map_of s client of None \<Rightarrow> None
      | Some r \<Rightarrow> if length (getIDs r) = 0 then None else Some (getIDs r))"

definition IDSet_Clone :: "IDSet \<Rightarrow> IDSet" where
  "IDSet_Clone s = map (\<lambda>(c, r). (c, \<lparr>is_sorted = True, ids = getIDs r\<rparr>)) s"

subsection \<open>Union, difference, intersection\<close>

definition add_ranges :: "ClientID \<Rightarrow> IDSet \<Rightarrow> IDRange list \<Rightarrow> IDSet" where
  "add_ranges client out rgs = foldl (\<lambda>out rg. IDSet_Add out client (Clock rg) (Len rg)) out rgs"

text \<open>A nil argument is \<open>None\<close>.\<close>

definition MergeIDSets :: "IDSet option list \<Rightarrow> IDSet" where
  "MergeIDSets sets = foldl (\<lambda>out s. case s of None \<Rightarrow> out
     | Some s \<Rightarrow> foldl (\<lambda>out (c, r). add_ranges c out (getIDs r)) out s) NewIDSet sets"

text \<open>The inner loop of \<open>ExcludeIDSet\<close>: \<open>rest\<close> are the set's ranges after \<open>cur\<close>, the last list the excluded ranges from \<open>j\<close> on.\<close>

function exclude_loop :: "ClientID \<Rightarrow> IDSet \<Rightarrow> IDRange \<Rightarrow> IDRange list \<Rightarrow> IDRange list \<Rightarrow> IDSet" where
  "exclude_loop client out cur rest [] =
     (let out = (if Len cur > 0 then IDSet_Add out client (Clock cur) (Len cur) else out)
      in add_ranges client out rest)"
| "exclude_loop client out cur rest (e # es) =
     (if Clock cur + Len cur \<le> Clock e then
        let out = (if Len cur > 0 then IDSet_Add out client (Clock cur) (Len cur) else out)
        in (case rest of [] \<Rightarrow> out | c # cs \<Rightarrow> exclude_loop client out c cs (e # es))
      else if Clock e + Len e \<le> Clock cur then exclude_loop client out cur rest es
      else if Clock e \<le> Clock cur then
        let newClock = Clock e + Len e; end = Clock cur + Len cur
        in if end > newClock then exclude_loop client out \<lparr>Clock = newClock, Len = end - newClock\<rparr> rest es
           else (case rest of [] \<Rightarrow> out | c # cs \<Rightarrow> exclude_loop client out c cs (e # es))
      else
        let head = Clock e - Clock cur;
            out = IDSet_Add out client (Clock cur) head;
            rem = (if Len cur > Len e + head then Len cur - Len e - head else 0);
            cur = \<lparr>Clock = Clock cur + head + Len e, Len = rem\<rparr>
        in if Len cur = 0
           then (case rest of [] \<Rightarrow> out | c # cs \<Rightarrow> exclude_loop client out c cs (e # es))
           else exclude_loop client out cur rest es)"
  by pat_completeness auto
termination
  by (relation "measure (\<lambda>(client, out, cur, rest, es). length rest + length es)") auto

definition ExcludeIDSet :: "IDSet option \<Rightarrow> IDSet option \<Rightarrow> IDSet" where
  "ExcludeIDSet set' exclude =
     (case set' of None \<Rightarrow> NewIDSet
      | Some s \<Rightarrow>
        (case exclude of None \<Rightarrow> MergeIDSets [Some s]
         | Some ex \<Rightarrow>
           foldl (\<lambda>out (client, r).
             case getIDs r of [] \<Rightarrow> out
             | cur # rest \<Rightarrow>
               (case map_of ex client of None \<Rightarrow> add_ranges client out (cur # rest)
                | Some er \<Rightarrow> exclude_loop client out cur rest (getIDs er))) NewIDSet s))"

fun intersect_loop :: "ClientID \<Rightarrow> IDSet \<Rightarrow> IDRange list \<Rightarrow> IDRange list \<Rightarrow> IDSet" where
  "intersect_loop client out (ra # ras) (rb # rbs) =
     (let clock = max (Clock ra) (Clock rb);
          endA = Clock ra + Len ra; endB = Clock rb + Len rb;
          end = min endA endB;
          out = (if end > clock then IDSet_Add out client clock (end - clock) else out)
      in if endA < endB then intersect_loop client out ras (rb # rbs)
         else intersect_loop client out (ra # ras) rbs)"
| "intersect_loop client out _ _ = out"

definition IntersectIDSets :: "IDSet option \<Rightarrow> IDSet option \<Rightarrow> IDSet" where
  "IntersectIDSets a b =
     (case (a, b) of
        (Some a, Some b) \<Rightarrow>
          foldl (\<lambda>out (client, ar). case map_of b client of None \<Rightarrow> out
            | Some br \<Rightarrow> intersect_loop client out (getIDs ar) (getIDs br)) NewIDSet a
      | _ \<Rightarrow> NewIDSet)"

subsection \<open>Invariant and abstraction\<close>

definition ranges_inv :: "idRanges \<Rightarrow> bool" where
  "ranges_inv r \<longleftrightarrow> (\<forall>x \<in> set (ids r). fits x) \<and> (is_sorted r \<longrightarrow> normal (ids r))"

definition idset_inv :: "IDSet \<Rightarrow> bool" where
  "idset_inv s \<longleftrightarrow> distinct (map fst s) \<and> (\<forall>(c, r) \<in> set s. ranges_inv r)"

definition members :: "IDSet \<Rightarrow> ClientID \<Rightarrow> nat set" where
  "members s c = (case map_of s c of None \<Rightarrow> {} | Some r \<Rightarrow> covered (ids r))"

lemma getIDs_normal: "ranges_inv r \<Longrightarrow> normal (getIDs r)"
  by (simp add: ranges_inv_def idRanges_getIDs_def normalize_ranges_normal Let_def)

lemma getIDs_covered: "ranges_inv r \<Longrightarrow> covered (getIDs r) = covered (ids r)"
  by (simp add: ranges_inv_def idRanges_getIDs_def normalize_ranges_covered Let_def)

lemma getIDs_cached:
  "idRanges_getIDs (snd (idRanges_getIDs r)) = (getIDs r, snd (idRanges_getIDs r))"
  by (simp add: idRanges_getIDs_def Let_def)

lemma idRanges_add_correct:
  assumes inv: "ranges_inv r" and fit: "unat clock + unat n < 2 ^ 64" and n: "n \<noteq> 0"
  shows "ranges_inv (idRanges_add r clock n)" "covered (ids (idRanges_add r clock n)) = covered (ids r) \<union> span clock n"
proof -
  have "ranges_inv (idRanges_add r clock n) \<and> covered (ids (idRanges_add r clock n)) = covered (ids r) \<union> span clock n"
  proof (cases "ids r \<noteq> [] \<and> Clock (last (ids r)) + Len (last (ids r)) = clock")
    case True
    define xs l where "xs = butlast (ids r)" and "l = last (ids r)"
    have r: "ids r = xs @ [l]" using True by (simp add: xs_def l_def)
    have l: "fits l" "stop l = unat clock"
      using inv True unat_end[of l] by (auto simp: ranges_inv_def r l_def[symmetric])
    have u: "unat (Len l + n) = unat (Len l) + unat n"
      using fit l(2) by (intro unat_add_fits) simp
    let ?l = "l\<lparr>Len := Len l + n\<rparr>"
    have "fits ?l" "clocks ?l = clocks l \<union> span clock n" "stop l \<le> stop ?l" "Len ?l \<noteq> 0"
      using u fit l n by (auto simp: fits_def clocks_def unat_eq_0 simp flip: unat_gt_0)
    moreover have "idRanges_add r clock n = r\<lparr>ids := xs @ [?l]\<rparr>"
      using True by (simp add: idRanges_add_def xs_def l_def)
    ultimately show ?thesis
      using inv unfolding ranges_inv_def r by (auto simp: r normal_snoc)
  next
    case False
    then have "idRanges_add r clock n = \<lparr>is_sorted = False, ids = ids r @ [\<lparr>Clock = clock, Len = n\<rparr>]\<rparr>"
      by (auto simp: idRanges_add_def)
    then show ?thesis using inv fit by (auto simp: ranges_inv_def fits_def clocks_def)
  qed
  then show "ranges_inv (idRanges_add r clock n)" "covered (ids (idRanges_add r clock n)) = covered (ids r) \<union> span clock n"
    by simp_all
qed

lemma members_Add:
  assumes "idset_inv s" and "unat clock + unat n < 2 ^ 64"
  shows "idset_inv (IDSet_Add s client clock n)"
    and "members (IDSet_Add s client clock n) = (members s)(client := members s client \<union> span clock n)"
proof -
  define r where "r = (case map_of s client of None \<Rightarrow> \<lparr>is_sorted = False, ids = []\<rparr> | Some r \<Rightarrow> r)"
  have r: "ranges_inv r" "covered (ids r) = members s client"
    using assms(1) by (auto simp: r_def idset_inv_def members_def ranges_inv_def dest: map_of_SomeD split: option.splits)
  show "idset_inv (IDSet_Add s client clock n)"
    using assms idRanges_add_correct(1)[OF r(1) assms(2)] set_map_put[of client "idRanges_add r clock n" s]
    by (fastforce simp: IDSet_Add_def idset_inv_def Let_def simp flip: r_def)
  show "members (IDSet_Add s client clock n) = (members s)(client := members s client \<union> span clock n)"
    using idRanges_add_correct(2)[OF r(1) assms(2)] r(2)
    by (auto simp: IDSet_Add_def members_def Let_def fun_eq_iff simp flip: r_def split: if_splits)
qed

lemma members_add_ranges:
  "idset_inv s \<Longrightarrow> \<forall>r \<in> set rgs. fits r \<Longrightarrow>
   idset_inv (add_ranges client s rgs) \<and>
   members (add_ranges client s rgs) = (members s)(client := members s client \<union> covered rgs)"
proof (induction rgs arbitrary: s)
  case (Cons r rgs)
  then have "unat (Clock r) + unat (Len r) < 2 ^ 64" by (simp add: fits_def)
  note add = members_Add[OF Cons.prems(1) this, of client]
  have "add_ranges client s (r # rgs) = add_ranges client (IDSet_Add s client (Clock r) (Len r)) rgs"
    by (simp add: add_ranges_def)
  then show ?case using Cons.IH[OF add(1)] Cons.prems(2) add(2) by (auto simp: clocks_def fun_eq_iff)
qed (simp add: add_ranges_def)

lemma inv_NewIDSet [simp]: "idset_inv NewIDSet" "members NewIDSet = (\<lambda>c. {})"
  by (auto simp: NewIDSet_def idset_inv_def members_def)

lemma inv_lookup:
  assumes "idset_inv s" "map_of s c = Some r"
  shows "normal (getIDs r)" "covered (getIDs r) = members s c" "\<forall>x \<in> set (getIDs r). fits x"
proof -
  have r: "ranges_inv r" using assms by (auto simp: idset_inv_def dest: map_of_SomeD)
  show "normal (getIDs r)" "covered (getIDs r) = members s c" "\<forall>x \<in> set (getIDs r). fits x"
    using getIDs_normal[OF r] getIDs_covered[OF r] assms(2) by (auto simp: members_def normal_fits)
qed

text \<open>A loop over the entries of a set that treats each client on its own.\<close>

lemma fold_clients:
  assumes step: "\<And>out c r. idset_inv out \<Longrightarrow> (c, r) \<in> set s \<Longrightarrow>
      idset_inv (f out (c, r)) \<and> members (f out (c, r)) = (members out)(c := members out c \<union> A c r)"
    and "idset_inv out" and "distinct (map fst s)"
  shows "idset_inv (foldl f out s) \<and>
    members (foldl f out s) = (\<lambda>c. members out c \<union> (case map_of s c of None \<Rightarrow> {} | Some r \<Rightarrow> A c r))"
  using assms
proof (induction s arbitrary: out)
  case (Cons e s)
  obtain c r where e: "e = (c, r)" by (cases e)
  have st: "idset_inv (f out (c, r))" "members (f out (c, r)) = (members out)(c := members out c \<union> A c r)"
    using Cons.prems(1)[of out c r] Cons.prems(2) e by (auto simp only: list.set insertI1)
  have "map_of s c = None" using Cons.prems(3) e by (simp add: map_of_eq_None_iff)
  then show ?case
    using Cons.IH[of "f out (c, r)"] Cons.prems st e by (auto simp: fun_eq_iff)
qed simp

subsection \<open>Queries\<close>

lemma has_loop_correct: "normal rs \<Longrightarrow> has_loop rs k \<longleftrightarrow> unat k \<in> covered rs"
proof (induction rs)
  case (Cons r rs)
  have later: "stop r < start s" if "s \<in> set rs" for s using Cons.prems that by (auto simp: normal_Cons)
  have f: "fits r" "normal rs" using Cons.prems by (simp_all add: normal_Cons)
  show ?case
  proof (cases "Clock r > k")
    case True
    then have "unat k < start r" by (simp add: word_less_nat_alt)
    then have "unat k \<notin> covered (r # rs)" using later by (fastforce simp: clocks_def)
    then show ?thesis using True in_range_iff[OF f(1), of k] by auto
  next
    case False
    then show ?thesis using Cons.IH[OF f(2)] in_range_iff[OF f(1), of k] by auto
  qed
qed simp

lemma IDSet_Has_correct: "idset_inv s \<Longrightarrow> IDSet_Has s c k \<longleftrightarrow> unat k \<in> members s c"
proof (cases "map_of s c")
  case None
  then show ?thesis by (simp add: IDSet_Has_def members_def)
next
  case (Some r)
  assume "idset_inv s"
  note l = inv_lookup[OF this Some]
  show ?thesis unfolding IDSet_Has_def Some option.case has_loop_correct[OF l(1)] l(2) ..
qed

lemma normal_empty_iff: "normal rs \<Longrightarrow> covered rs = {} \<longleftrightarrow> rs = []"
  using covered_Min(1) by (cases rs) fastforce+

lemma IDSet_Clients_correct:
  assumes "idset_inv s"
  shows "set (IDSet_Clients s) = {c. members s c \<noteq> {}}" "distinct (IDSet_Clients s)" "sorted (IDSet_Clients s)"
proof -
  have "c \<in> set (IDSet_Clients s) \<longleftrightarrow> members s c \<noteq> {}" for c
  proof (cases "map_of s c")
    case None
    then have "c \<notin> fst ` set s" by (simp add: map_of_eq_None_iff)
    then have "c \<notin> set (IDSet_Clients s)" by (auto simp: IDSet_Clients_def image_iff)
    then show ?thesis using None by (simp add: members_def)
  next
    case (Some r)
    have "(c, r') \<in> set s \<longleftrightarrow> r' = r" for r'
      using assms Some map_of_SomeD[OF Some] by (metis idset_inv_def eq_key_imp_eq_value)
    then have "c \<in> set (IDSet_Clients s) \<longleftrightarrow> getIDs r \<noteq> []" by (force simp: IDSet_Clients_def)
    then show ?thesis using inv_lookup[OF assms Some] normal_empty_iff by metis
  qed
  then show "set (IDSet_Clients s) = {c. members s c \<noteq> {}}" by blast
  show "distinct (IDSet_Clients s)"
    using assms by (simp add: IDSet_Clients_def idset_inv_def distinct_map_filter)
  show "sorted (IDSet_Clients s)" by (simp add: IDSet_Clients_def)
qed

lemma IDSet_Ranges_canonical:
  assumes "idset_inv s" "idset_inv t" "members s c = members t c"
  shows "IDSet_Ranges s c = IDSet_Ranges t c"
proof -
  have rng: "IDSet_Ranges u c = (if members u c = {} then None else Some rs)"
    if "idset_inv u" "normal rs" "covered rs = members u c" for u rs
  proof (cases "map_of u c")
    case None
    then show ?thesis by (simp add: IDSet_Ranges_def members_def)
  next
    case (Some r)
    note l = inv_lookup[OF that(1) Some]
    have "getIDs r = rs" using normal_unique[OF l(1) that(2)] l(2) that(3) by simp
    then show ?thesis using Some l(2) normal_empty_iff[OF l(1)] by (simp add: IDSet_Ranges_def)
  qed
  obtain rs where "normal rs" "covered rs = members s c"
  proof (cases "map_of s c")
    case None
    then show ?thesis using that[of "[]"] by (simp add: members_def)
  next
    case (Some r)
    then show ?thesis using that[OF inv_lookup(1,2)[OF assms(1)]] by simp
  qed
  then show ?thesis using rng[OF assms(1)] rng[OF assms(2)] assms(3) by simp
qed

subsection \<open>The operations on two sets\<close>

lemma members_cover: "idset_inv s \<Longrightarrow> (case map_of s c of None \<Rightarrow> {} | Some r \<Rightarrow> covered (getIDs r)) = members s c"
  by (auto simp: members_def inv_lookup(2) split: option.splits)

lemma inv_entry: "idset_inv s \<Longrightarrow> (c, r) \<in> set s \<Longrightarrow> map_of s c = Some r"
  by (simp add: idset_inv_def)

lemma merge_one:
  assumes "idset_inv out" "idset_inv s"
  shows "idset_inv (foldl (\<lambda>out (c, r). add_ranges c out (getIDs r)) out s) \<and>
    members (foldl (\<lambda>out (c, r). add_ranges c out (getIDs r)) out s) = (\<lambda>c. members out c \<union> members s c)"
proof -
  have "idset_inv (add_ranges c o' (getIDs r)) \<and>
      members (add_ranges c o' (getIDs r)) = (members o')(c := members o' c \<union> covered (getIDs r))"
    if "idset_inv o'" "(c, r) \<in> set s" for o' c r
    using members_add_ranges[OF that(1)] inv_lookup(3)[OF assms(2) inv_entry[OF assms(2) that(2)]] by simp
  then have "idset_inv (foldl (\<lambda>out (c, r). add_ranges c out (getIDs r)) out s) \<and>
      members (foldl (\<lambda>out (c, r). add_ranges c out (getIDs r)) out s) =
        (\<lambda>c. members out c \<union> (case map_of s c of None \<Rightarrow> {} | Some r \<Rightarrow> covered (getIDs r)))"
    using assms by (intro fold_clients) (simp_all add: idset_inv_def)
  then show ?thesis by (simp only: members_cover[OF assms(2)])
qed

lemma MergeIDSets_correct:
  assumes "\<forall>s. Some s \<in> set sets \<longrightarrow> idset_inv s"
  shows "idset_inv (MergeIDSets sets)" "members (MergeIDSets sets) c = (\<Union>s \<in> {s. Some s \<in> set sets}. members s c)"
proof -
  have "idset_inv (foldl (\<lambda>out s. case s of None \<Rightarrow> out
        | Some s \<Rightarrow> foldl (\<lambda>out (c, r). add_ranges c out (getIDs r)) out s) out sets) \<and>
      members (foldl (\<lambda>out s. case s of None \<Rightarrow> out
        | Some s \<Rightarrow> foldl (\<lambda>out (c, r). add_ranges c out (getIDs r)) out s) out sets) c =
      members out c \<union> (\<Union>s \<in> {s. Some s \<in> set sets}. members s c)" if "idset_inv out" for out
    using assms that
  proof (induction sets arbitrary: out)
    case (Cons s sets)
    show ?case
    proof (cases s)
      case None
      then show ?thesis using Cons by simp
    next
      case (Some s')
      then have "{u. Some u \<in> set (s # sets)} = insert s' {u. Some u \<in> set sets}" by auto
      then show ?thesis using Some Cons.prems merge_one[of out s'] Cons.IH[of "foldl (\<lambda>out (c, r). add_ranges c out (getIDs r)) out s'"]
        by (simp add: Un_assoc)
    qed
  qed simp
  from this[OF inv_NewIDSet(1)] show "idset_inv (MergeIDSets sets)"
    "members (MergeIDSets sets) c = (\<Union>s \<in> {s. Some s \<in> set sets}. members s c)"
    by (simp_all add: MergeIDSets_def)
qed

text \<open>\<open>adds client out A out'\<close>: \<open>out'\<close> is \<open>out\<close> with the clocks \<open>A\<close> added for the client.\<close>

definition adds :: "ClientID \<Rightarrow> IDSet \<Rightarrow> nat set \<Rightarrow> IDSet \<Rightarrow> bool" where
  "adds client out A out' \<longleftrightarrow>
     idset_inv out' \<and> members out' = (members out)(client := members out client \<union> A)"

lemma adds_refl: "idset_inv out \<Longrightarrow> A = {} \<Longrightarrow> adds client out A out"
  by (simp add: adds_def)

lemma adds_trans: "adds client out A out1 \<Longrightarrow> adds client out1 B out2 \<Longrightarrow> A \<union> B = C \<Longrightarrow> adds client out C out2"
  by (auto simp: adds_def fun_eq_iff)

lemma adds_Add: "idset_inv out \<Longrightarrow> unat k + unat n < 2 ^ 64 \<Longrightarrow> adds client out (span k n) (IDSet_Add out client k n)"
  by (simp add: adds_def members_Add)

lemma adds_ranges: "idset_inv out \<Longrightarrow> \<forall>r \<in> set rgs. fits r \<Longrightarrow> adds client out (covered rgs) (add_ranges client out rgs)"
  by (simp add: adds_def members_add_ranges)

lemma adds_inv: "adds client out A out' \<Longrightarrow> idset_inv out'"
  by (simp add: adds_def)

lemma adds_range:
  "idset_inv out \<Longrightarrow> fits r \<Longrightarrow>
   adds client out (clocks r) (if Len r > 0 then IDSet_Add out client (Clock r) (Len r) else out)"
  using adds_Add[of out "Clock r" "Len r" client] adds_refl[of out "{}" client]
  by (auto simp: fits_def clocks_def word_less_nat_alt unat_eq_0)

lemma normal_bound: "normal (r # rs) \<Longrightarrow> n \<in> covered rs \<Longrightarrow> stop r < n"
  by (auto simp: normal_Cons clocks_def intro: order.strict_trans2)

lemma interval_diff: "a' \<le> a \<Longrightarrow> a < b' \<Longrightarrow> {a..<b::nat} - {a'..<b'} = {b'..<b}"
  by auto

lemma interval_split:
  fixes a b x y :: nat
  assumes "a < x" "x \<le> y" "\<And>n. n \<in> R \<Longrightarrow> b < n" "\<And>n. n \<in> E \<Longrightarrow> y < n"
  shows "y < b \<Longrightarrow> {a..<x} \<union> ({y..<b} \<union> R - E) = {a..<b} \<union> R - ({x..<y} \<union> E)"
    and "x < b \<Longrightarrow> b \<le> y \<Longrightarrow> {a..<x} \<union> (R - ({x..<y} \<union> E)) = {a..<b} \<union> R - ({x..<y} \<union> E)"
  using assms by (force dest!: assms(3,4))+

lemma exclude_loop_correct:
  assumes "idset_inv out" "fits cur" "\<forall>n \<in> covered rest. stop cur < n" "normal rest" "normal es"
  shows "adds client out ((clocks cur \<union> covered rest) - covered es) (exclude_loop client out cur rest es)"
  using assms
proof (induction client out cur rest es rule: exclude_loop.induct)
  case (1 client out cur rest)
  note a = adds_range[OF 1(1,2), of client]
  show ?case
    using adds_trans[OF a adds_ranges[OF adds_inv[OF a]], of rest "clocks cur \<union> covered rest"] 1(4)
    by (simp add: normal_def)
next
  case (2 client out cur rest e es)
  define R E where "R = covered rest" and "E = covered es"
  note inv = "2.prems"(1) and fc = "2.prems"(2)
  have fe: "fits e" "normal es" "Len e \<noteq> 0" using "2.prems"(5) by (simp_all add: normal_Cons)
  have bE: "\<And>n. n \<in> E \<Longrightarrow> stop e < n" using normal_bound[OF "2.prems"(5)] by (simp add: E_def)
  have bR: "\<And>n. n \<in> R \<Longrightarrow> stop cur < n" using "2.prems"(3) unfolding R_def by blast
  have c1: "Clock cur + Len cur \<le> Clock e \<longleftrightarrow> stop cur \<le> start e"
    and c2: "Clock e + Len e \<le> Clock cur \<longleftrightarrow> stop e \<le> start cur"
    and c3: "Clock e \<le> Clock cur \<longleftrightarrow> start e \<le> start cur"
    and c4: "Clock e + Len e < Clock cur + Len cur \<longleftrightarrow> stop e < stop cur"
    using fc fe(1) by (simp_all add: word_le_nat_alt word_less_nat_alt unat_end)
  have cc: "clocks cur = {start cur..<stop cur}" "clocks e = {start e..<stop e}" by (simp_all add: clocks_def)
  have goal: "clocks cur \<union> covered rest - covered (e # es) = clocks cur \<union> R - (clocks e \<union> E)"
    by (simp add: R_def E_def)
  have step: "adds client out' (R - (clocks e \<union> E))
      (case rest of [] \<Rightarrow> out' | c # cs \<Rightarrow> exclude_loop client out' c cs (e # es))"
    if "idset_inv out'" and "\<And>c cs. rest = c # cs \<Longrightarrow> fits c \<Longrightarrow> \<forall>n \<in> covered cs. stop c < n \<Longrightarrow> normal cs \<Longrightarrow>
        adds client out' (clocks c \<union> covered cs - covered (e # es)) (exclude_loop client out' c cs (e # es))" for out'
  proof (cases rest)
    case Nil
    then show ?thesis using that(1) by (simp add: R_def adds_refl)
  next
    case (Cons c cs)
    then have "fits c" "normal cs" "\<forall>n \<in> covered cs. stop c < n"
      using "2.prems"(4) normal_bound by (auto simp only: normal_Cons)
    from that(2)[OF Cons this(1,3,2)] show ?thesis by (simp add: Cons R_def E_def)
  qed
  consider (before) "stop cur \<le> start e" | (after) "\<not> stop cur \<le> start e" "stop e \<le> start cur"
    | (tail) "\<not> stop cur \<le> start e" "\<not> stop e \<le> start cur" "start e \<le> start cur" "stop e < stop cur"
    | (inside) "\<not> stop cur \<le> start e" "\<not> stop e \<le> start cur" "start e \<le> start cur" "\<not> stop e < stop cur"
    | (head) "\<not> stop cur \<le> start e" "\<not> stop e \<le> start cur" "\<not> start e \<le> start cur" by blast
  then show ?case
  proof cases
    case before
    let ?o = "if Len cur > 0 then IDSet_Add out client (Clock cur) (Len cur) else out"
    note a = adds_range[OF inv fc, of client]
    have eq: "exclude_loop client out cur rest (e # es) =
        (case rest of [] \<Rightarrow> ?o | c # cs \<Rightarrow> exclude_loop client ?o c cs (e # es))"
      using before c1 by (simp add: Let_def)
    have "adds client ?o (R - (clocks e \<union> E)) (exclude_loop client out cur rest (e # es))"
      unfolding eq
    proof (rule step[OF adds_inv[OF a]])
      fix c cs
      assume "rest = c # cs" "fits c" "\<forall>n \<in> covered cs. stop c < n" "normal cs"
      then show "adds client ?o (clocks c \<union> covered cs - covered (e # es)) (exclude_loop client ?o c cs (e # es))"
        using "2.IH"(1)[OF iffD2[OF c1 before] refl _ adds_inv[OF a]] "2.prems"(5) by blast
    qed
    moreover have "clocks cur \<inter> (clocks e \<union> E) = {}" using before by (auto simp: clocks_def dest!: bE)
    then have "clocks cur \<union> (R - (clocks e \<union> E)) = clocks cur \<union> R - (clocks e \<union> E)" by blast
    ultimately show ?thesis unfolding goal by (rule adds_trans[OF a])
  next
    case after
    have eq: "exclude_loop client out cur rest (e # es) = exclude_loop client out cur rest es"
      using after c1 c2 by simp
    have "(clocks cur \<union> R) \<inter> clocks e = {}" using after by (auto simp: clocks_def dest!: bR)
    then have "clocks cur \<union> R - (clocks e \<union> E) = clocks cur \<union> covered rest - covered es"
      unfolding R_def E_def by blast
    then show ?thesis unfolding goal eq
      using "2.IH"(2)[OF _ _ inv fc "2.prems"(3,4) fe(2)] after c1 c2 by simp
  next
    case tail
    define c where "c = \<lparr>Clock = Clock e + Len e, Len = Clock cur + Len cur - (Clock e + Len e)\<rparr>"
    have c: "fits c" "start c = stop e" "stop c = stop cur"
      using tail fc fe(1) by (simp_all add: c_def fits_def unat_end unat_sub word_le_nat_alt)
    have eq: "exclude_loop client out cur rest (e # es) = exclude_loop client out c rest es"
      using tail c1 c2 c3 c4 by (simp add: Let_def c_def)
    have "clocks c = {stop e..<stop cur}" unfolding clocks_def by (rule arg_cong2[OF c(2,3)])
    then have "clocks cur - clocks e = clocks c"
      using tail(2,3) unfolding cc by (simp only: interval_diff not_le)
    moreover have "R \<inter> clocks e = {}"
    proof (rule ccontr)
      assume "R \<inter> clocks e \<noteq> {}"
      then obtain n where "n \<in> R" "n < stop e" unfolding cc by auto
      with bR[of n] tail(4) show False by linarith
    qed
    ultimately have "clocks cur \<union> R - (clocks e \<union> E) = clocks c \<union> covered rest - covered es"
      unfolding R_def E_def by blast
    moreover have "\<forall>n \<in> covered rest. stop c < n" unfolding c(3) using "2.prems"(3) .
    ultimately show ?thesis unfolding goal eq
      using "2.IH"(3)[OF _ _ _ refl refl, folded c_def, OF _ _ _ _ inv c(1) _ "2.prems"(4) fe(2)] tail c1 c2 c3 c4 by simp
  next
    case inside
    have eq: "exclude_loop client out cur rest (e # es) =
        (case rest of [] \<Rightarrow> out | c # cs \<Rightarrow> exclude_loop client out c cs (e # es))"
      using inside c1 c2 c3 c4 by (simp add: Let_def)
    have "clocks cur \<union> R - (clocks e \<union> E) = R - (clocks e \<union> E)" using inside by (auto simp: clocks_def)
    moreover have "adds client out (R - (clocks e \<union> E)) (exclude_loop client out cur rest (e # es))"
      unfolding eq
    proof (rule step[OF inv])
      fix c cs
      assume "rest = c # cs" "fits c" "\<forall>n \<in> covered cs. stop c < n" "normal cs"
      then show "adds client out (clocks c \<union> covered cs - covered (e # es)) (exclude_loop client out c cs (e # es))"
        using "2.IH"(4)[OF _ _ _ refl refl _ _ inv] inside c1 c2 c3 c4 "2.prems"(5) by simp
    qed
    ultimately show ?thesis unfolding goal by simp
  next
    case head
    let ?h = "Clock e - Clock cur"
    let ?o = "IDSet_Add out client (Clock cur) ?h"
    have h: "unat ?h = start e - start cur" using head by (intro unat_sub) (simp add: word_le_nat_alt)
    then have lh: "unat (Len e + ?h) = stop e - start cur"
      using fe(1) head(3) by (subst unat_add_fits) (simp_all add: fits_def)
    have c5: "Len e + ?h < Len cur \<longleftrightarrow> stop e < stop cur"
      unfolding word_less_nat_alt lh using head by linarith
    have a: "adds client out {start cur..<start e} ?o"
      using adds_Add[OF inv, of "Clock cur" ?h client] h head(3) unsigned_less[of "Clock e"] by simp
    show ?thesis
    proof (cases "stop e < stop cur")
      case True
      define c where "c = \<lparr>Clock = Clock cur + ?h + Len e, Len = Len cur - Len e - ?h\<rparr>"
      have "Len cur - Len e - ?h = Len cur - (Len e + ?h)" by simp
      then have "unat (Len cur - Len e - ?h) = stop cur - stop e"
        using True c5 lh head(3) by (simp add: unat_sub word_less_nat_alt word_le_nat_alt)
      then have c: "fits c" "start c = stop e" "stop c = stop cur" "Len c \<noteq> 0"
        using True fc fe(1) by (auto simp: c_def fits_def unat_end simp flip: unat_eq_0)
      have c_eq: "c = \<lparr>Clock = Clock cur + ?h + Len e, Len = (if Len cur > Len e + ?h then Len cur - Len e - ?h else 0)\<rparr>"
        using c5 True by (simp add: c_def)
      have eq: "exclude_loop client out cur rest (e # es) = exclude_loop client ?o c rest es"
        using head True c1 c2 c3 c5 c(4) by (simp add: Let_def c_def)
      have "\<forall>n \<in> covered rest. stop c < n" unfolding c(3) using "2.prems"(3) .
      then have "adds client ?o (clocks c \<union> covered rest - covered es) (exclude_loop client out cur rest (e # es))"
        unfolding eq
        using "2.IH"(6)[OF _ _ _ refl refl refl c_eq c(4) adds_inv[OF a] c(1) _ "2.prems"(4) fe(2)] head c1 c2 c3 by simp
      moreover have "clocks c = {stop e..<stop cur}" unfolding clocks_def by (rule arg_cong2[OF c(2,3)])
      then have "{start cur..<start e} \<union> (clocks c \<union> R - E) = clocks cur \<union> R - (clocks e \<union> E)"
        unfolding cc using interval_split(1)[OF _ _ bR bE, of "start cur" "start e"] head True by simp
      ultimately show ?thesis unfolding goal R_def E_def by (rule adds_trans[OF a])
    next
      case False
      have eq: "exclude_loop client out cur rest (e # es) =
          (case rest of [] \<Rightarrow> ?o | c # cs \<Rightarrow> exclude_loop client ?o c cs (e # es))"
        using head False c1 c2 c3 c5 by (simp add: Let_def)
      have "adds client ?o (R - (clocks e \<union> E)) (exclude_loop client out cur rest (e # es))"
        unfolding eq
      proof (rule step[OF adds_inv[OF a]])
        fix c cs
        assume "rest = c # cs" "fits c" "\<forall>n \<in> covered cs. stop c < n" "normal cs"
        then show "adds client ?o (clocks c \<union> covered cs - covered (e # es)) (exclude_loop client ?o c cs (e # es))"
          using "2.IH"(5)[OF _ _ _ refl refl refl refl, OF _ _ _ _ _ adds_inv[OF a]] head False c1 c2 c3 c5 "2.prems"(5) by simp
      qed
      moreover have "{start cur..<start e} \<union> (R - (clocks e \<union> E)) = clocks cur \<union> R - (clocks e \<union> E)"
        unfolding cc using interval_split(2)[OF _ _ bR bE, of "start cur" "start e"] head False by simp
      ultimately show ?thesis unfolding goal by (rule adds_trans[OF a])
    qed
  qed
qed

lemma intersect_step:
  assumes "idset_inv out" "fits ra" "fits rb"
  shows "adds client out (clocks ra \<inter> clocks rb)
    (let clock = max (Clock ra) (Clock rb); end = min (Clock ra + Len ra) (Clock rb + Len rb)
     in if end > clock then IDSet_Add out client clock (end - clock) else out)"
proof -
  define lo hi where "lo = max (Clock ra) (Clock rb)" and "hi = min (Clock ra + Len ra) (Clock rb + Len rb)"
  have u: "unat lo = max (start ra) (start rb)" "unat hi = min (stop ra) (stop rb)"
    using unat_end[OF assms(2)] unat_end[OF assms(3)]
    by (auto simp: lo_def hi_def max_def min_def word_le_nat_alt)
  have i: "clocks ra \<inter> clocks rb = {unat lo..<unat hi}" by (auto simp: u clocks_def)
  show ?thesis
  proof (cases "hi > lo")
    case True
    then have "unat (hi - lo) = unat hi - unat lo" "unat lo \<le> unat hi"
      by (auto simp: unat_sub word_less_nat_alt word_le_nat_alt)
    then show ?thesis
      using True adds_Add[OF assms(1), of lo "hi - lo" client] unsigned_less[of hi] i
      by (simp add: Let_def flip: lo_def hi_def)
  next
    case False
    then show ?thesis using i assms(1) by (simp add: Let_def adds_refl word_less_nat_alt flip: lo_def hi_def)
  qed
qed

lemma intersect_loop_correct:
  "idset_inv out \<Longrightarrow> normal ras \<Longrightarrow> normal rbs \<Longrightarrow>
   adds client out (covered ras \<inter> covered rbs) (intersect_loop client out ras rbs)"
proof (induction client out ras rbs rule: intersect_loop.induct)
  case (1 client out ra ras rb rbs)
  define A B where "A = covered ras" and "B = covered rbs"
  have f: "fits ra" "fits rb" "normal ras" "normal rbs" using "1.prems" by (simp_all add: normal_Cons)
  have bA: "\<And>n. n \<in> A \<Longrightarrow> stop ra < n" and bB: "\<And>n. n \<in> B \<Longrightarrow> stop rb < n"
    using normal_bound[OF "1.prems"(2)] normal_bound[OF "1.prems"(3)] by (auto simp only: A_def B_def)
  have cc: "clocks ra = {start ra..<stop ra}" "clocks rb = {start rb..<stop rb}" by (simp_all add: clocks_def)
  define o1 where "o1 = (if min (Clock ra + Len ra) (Clock rb + Len rb) > max (Clock ra) (Clock rb)
      then IDSet_Add out client (max (Clock ra) (Clock rb))
        (min (Clock ra + Len ra) (Clock rb + Len rb) - max (Clock ra) (Clock rb)) else out)"
  have a: "adds client out (clocks ra \<inter> clocks rb) o1"
    using intersect_step[OF "1.prems"(1) f(1,2), of client] by (simp only: o1_def Let_def)
  have cmp: "Clock ra + Len ra < Clock rb + Len rb \<longleftrightarrow> stop ra < stop rb"
    using f by (simp add: word_less_nat_alt unat_end)
  show ?case
  proof (cases "stop ra < stop rb")
    case True
    have eq: "intersect_loop client out (ra # ras) (rb # rbs) = intersect_loop client o1 ras (rb # rbs)"
      using True cmp by (simp add: Let_def o1_def)
    have "clocks ra \<inter> B = {}" using True bB unfolding cc by fastforce
    then have "(clocks ra \<inter> clocks rb) \<union> (covered ras \<inter> covered (rb # rbs)) = covered (ra # ras) \<inter> covered (rb # rbs)"
      unfolding B_def by auto
    moreover have "adds client o1 (covered ras \<inter> covered (rb # rbs)) (intersect_loop client o1 ras (rb # rbs))"
      using "1.IH"(1)[OF refl refl refl refl o1_def _ adds_inv[OF a] f(3) "1.prems"(3)] True cmp by blast
    ultimately show ?thesis unfolding eq by (intro adds_trans[OF a])
  next
    case False
    have eq: "intersect_loop client out (ra # ras) (rb # rbs) = intersect_loop client o1 (ra # ras) rbs"
      using False cmp by (simp add: Let_def o1_def)
    have "A \<inter> clocks rb = {}" using False bA unfolding cc by fastforce
    then have "(clocks ra \<inter> clocks rb) \<union> (covered (ra # ras) \<inter> covered rbs) = covered (ra # ras) \<inter> covered (rb # rbs)"
      unfolding A_def by auto
    moreover have "adds client o1 (covered (ra # ras) \<inter> covered rbs) (intersect_loop client o1 (ra # ras) rbs)"
      using "1.IH"(2)[OF refl refl refl refl o1_def _ adds_inv[OF a] "1.prems"(2) f(4)] False cmp by blast
    ultimately show ?thesis unfolding eq by (intro adds_trans[OF a])
  qed
qed (simp_all add: adds_refl)

lemma fold_adds:
  assumes "\<And>out c r. idset_inv out \<Longrightarrow> (c, r) \<in> set s \<Longrightarrow> adds c out (A c r) (f out (c, r))"
    and "distinct (map fst s)"
  shows "idset_inv (foldl f NewIDSet s) \<and>
    members (foldl f NewIDSet s) = (\<lambda>c. case map_of s c of None \<Rightarrow> {} | Some r \<Rightarrow> A c r)"
  using fold_clients[of s f A NewIDSet] assms by (simp add: adds_def)

lemma ExcludeIDSet_correct:
  assumes "idset_inv s" "idset_inv ex"
  shows "idset_inv (ExcludeIDSet (Some s) (Some ex)) \<and>
    members (ExcludeIDSet (Some s) (Some ex)) = (\<lambda>c. members s c - members ex c)"
proof -
  let ?f = "\<lambda>out (client, r).
             case getIDs r of [] \<Rightarrow> out
             | cur # rest \<Rightarrow>
               (case map_of ex client of None \<Rightarrow> add_ranges client out (cur # rest)
                | Some er \<Rightarrow> exclude_loop client out cur rest (getIDs er))"
  have "adds c out (members s c - members ex c) (?f out (c, r))" if o: "idset_inv out" and e: "(c, r) \<in> set s" for out c r
  proof -
    note l = inv_lookup[OF assms(1) inv_entry[OF assms(1) e]]
    show ?thesis
    proof (cases "getIDs r")
      case Nil
      then show ?thesis using l(2) o by (simp add: adds_refl)
    next
      case (Cons cur rest)
      have nc: "normal (cur # rest)" using l(1) unfolding Cons .
      then have n: "fits cur" "normal rest" unfolding normal_Cons by blast+
      have b: "\<forall>n \<in> covered rest. stop cur < n" using normal_bound[OF nc] by blast
      have u: "clocks cur \<union> covered rest = members s c" using l(2) unfolding Cons by simp
      show ?thesis
      proof (cases "map_of ex c")
        case None
        then have "members ex c = {}" by (simp add: members_def)
        then show ?thesis using adds_ranges[OF o l(3)] None l(2) Cons by simp
      next
        case (Some er)
        note x = inv_lookup[OF assms(2) Some]
        from exclude_loop_correct[OF o n(1) b n(2) x(1), of c] show ?thesis
          unfolding u x(2) by (simp add: Cons Some)
      qed
    qed
  qed
  then have "idset_inv (foldl ?f NewIDSet s) \<and>
      members (foldl ?f NewIDSet s) = (\<lambda>c. case map_of s c of None \<Rightarrow> {} | Some r \<Rightarrow> members s c - members ex c)"
    using assms(1) by (intro fold_adds) (simp_all only: idset_inv_def)
  moreover have "(case map_of s c of None \<Rightarrow> {} | Some r \<Rightarrow> members s c - members ex c) = members s c - members ex c" for c
    by (simp add: members_def split: option.splits)
  ultimately show ?thesis by (simp only: ExcludeIDSet_def option.case)
qed

lemma IntersectIDSets_correct:
  assumes "idset_inv a" "idset_inv b"
  shows "idset_inv (IntersectIDSets (Some a) (Some b)) \<and>
    members (IntersectIDSets (Some a) (Some b)) = (\<lambda>c. members a c \<inter> members b c)"
proof -
  let ?f = "\<lambda>out (client, ar). case map_of b client of None \<Rightarrow> out
            | Some br \<Rightarrow> intersect_loop client out (getIDs ar) (getIDs br)"
  have "adds c out (members a c \<inter> members b c) (?f out (c, r))" if o: "idset_inv out" and e: "(c, r) \<in> set a" for out c r
  proof (cases "map_of b c")
    case None
    then have "members b c = {}" by (simp add: members_def)
    then show ?thesis using None o by (simp add: adds_refl)
  next
    case (Some br)
    note l = inv_lookup[OF assms(1) inv_entry[OF assms(1) e]] and x = inv_lookup[OF assms(2) Some]
    from intersect_loop_correct[OF o l(1) x(1), of c] show ?thesis unfolding l(2) x(2) by (simp add: Some)
  qed
  then have "idset_inv (foldl ?f NewIDSet a) \<and>
      members (foldl ?f NewIDSet a) = (\<lambda>c. case map_of a c of None \<Rightarrow> {} | Some r \<Rightarrow> members a c \<inter> members b c)"
    using assms(1) by (intro fold_adds) (simp_all only: idset_inv_def)
  moreover have "(case map_of a c of None \<Rightarrow> {} | Some r \<Rightarrow> members a c \<inter> members b c) = members a c \<inter> members b c" for c
    by (simp add: members_def split: option.splits)
  ultimately show ?thesis by (simp only: IntersectIDSets_def option.case prod.case)
qed

subsection \<open>The interface of an identifier set\<close>

locale id_set = clock_set empty add has union abs inv
  for empty :: 's
    and add :: "'s \<Rightarrow> ClientID \<Rightarrow> u64 \<Rightarrow> u64 \<Rightarrow> 's"
    and has :: "'s \<Rightarrow> ClientID \<Rightarrow> u64 \<Rightarrow> bool"
    and union :: "'s \<Rightarrow> 's \<Rightarrow> 's"
    and abs :: "'s \<Rightarrow> ClientID \<Rightarrow> nat set"
    and inv :: "'s \<Rightarrow> bool" +
  fixes diff inter :: "'s \<Rightarrow> 's \<Rightarrow> 's"
  assumes diff: "inv a \<Longrightarrow> inv b \<Longrightarrow> inv (diff a b)" "inv a \<Longrightarrow> inv b \<Longrightarrow> abs (diff a b) = (\<lambda>c. abs a c - abs b c)"
    and inter: "inv a \<Longrightarrow> inv b \<Longrightarrow> inv (inter a b)" "inv a \<Longrightarrow> inv b \<Longrightarrow> abs (inter a b) = (\<lambda>c. abs a c \<inter> abs b c)"
begin

lemma has_algebra:
  assumes "inv a" "inv b"
  shows "has (diff a b) c k \<longleftrightarrow> has a c k \<and> \<not> has b c k"
    and "has (inter a b) c k \<longleftrightarrow> has a c k \<and> has b c k"
  using assms by (auto simp: has diff inter)

text \<open>Difference and intersection split a set; taking out what was put in gives the rest.\<close>

lemma split: "inv a \<Longrightarrow> inv b \<Longrightarrow> abs (union (diff a b) (inter a b)) c = abs a c"
  by (auto simp: union diff inter)

lemma union_diff: "inv a \<Longrightarrow> inv b \<Longrightarrow> abs (diff (union a b) b) c = abs (diff a b) c"
  by (auto simp: union diff)

lemma diff_union: "inv a \<Longrightarrow> inv b \<Longrightarrow> inv d \<Longrightarrow> abs (diff a (union b d)) c = abs (diff (diff a b) d) c"
  by (auto simp: union diff)

end

interpretation idset: id_set NewIDSet IDSet_Add IDSet_Has "\<lambda>a b. MergeIDSets [Some a, Some b]" members idset_inv
    "\<lambda>a b. ExcludeIDSet (Some a) (Some b)" "\<lambda>a b. IntersectIDSets (Some a) (Some b)"
proof
  fix a b :: IDSet
  assume inv: "idset_inv a" "idset_inv b"
  have "{s. Some s \<in> set [Some a, Some b]} = {a, b}" by auto
  then show "idset_inv (MergeIDSets [Some a, Some b])"
    "members (MergeIDSets [Some a, Some b]) = (\<lambda>c. members a c \<union> members b c)"
    using MergeIDSets_correct[of "[Some a, Some b]"] inv by (auto simp: fun_eq_iff)
  show "idset_inv (ExcludeIDSet (Some a) (Some b))"
    "members (ExcludeIDSet (Some a) (Some b)) = (\<lambda>c. members a c - members b c)"
    using ExcludeIDSet_correct[OF inv] by simp_all
  show "idset_inv (IntersectIDSets (Some a) (Some b))"
    "members (IntersectIDSets (Some a) (Some b)) = (\<lambda>c. members a c \<inter> members b c)"
    using IntersectIDSets_correct[OF inv] by simp_all
qed (simp_all only: inv_NewIDSet members_Add IDSet_Has_correct)

lemma IDSet_IsEmpty_correct: "idset_inv s \<Longrightarrow> IDSet_IsEmpty s \<longleftrightarrow> (\<forall>c. members s c = {})"
proof -
  assume inv: "idset_inv s"
  have "IDSet_IsEmpty s \<longleftrightarrow> set (IDSet_Clients s) = {}"
    by (auto simp: IDSet_IsEmpty_def IDSet_Clients_def list_all_iff)
  then show ?thesis unfolding IDSet_Clients_correct(1)[OF inv] by blast
qed

lemma IDSet_Clone_correct:
  assumes "idset_inv s"
  shows "idset_inv (IDSet_Clone s)" "members (IDSet_Clone s) = members s"
proof -
  have m: "map fst (IDSet_Clone s) = map fst s" by (simp add: IDSet_Clone_def case_prod_unfold)
  have k: "map_of (IDSet_Clone s) c = map_option (\<lambda>r. \<lparr>is_sorted = True, ids = getIDs r\<rparr>) (map_of s c)" for c
    unfolding IDSet_Clone_def by (induction s) auto
  have "\<forall>(c, r) \<in> set s. ranges_inv \<lparr>is_sorted = True, ids = getIDs r\<rparr>"
    using assms getIDs_normal by (fastforce simp: idset_inv_def ranges_inv_def normal_fits)
  then show "idset_inv (IDSet_Clone s)" using assms unfolding idset_inv_def m by (auto simp: IDSet_Clone_def)
  show "members (IDSet_Clone s) = members s"
    using inv_lookup(2)[OF assms] by (auto simp: fun_eq_iff members_def k split: option.splits)
qed

subsection \<open>Properties\<close>

lemma idset_example:
  defines "s \<equiv> IDSet_Add (IDSet_Add (IDSet_Add NewIDSet 7 20 5) 7 0 10) 9 4 4"
    and "t \<equiv> IDSet_Add (IDSet_Add NewIDSet 7 3 4) 7 22 9"
  shows "idset_inv s" "idset_inv t"
  unfolding s_def t_def by (intro idset.add(1) idset.empty(1); simp)+

text \<open>
  C13: the difference of two identifier sets holds exactly the identifiers of the first that the
  second does not hold, the intersection exactly those that both hold.
\<close>

theorem idset_exclude_intersect:
  assumes "idset_inv a" "idset_inv b"
  shows "(IDSet_Has (ExcludeIDSet (Some a) (Some b)) client clock \<longleftrightarrow>
      IDSet_Has a client clock \<and> \<not> IDSet_Has b client clock) \<and>
    (IDSet_Has (IntersectIDSets (Some a) (Some b)) client clock \<longleftrightarrow>
      IDSet_Has a client clock \<and> IDSet_Has b client clock)"
  by (simp only: idset.has_algebra[OF assms])

theorem idset_exclude_intersect_witness:
  "let a = IDSet_Add (IDSet_Add (IDSet_Add NewIDSet 7 20 5) 7 0 10) 9 4 4;
       b = IDSet_Add (IDSet_Add NewIDSet 7 3 4) 7 22 9
   in IDSet_Has (ExcludeIDSet (Some a) (Some b)) 7 8 \<and> \<not> IDSet_Has (ExcludeIDSet (Some a) (Some b)) 7 5 \<and>
      IDSet_Has (IntersectIDSets (Some a) (Some b)) 7 24"
  unfolding Let_def conjunct1[OF idset_exclude_intersect[OF idset_example]]
    conjunct2[OF idset_exclude_intersect[OF idset_example]] by code_simp

text \<open>
  C15: the union of identifier sets does not depend on the order in which the sets are given: the
  same clients in the same order, and for every client the same runs.
\<close>

theorem merge_order_irrelevant:
  assumes "\<forall>s. Some s \<in> set sets \<longrightarrow> idset_inv s" "mset sets = mset sets'"
  shows "IDSet_Clients (MergeIDSets sets) = IDSet_Clients (MergeIDSets sets') \<and>
    IDSet_Ranges (MergeIDSets sets) client = IDSet_Ranges (MergeIDSets sets') client"
proof -
  have e: "set sets = set sets'" using assms(2) by (metis set_mset_mset)
  have m: "idset_inv (MergeIDSets sets)" "idset_inv (MergeIDSets sets')"
    "members (MergeIDSets sets) = members (MergeIDSets sets')"
    using MergeIDSets_correct[of sets] MergeIDSets_correct[of sets'] assms(1) unfolding e by (simp_all add: fun_eq_iff)
  have "IDSet_Clients (MergeIDSets sets) = IDSet_Clients (MergeIDSets sets')"
    using IDSet_Clients_correct[OF m(1)] IDSet_Clients_correct[OF m(2)] m(3) sorted_distinct_set_unique by metis
  moreover have "IDSet_Ranges (MergeIDSets sets) client = IDSet_Ranges (MergeIDSets sets') client"
    by (rule IDSet_Ranges_canonical[OF m(1,2)]) (simp add: m(3))
  ultimately show ?thesis ..
qed

theorem merge_order_irrelevant_witness:
  "IDSet_Ranges (MergeIDSets [Some (IDSet_Add (IDSet_Add NewIDSet 7 3 4) 7 22 9), None, Some NewIDSet]) 7 =
   IDSet_Ranges (MergeIDSets [Some NewIDSet, Some (IDSet_Add (IDSet_Add NewIDSet 7 3 4) 7 22 9), None]) 7"
  by (rule conjunct2[OF merge_order_irrelevant]) (auto intro: idset_example)

end
