(* ===== verification/Id_Map.thy ===== *)
theory Id_Map
  imports Any_Codec Id_Set
begin

text \<open>
  Attributed identifier maps: \<^verbatim>\<open>src/crdt/idmap.go\<close>, \<^verbatim>\<open>src/crdt/idmap_ops.go\<close> and the pure part of \<^verbatim>\<open>src/crdt/contentmap.go\<close>.
  Attributes are compared by pointer, so they are addresses into a heap of attribute objects that
  nothing mutates; interning makes pointer identity value identity.  \<open>remarks\<close> is the abstraction:
  what a list of attributed runs says of a clock.
\<close>

subsection \<open>Attributes\<close>

record ContentAttribute =
  Name :: gostring
  Value :: goany

fun validateAnyValue :: "goany \<Rightarrow> bool" where
  "validateAnyValue (AArray xs) = list_all validateAnyValue xs"
| "validateAnyValue (AMap kvs) = list_all (\<lambda>kv. validateAnyValue (snd kv)) kvs"
| "validateAnyValue AOther = False"
| "validateAnyValue v = True"

datatype attr_error = AttrErrInvalidUTF8 | ErrUnsupportedAttributeValue

definition NewContentAttribute :: "gostring \<Rightarrow> goany \<Rightarrow> attr_error + ContentAttribute" where
  "NewContentAttribute name value =
     (if \<not> valid_utf8 name then Inl AttrErrInvalidUTF8
      else if \<not> validateAnyValue value then Inl ErrUnsupportedAttributeValue
      else Inr \<lparr>Name = name, Value = value\<rparr>)"

text \<open>Encoding an attribute panics on what the writers refuse.\<close>

definition attrKey :: "ContentAttribute \<Rightarrow> enc_error + byte list" where
  "attrKey a = ebind (WriteVarString [] (Name a)) (WriteAny (Value a))"

type_synonym attr_ptr = nat
type_synonym attr_heap = "attr_ptr \<Rightarrow> ContentAttribute"

text \<open>\<open>None\<close> is the nil slice that marks a gap in the result of \<open>Slice\<close>.\<close>

record AttrRange =
  aClock :: u64
  aLen :: u64
  Attrs :: "attr_ptr list option"

definition attr_list :: "AttrRange \<Rightarrow> attr_ptr list" where
  "attr_list r = (case Attrs r of None \<Rightarrow> [] | Some l \<Rightarrow> l)"

definition attrsHas :: "attr_ptr list \<Rightarrow> attr_ptr \<Rightarrow> bool" where
  "attrsHas attrs attr = list_ex (\<lambda>a. a = attr) attrs"

definition attrsEqual :: "attr_ptr list \<Rightarrow> attr_ptr list \<Rightarrow> bool" where
  "attrsEqual a b = (if length a \<noteq> length b then False else list_all (attrsHas b) a)"

definition attrsJoin :: "attr_ptr list \<Rightarrow> attr_ptr list \<Rightarrow> attr_ptr list" where
  "attrsJoin a b = a @ filter (\<lambda>attr. \<not> attrsHas a attr) b"

subsection \<open>Normalising attributed runs\<close>

record attrRanges =
  a_sorted :: bool
  a_ids :: "AttrRange list"

definition attrRanges_add :: "attrRanges \<Rightarrow> u64 \<Rightarrow> u64 \<Rightarrow> attr_ptr list \<Rightarrow> attrRanges" where
  "attrRanges_add r clock length' attrs =
     (if length' = 0 then r
      else \<lparr>a_sorted = False, a_ids = a_ids r @ [\<lparr>aClock = clock, aLen = length', Attrs = Some attrs\<rparr>]\<rparr>)"

text \<open>One element moved right until the clocks are in order.\<close>

fun bubble :: "AttrRange \<Rightarrow> AttrRange list \<Rightarrow> AttrRange list" where
  "bubble x [] = [x]"
| "bubble x (y # ys) = (if aClock x > aClock y then y # bubble x ys else x # y # ys)"

text \<open>The splitting loop of \<open>getIDs\<close>; the argument is the part of the slice from the cursor on.\<close>

lemma bubble_measure: "sum_list (map (\<lambda>r. unat (aLen r)) (bubble x ys)) = unat (aLen x) + sum_list (map (\<lambda>r. unat (aLen r)) ys)"
    "length (bubble x ys) = Suc (length ys)"
  by (induction x ys rule: bubble.induct) auto

lemma overlap_diff:
  assumes "c < n" "(c::u64) + l > n"
  shows "unat (n - c) < unat l" "0 < unat (n - c)"
proof -
  have d: "unat (n - c) = unat n - unat c" "unat c < unat n"
    using assms(1) by (simp_all add: word_less_nat_alt unat_sub word_le_nat_alt)
  show "unat (n - c) < unat l"
  proof (rule ccontr)
    assume n: "\<not> unat (n - c) < unat l"
    then have "unat c + unat l \<le> unat n" using d by linarith
    then have "unat (c + l) = unat c + unat l"
      using unsigned_less[of n, where ?'a = nat] by (intro unat_add_fits) simp
    then show False using assms(2) n d by (simp add: word_less_nat_alt)
  qed
  show "0 < unat (n - c)" using d by simp
qed

function attr_split :: "AttrRange list \<Rightarrow> AttrRange list" where
  "attr_split [] = []"
| "attr_split [r] = [r]"
| "attr_split (rng # next # rest) =
     (if aClock rng < aClock next then
        (if aClock rng + aLen rng > aClock next
         then let diff = aClock next - aClock rng
              in rng\<lparr>aLen := diff\<rparr> # attr_split (\<lparr>aClock = aClock next, aLen = aLen rng - diff, Attrs = Attrs rng\<rparr> # next # rest)
         else rng # attr_split (next # rest))
      else
        let larger = (if aLen next > aLen rng then next else rng);
            smaller = (if aLen next < aLen rng then aLen next else aLen rng);
            joined = \<lparr>aClock = aClock rng, aLen = smaller, Attrs = Some (attrsJoin (attr_list rng) (attr_list next))\<rparr>;
            tail = (if aLen rng = aLen next then rest
                    else bubble \<lparr>aClock = aClock rng + smaller, aLen = aLen larger - smaller, Attrs = Attrs larger\<rparr> rest)
        in if smaller = 0 then joined # attr_split tail else attr_split (joined # tail))"
  by pat_completeness auto
termination
proof (relation "measures [\<lambda>rs. sum_list (map (\<lambda>r. unat (aLen r)) rs), length]", goal_cases)
  case (2 rng nxt rest x)
  then show ?case using overlap_diff[of "aClock rng" "aClock nxt" "aLen rng"]
    by (simp add: unat_sub word_le_nat_alt)
next
  case (5 rng nxt rest larger smaller joined tail)
  then show ?case
    by (auto simp: bubble_measure unat_sub word_le_nat_alt word_less_nat_alt unat_eq_0 simp flip: unat_gt_0 split: if_splits)
qed (auto simp: bubble_measure unat_sub word_le_nat_alt word_less_nat_alt split: if_splits)

declare attr_split.simps(3) [simp del]

text \<open>The final pass: adjacent runs with the same attributes are joined, empty runs dropped.\<close>

fun attr_merge :: "AttrRange \<Rightarrow> AttrRange list \<Rightarrow> AttrRange list" where
  "attr_merge left [] = (if aLen left = 0 then [] else [left])"
| "attr_merge left (right # rest) =
     (if aClock left + aLen left = aClock right \<and> attrsEqual (attr_list left) (attr_list right)
      then attr_merge (left\<lparr>aLen := aLen left + aLen right\<rparr>) rest
      else if aLen right \<noteq> 0 then left # attr_merge right rest
      else attr_merge left rest)"

definition normalize_attrs :: "AttrRange list \<Rightarrow> AttrRange list" where
  "normalize_attrs rs =
     (case dropWhile (\<lambda>r. aLen r = 0) (attr_split (sort_key aClock rs)) of
        [] \<Rightarrow> [] | r # rest \<Rightarrow> attr_merge r rest)"

definition attrRanges_getIDs :: "attrRanges \<Rightarrow> AttrRange list \<times> attrRanges" where
  "attrRanges_getIDs r =
     (if a_sorted r then (a_ids r, r)
      else let merged = normalize_attrs (a_ids r) in (merged, \<lparr>a_sorted = True, a_ids = merged\<rparr>))"

abbreviation getAttrs :: "attrRanges \<Rightarrow> AttrRange list" where
  "getAttrs r \<equiv> fst (attrRanges_getIDs r)"

subsection \<open>The map\<close>

record IDMap =
  m_clients :: "(ClientID \<times> attrRanges) list"
  interned :: "(byte list \<times> attr_ptr) list"

definition NewIDMap :: IDMap where
  "NewIDMap = \<lparr>m_clients = [], interned = []\<rparr>"

fun intern :: "attr_heap \<Rightarrow> attr_ptr list \<Rightarrow> (byte list \<times> attr_ptr) list \<Rightarrow> enc_error + attr_ptr list \<times> (byte list \<times> attr_ptr) list" where
  "intern h [] tab = Inr ([], tab)"
| "intern h (a # as') tab =
     ebind (attrKey (h a)) (\<lambda>k.
       let (x, tab) = (case map_of tab k of Some canon \<Rightarrow> (canon, tab) | None \<Rightarrow> (a, map_put k a tab))
       in ebind (intern h as' tab) (\<lambda>(out, tab). Inr (x # out, tab)))"

definition IDMap_Add :: "attr_heap \<Rightarrow> IDMap \<Rightarrow> ClientID \<Rightarrow> u64 \<Rightarrow> u64 \<Rightarrow> attr_ptr list \<Rightarrow> enc_error + IDMap" where
  "IDMap_Add h m client clock length' attrs =
     (if length' = 0 then Inr m
      else ebind (intern h attrs (interned m)) (\<lambda>(attrs, tab).
        let r = (case map_of (m_clients m) client of
                   None \<Rightarrow> \<lparr>a_sorted = False, a_ids = [\<lparr>aClock = clock, aLen = length', Attrs = Some attrs\<rparr>]\<rparr>
                 | Some r \<Rightarrow> attrRanges_add r clock length' attrs)
        in Inr \<lparr>m_clients = map_put client r (m_clients m), interned = tab\<rparr>))"

fun attr_has_loop :: "AttrRange list \<Rightarrow> u64 \<Rightarrow> bool" where
  "attr_has_loop [] clock = False"
| "attr_has_loop (rg # rgs) clock =
     (if aClock rg \<le> clock \<and> clock < aClock rg + aLen rg then True
      else if aClock rg > clock then False
      else attr_has_loop rgs clock)"

definition IDMap_Has :: "IDMap \<Rightarrow> ClientID \<Rightarrow> u64 \<Rightarrow> bool" where
  "IDMap_Has m client clock =
     (case map_of (m_clients m) client of None \<Rightarrow> False | Some r \<Rightarrow> attr_has_loop (getAttrs r) clock)"

definition IDMap_IsEmpty :: "IDMap \<Rightarrow> bool" where
  "IDMap_IsEmpty m = list_all (\<lambda>(c, r). \<not> length (getAttrs r) > 0) (m_clients m)"

definition IDMap_Clients :: "IDMap \<Rightarrow> ClientID list" where
  "IDMap_Clients m = sort (map fst (filter (\<lambda>(c, r). length (getAttrs r) > 0) (m_clients m)))"

definition IDMap_Ranges :: "IDMap \<Rightarrow> ClientID \<Rightarrow> AttrRange list option" where
  "IDMap_Ranges m client =
     (case map_of (m_clients m) client of None \<Rightarrow> None
      | Some r \<Rightarrow> if length (getAttrs r) = 0 then None else Some (getAttrs r))"

text \<open>The loop of \<open>Slice\<close>: \<open>prevEnd\<close> is the end of what has been emitted.\<close>

fun slice_loop :: "u64 \<Rightarrow> u64 \<Rightarrow> AttrRange list \<Rightarrow> u64 \<Rightarrow> AttrRange list" where
  "slice_loop clock length' [] prevEnd = []"
| "slice_loop clock length' (rg # rgs) prevEnd =
     (if aClock rg + aLen rg \<le> clock then slice_loop clock length' rgs prevEnd
      else if aClock rg \<ge> clock + length' then []
      else let (cl, ln) = (if aClock rg < clock then (clock, aLen rg - (clock - aClock rg)) else (aClock rg, aLen rg));
               ln = (if cl + ln > clock + length' then clock + length' - cl else ln)
           in if ln = 0 then []
              else (if prevEnd < cl then [\<lparr>aClock = prevEnd, aLen = cl - prevEnd, Attrs = None\<rparr>] else []) @
                   \<lparr>aClock = cl, aLen = ln, Attrs = Attrs rg\<rparr> # slice_loop clock length' rgs (cl + ln))"

definition IDMap_Slice :: "IDMap \<Rightarrow> ClientID \<Rightarrow> u64 \<Rightarrow> u64 \<Rightarrow> AttrRange list" where
  "IDMap_Slice m client clock length' =
     (let res = (case map_of (m_clients m) client of None \<Rightarrow> []
                 | Some r \<Rightarrow> slice_loop clock length' (getAttrs r) clock)
      in if res \<noteq> []
         then let end = aClock (last res) + aLen (last res)
              in if end < clock + length' then res @ [\<lparr>aClock = end, aLen = clock + length' - end, Attrs = None\<rparr>] else res
         else [\<lparr>aClock = clock, aLen = length', Attrs = None\<rparr>])"

subsection \<open>Operations on maps\<close>

text \<open>A loop whose body may panic.\<close>

fun efold :: "('s \<Rightarrow> 'a \<Rightarrow> enc_error + 's) \<Rightarrow> 's \<Rightarrow> 'a list \<Rightarrow> enc_error + 's" where
  "efold f s [] = Inr s"
| "efold f s (x # xs) = ebind (f s x) (\<lambda>s. efold f s xs)"

definition add_attr_ranges :: "attr_heap \<Rightarrow> ClientID \<Rightarrow> IDMap \<Rightarrow> AttrRange list \<Rightarrow> enc_error + IDMap" where
  "add_attr_ranges h client = efold (\<lambda>out rg. IDMap_Add h out client (aClock rg) (aLen rg) (attr_list rg))"

definition MergeIDMaps :: "attr_heap \<Rightarrow> IDMap option list \<Rightarrow> enc_error + IDMap" where
  "MergeIDMaps h maps = efold (\<lambda>out m. case m of None \<Rightarrow> Inr out
     | Some m \<Rightarrow> efold (\<lambda>out (c, r). add_attr_ranges h c out (getAttrs r)) out (m_clients m)) NewIDMap maps"

text \<open>One attributed run against the excluded runs.\<close>

fun exclude_attr_loop :: "attr_heap \<Rightarrow> ClientID \<Rightarrow> attr_ptr list \<Rightarrow> IDMap \<Rightarrow> u64 \<Rightarrow> u64 \<Rightarrow> IDRange list \<Rightarrow> enc_error + IDMap" where
  "exclude_attr_loop h client attrs out clock remaining [] =
     (if remaining > 0 then IDMap_Add h out client clock remaining attrs else Inr out)"
| "exclude_attr_loop h client attrs out clock remaining (e # es) =
     (if remaining = 0 then Inr out
      else if Clock e + Len e \<le> clock then exclude_attr_loop h client attrs out clock remaining es
      else if Clock e \<ge> clock + remaining then IDMap_Add h out client clock remaining attrs
      else ebind (if Clock e > clock then IDMap_Add h out client clock (Clock e - clock) attrs else Inr out) (\<lambda>out.
        let cov = min (clock + remaining) (Clock e + Len e)
        in exclude_attr_loop h client attrs out cov (clock + remaining - cov) es))"

definition ExcludeIDMap :: "attr_heap \<Rightarrow> IDMap option \<Rightarrow> IDSet option \<Rightarrow> enc_error + IDMap" where
  "ExcludeIDMap h m exclude =
     (case m of None \<Rightarrow> Inr NewIDMap
      | Some m' \<Rightarrow>
        (case exclude of None \<Rightarrow> MergeIDMaps h [Some m']
         | Some ex \<Rightarrow>
           efold (\<lambda>out (client, r).
             case map_of ex client of None \<Rightarrow> add_attr_ranges h client out (getAttrs r)
             | Some er \<Rightarrow>
               efold (\<lambda>out rg. exclude_attr_loop h client (attr_list rg) out (aClock rg) (aLen rg) (getIDs er)) out (getAttrs r))
             NewIDMap (m_clients m')))"

fun intersect_attr_loop :: "attr_heap \<Rightarrow> ClientID \<Rightarrow> IDMap \<Rightarrow> AttrRange list \<Rightarrow> AttrRange list \<Rightarrow> enc_error + IDMap" where
  "intersect_attr_loop h client out (ra # ras) (rb # rbs) =
     (let clock = max (aClock ra) (aClock rb);
          endA = aClock ra + aLen ra; endB = aClock rb + aLen rb;
          end = min endA endB
      in ebind (if end > clock then IDMap_Add h out client clock (end - clock) (attr_list ra @ attr_list rb) else Inr out) (\<lambda>out.
         if endA < endB then intersect_attr_loop h client out ras (rb # rbs)
         else intersect_attr_loop h client out (ra # ras) rbs))"
| "intersect_attr_loop h client out _ _ = Inr out"

definition IntersectIDMaps :: "attr_heap \<Rightarrow> IDMap option \<Rightarrow> IDMap option \<Rightarrow> enc_error + IDMap" where
  "IntersectIDMaps h a b =
     (case (a, b) of
        (Some a, Some b) \<Rightarrow>
          efold (\<lambda>out (client, ar). case map_of (m_clients b) client of None \<Rightarrow> Inr out
            | Some br \<Rightarrow> intersect_attr_loop h client out (getAttrs ar) (getAttrs br)) NewIDMap (m_clients a)
      | _ \<Rightarrow> Inr NewIDMap)"

definition FilterIDMap :: "attr_heap \<Rightarrow> IDMap option \<Rightarrow> (attr_ptr list \<Rightarrow> bool) \<Rightarrow> enc_error + IDMap" where
  "FilterIDMap h m pred =
     (case m of None \<Rightarrow> Inr NewIDMap
      | Some m \<Rightarrow> efold (\<lambda>out (client, r). add_attr_ranges h client out (filter (\<lambda>rg. pred (attr_list rg)) (getAttrs r)))
          NewIDMap (m_clients m))"

definition IDMapFromIDSet :: "attr_heap \<Rightarrow> IDSet option \<Rightarrow> attr_ptr list \<Rightarrow> enc_error + IDMap" where
  "IDMapFromIDSet h s attrList =
     (case s of None \<Rightarrow> Inr NewIDMap
      | Some s \<Rightarrow> efold (\<lambda>out (client, r). efold (\<lambda>out rg. IDMap_Add h out client (Clock rg) (Len rg) attrList) out (getIDs r))
          NewIDMap s)"

definition IDSetFromIDMap :: "IDMap option \<Rightarrow> IDSet" where
  "IDSetFromIDMap m =
     (case m of None \<Rightarrow> NewIDSet
      | Some m \<Rightarrow> foldl (\<lambda>out (client, r). foldl (\<lambda>out rg. IDSet_Add out client (aClock rg) (aLen rg)) out (getAttrs r))
          NewIDSet (m_clients m))"

subsection \<open>Both halves of a content map\<close>

record ContentIDs =
  ci_Inserts :: "IDSet option"
  ci_Deletes :: "IDSet option"

record ContentMap =
  cm_Inserts :: "IDMap option"
  cm_Deletes :: "IDMap option"

text \<open>A pair of maps, the first computed first.\<close>

definition both :: "enc_error + IDMap \<Rightarrow> enc_error + IDMap \<Rightarrow> enc_error + ContentMap" where
  "both a b = ebind a (\<lambda>a. ebind b (\<lambda>b. Inr \<lparr>cm_Inserts = Some a, cm_Deletes = Some b\<rparr>))"

definition CreateContentMapFromContentIDs :: "attr_heap \<Rightarrow> ContentIDs \<Rightarrow> attr_ptr list \<Rightarrow> attr_ptr list option \<Rightarrow> enc_error + ContentMap" where
  "CreateContentMapFromContentIDs h ids' insertAttrs deleteAttrs =
     (let deleteAttrs = (case deleteAttrs of None \<Rightarrow> insertAttrs | Some d \<Rightarrow> d)
      in both (IDMapFromIDSet h (ci_Inserts ids') insertAttrs) (IDMapFromIDSet h (ci_Deletes ids') deleteAttrs))"

definition MergeContentMaps :: "attr_heap \<Rightarrow> ContentMap list \<Rightarrow> enc_error + ContentMap" where
  "MergeContentMaps h maps = both (MergeIDMaps h (map cm_Inserts maps)) (MergeIDMaps h (map cm_Deletes maps))"

definition ExcludeContentMap :: "attr_heap \<Rightarrow> ContentMap \<Rightarrow> ContentIDs \<Rightarrow> enc_error + ContentMap" where
  "ExcludeContentMap h m ids' =
     both (ExcludeIDMap h (cm_Inserts m) (ci_Inserts ids')) (ExcludeIDMap h (cm_Deletes m) (ci_Deletes ids'))"

definition IntersectContentMaps :: "attr_heap \<Rightarrow> ContentMap \<Rightarrow> ContentMap \<Rightarrow> enc_error + ContentMap" where
  "IntersectContentMaps h a b =
     both (IntersectIDMaps h (cm_Inserts a) (cm_Inserts b)) (IntersectIDMaps h (cm_Deletes a) (cm_Deletes b))"

definition FilterContentMap ::
    "attr_heap \<Rightarrow> ContentMap \<Rightarrow> (attr_ptr list \<Rightarrow> bool) \<Rightarrow> (attr_ptr list \<Rightarrow> bool) \<Rightarrow> enc_error + ContentMap" where
  "FilterContentMap h m insertPred deletePred =
     both (FilterIDMap h (cm_Inserts m) insertPred) (FilterIDMap h (cm_Deletes m) deletePred)"

subsection \<open>What attributed runs say of a clock\<close>

abbreviation astart :: "AttrRange \<Rightarrow> nat" where
  "astart r \<equiv> unat (aClock r)"

abbreviation astop :: "AttrRange \<Rightarrow> nat" where
  "astop r \<equiv> unat (aClock r) + unat (aLen r)"

definition afits :: "AttrRange \<Rightarrow> bool" where
  "afits r \<longleftrightarrow> astop r < 2 ^ 64 \<and> aLen r \<noteq> 0 \<and> Attrs r \<noteq> None"

text \<open>\<open>None\<close> says that the clock is covered, \<open>Some p\<close> that it carries the attribute \<open>p\<close>.\<close>

definition remark :: "AttrRange \<Rightarrow> nat \<Rightarrow> attr_ptr option set" where
  "remark r k = (if astart r \<le> k \<and> k < astop r then insert None (Some ` set (attr_list r)) else {})"

definition remarks :: "AttrRange list \<Rightarrow> nat \<Rightarrow> attr_ptr option set" where
  "remarks rs k = (\<Union>r \<in> set rs. remark r k)"

definition apart :: "AttrRange list \<Rightarrow> bool" where
  "apart rs \<longleftrightarrow> sorted_wrt (\<lambda>a b. astop a \<le> astart b) rs \<and> (\<forall>r \<in> set rs. afits r)"

lemma remarks_simps [simp]: "remarks [] k = {}" "remarks (r # rs) k = remark r k \<union> remarks rs k" "remarks (rs @ ss) k = remarks rs k \<union> remarks ss k"
  by (auto simp: remarks_def)

lemma remarks_cong: "set rs = set ss \<Longrightarrow> remarks rs = remarks ss"
  by (simp add: remarks_def fun_eq_iff)

lemma attrsHas_iff [simp]: "attrsHas xs x \<longleftrightarrow> x \<in> set xs"
  by (auto simp: attrsHas_def list_ex_iff)

lemma attrsJoin_set: "set (attrsJoin a b) = set a \<union> set b" "distinct a \<Longrightarrow> distinct b \<Longrightarrow> distinct (attrsJoin a b)"
  by (auto simp: attrsJoin_def)

lemma attrsEqual_set: "distinct a \<Longrightarrow> distinct b \<Longrightarrow> attrsEqual a b \<longleftrightarrow> set a = set b"
proof -
  assume d: "distinct a" "distinct b"
  have "set a = set b" if "length a = length b" "set a \<subseteq> set b"
    using that d by (metis List.finite_set card_subset_eq distinct_card)
  then show ?thesis using d distinct_card[of a] distinct_card[of b] by (auto simp: attrsEqual_def list_all_iff)
qed

lemma bubble_set [simp]: "set (bubble x ys) = insert x (set ys)"
  by (induction x ys rule: bubble.induct) auto

lemma bubble_sorted: "sorted (map aClock ys) \<Longrightarrow> sorted (map aClock (bubble x ys))"
  by (induction x ys rule: bubble.induct) (auto intro: order_trans less_imp_le)

text \<open>Cutting a run in two.\<close>

lemma attr_cut:
  assumes "afits r" "d \<noteq> 0" "unat d < unat (aLen r)"
  defines "l \<equiv> r\<lparr>aLen := d\<rparr>" and "t \<equiv> \<lparr>aClock = aClock r + d, aLen = aLen r - d, Attrs = Attrs r\<rparr>"
  shows "afits l" "afits t" "astop l = astart t" "astop t = astop r" "remark r k = remark l k \<union> remark t k"
    "attr_list l = attr_list r" "attr_list t = attr_list r"
proof -
  have u: "unat (aClock r + d) = unat (aClock r) + unat d" "unat (aLen r - d) = unat (aLen r) - unat d"
    using assms(1,3) by (auto simp: afits_def unat_add_fits unat_sub word_le_nat_alt)
  have "unat d > 0" using assms(2) by (simp add: unat_gt_0)
  then show "afits l" "afits t" "astop l = astart t" "astop t = astop r" "remark r k = remark l k \<union> remark t k"
    "attr_list l = attr_list r" "attr_list t = attr_list r"
    using assms(1-3) u by (auto simp: l_def t_def afits_def remark_def attr_list_def simp flip: unat_gt_0 split: option.splits)
qed

definition split_ok :: "AttrRange list \<Rightarrow> AttrRange list \<Rightarrow> bool" where
  "split_ok rs out \<longleftrightarrow> apart out \<and> remarks out = remarks rs \<and> (\<forall>r \<in> set out. astart (hd rs) \<le> astart r) \<and>
     ((\<forall>r \<in> set rs. distinct (attr_list r)) \<longrightarrow> (\<forall>r \<in> set out. distinct (attr_list r)))"

lemma split_ok_Cons:
  assumes "split_ok (t # ss) out" "afits l" "astop l \<le> astart t" "astart l = astart (hd rs)"
    "remarks rs = (\<lambda>k. remark l k \<union> remarks (t # ss) k)"
    "\<forall>r \<in> set rs. distinct (attr_list r) \<Longrightarrow> distinct (attr_list l) \<and> (\<forall>r \<in> set (t # ss). distinct (attr_list r))"
  shows "split_ok rs (l # out)"
proof -
  have st: "\<forall>r \<in> set out. astop l \<le> astart r" using assms(1,3) by (auto simp: split_ok_def)
  then have "apart (l # out)" using assms(1,2) by (simp add: split_ok_def apart_def)
  moreover have "remarks (l # out) = remarks rs" using assms(1,5) by (simp add: split_ok_def fun_eq_iff)
  moreover have "\<forall>r \<in> set (l # out). astart (hd rs) \<le> astart r"
  proof
    fix r assume "r \<in> set (l # out)"
    then show "astart (hd rs) \<le> astart r" using st unfolding assms(4)[symmetric] by (auto dest: add_leD1)
  qed
  moreover have "\<forall>r \<in> set (l # out). distinct (attr_list r)" if "\<forall>r \<in> set rs. distinct (attr_list r)"
    using assms(1) assms(6)[OF that] by (simp add: split_ok_def)
  ultimately show ?thesis unfolding split_ok_def by blast
qed

text \<open>The step of the loop that joins two runs with the same clock.\<close>

definition same_remarks :: "AttrRange list \<Rightarrow> AttrRange list \<Rightarrow> bool" where
  "same_remarks src rs \<longleftrightarrow> sorted (map aClock rs) \<and> (\<forall>r \<in> set rs. afits r) \<and> remarks rs = remarks src \<and>
     ((\<forall>r \<in> set src. distinct (attr_list r)) \<longrightarrow> (\<forall>r \<in> set rs. distinct (attr_list r)))"

lemma split_ok_same: "split_ok rs out \<Longrightarrow> same_remarks src rs \<Longrightarrow> astart (hd rs) = astart (hd src) \<Longrightarrow> split_ok src out"
  unfolding split_ok_def same_remarks_def by (metis (no_types))

lemma same_remarks_tail:
  assumes "remarks (j # t # rest) = remarks src" "afits j" "afits t" "aClock j \<le> aClock t"
    "sorted (map aClock rest)" "\<forall>r \<in> set rest. afits r \<and> aClock j \<le> aClock r \<and> r \<in> set src"
    "\<forall>r \<in> set src. distinct (attr_list r) \<Longrightarrow> distinct (attr_list j) \<and> distinct (attr_list t)"
  shows "same_remarks src (j # bubble t rest)"
proof -
  have "sorted (map aClock (bubble t rest))" using assms(5) by (rule bubble_sorted)
  moreover have "remarks (j # bubble t rest) = remarks (j # t # rest)" by (rule remarks_cong) simp
  ultimately show ?thesis using assms unfolding same_remarks_def by simp
qed

lemma split_join:
  assumes "afits a" "afits b" "aClock a = aClock b" "sorted (map aClock rest)" "\<forall>r \<in> set rest. aClock a \<le> aClock r"
    "\<forall>r \<in> set rest. afits r"
  defines "smaller \<equiv> if aLen b < aLen a then aLen b else aLen a"
    and "larger \<equiv> if aLen b > aLen a then b else a"
  defines "j \<equiv> \<lparr>aClock = aClock a, aLen = smaller, Attrs = Some (attrsJoin (attr_list a) (attr_list b))\<rparr>"
  shows "same_remarks (a # b # rest) (j #
      (if aLen a = aLen b then rest
       else bubble \<lparr>aClock = aClock a + smaller, aLen = aLen larger - smaller, Attrs = Attrs larger\<rparr> rest))"
proof -
  have al: "attr_list j = attrsJoin (attr_list a) (attr_list b)" by (simp add: j_def attr_list_def)
  have j: "afits j" using assms(1-3) by (simp add: j_def smaller_def afits_def)
  have rj: "remark j k = remark (a\<lparr>aLen := smaller\<rparr>) k \<union> remark (b\<lparr>aLen := smaller\<rparr>) k" for k
    using al assms(3) by (auto simp: remark_def attr_list_def attrsJoin_set j_def)
  consider (eq) "aLen a = aLen b" | (b) "aLen a < aLen b" | (a) "aLen b < aLen a" by force
  then show ?thesis
  proof cases
    case eq
    then have "a\<lparr>aLen := smaller\<rparr> = a" "b\<lparr>aLen := smaller\<rparr> = b" by (simp_all add: smaller_def)
    then have "remarks (j # rest) = remarks (a # b # rest)" using rj by (auto simp: fun_eq_iff)
    then show ?thesis using eq j assms(4-6) al attrsJoin_set(2) unfolding same_remarks_def by (simp add: j_def)
  next
    case b
    define t where "t = \<lparr>aClock = aClock a + smaller, aLen = aLen b - smaller, Attrs = Attrs b\<rparr>"
    have s: "smaller = aLen a" using b by (auto simp: smaller_def)
    then have "smaller \<noteq> 0" "unat smaller < unat (aLen b)" using assms(1) b by (simp_all add: afits_def word_less_nat_alt)
    note c = attr_cut[OF assms(2) this, folded assms(3), folded t_def]
    have "a\<lparr>aLen := smaller\<rparr> = a" using s by simp
    then have "remarks (j # t # rest) = remarks (a # b # rest)" using rj c(5) by (auto simp: fun_eq_iff)
    then have "same_remarks (a # b # rest) (j # bubble t rest)"
    proof (rule same_remarks_tail[OF _ j c(2) _ assms(4)])
      show "aClock j \<le> aClock t" using c(3) assms(3) by (simp add: j_def word_le_nat_alt)
    qed (use assms(5,6) al attrsJoin_set(2) c(7) in \<open>simp_all add: j_def\<close>)
    then show ?thesis using b by (auto simp: t_def larger_def)
  next
    case a
    define t where "t = \<lparr>aClock = aClock a + smaller, aLen = aLen a - smaller, Attrs = Attrs a\<rparr>"
    have s: "smaller = aLen b" using a by (simp add: smaller_def)
    then have "smaller \<noteq> 0" "unat smaller < unat (aLen a)" using assms(2) a by (simp_all add: afits_def word_less_nat_alt)
    note c = attr_cut[OF assms(1) this, folded t_def]
    have "b\<lparr>aLen := smaller\<rparr> = b" using s by simp
    then have "remarks (j # t # rest) = remarks (a # b # rest)" using rj c(5) by (auto simp: fun_eq_iff)
    then have "same_remarks (a # b # rest) (j # bubble t rest)"
    proof (rule same_remarks_tail[OF _ j c(2) _ assms(4)])
      show "aClock j \<le> aClock t" using c(3) by (simp add: j_def word_le_nat_alt)
    qed (use assms(5,6) al attrsJoin_set(2) c(7) in \<open>simp_all add: j_def\<close>)
    then show ?thesis using a by (auto simp: t_def larger_def)
  qed
qed

lemma attr_split_cases:
  "aClock a < aClock b \<Longrightarrow> aClock a + aLen a > aClock b \<Longrightarrow> attr_split (a # b # rest) =
    a\<lparr>aLen := aClock b - aClock a\<rparr> #
    attr_split (\<lparr>aClock = aClock b, aLen = aLen a - (aClock b - aClock a), Attrs = Attrs a\<rparr> # b # rest)"
  "aClock a < aClock b \<Longrightarrow> \<not> aClock a + aLen a > aClock b \<Longrightarrow> attr_split (a # b # rest) = a # attr_split (b # rest)"
  by (subst attr_split.simps, simp add: Let_def)+

lemma attr_split_ok:
  "sorted (map aClock rs) \<Longrightarrow> \<forall>r \<in> set rs. afits r \<Longrightarrow> split_ok rs (attr_split rs)"
proof (induction rs rule: attr_split.induct)
  case (3 a b rest)
  have f: "afits a" "afits b" "\<forall>r \<in> set rest. afits r" and le: "aClock a \<le> aClock b" "\<forall>r \<in> set rest. aClock b \<le> aClock r"
    and so: "sorted (map aClock rest)"
    using "3.prems" by simp_all
  consider (cut) "aClock a < aClock b" "aClock a + aLen a > aClock b" | (gap) "aClock a < aClock b" "\<not> aClock a + aLen a > aClock b"
    | (join) "aClock a = aClock b" using le(1) by force
  then show ?case
  proof cases
    case cut
    let ?d = "aClock b - aClock a"
    let ?t = "\<lparr>aClock = aClock b, aLen = aLen a - ?d, Attrs = Attrs a\<rparr>"
    note o = overlap_diff[OF cut]
    have nz: "?d \<noteq> 0" using o(2) by (metis unat_0 less_irrefl)
    note c = attr_cut[OF f(1) nz o(1), simplified]
    have "split_ok (?t # b # rest) (attr_split (?t # b # rest))"
      using "3.IH"(1)[OF cut refl] "3.prems" c(2) by simp
    then have "split_ok (a # b # rest) (a\<lparr>aLen := ?d\<rparr> # attr_split (?t # b # rest))"
      using c by (intro split_ok_Cons[of ?t "b # rest"]) (auto simp: fun_eq_iff)
    then show ?thesis unfolding attr_split_cases(1)[OF cut] .
  next
    case gap
    have "split_ok (b # rest) (attr_split (b # rest))" using "3.IH"(2)[OF gap] "3.prems" by simp
    moreover have "astop a \<le> astart b" using gap f(1) by (simp add: word_le_nat_alt unat_add_fits afits_def not_less)
    ultimately have "split_ok (a # b # rest) (a # attr_split (b # rest))"
      using f(1) by (intro split_ok_Cons[of b rest]) (simp_all add: fun_eq_iff)
    then show ?thesis unfolding attr_split_cases(2)[OF gap] .
  next
    case join
    define smaller where "smaller = (if aLen b < aLen a then aLen b else aLen a)"
    define larger where "larger = (if aLen b > aLen a then b else a)"
    define j where "j = \<lparr>aClock = aClock a, aLen = smaller, Attrs = Some (attrsJoin (attr_list a) (attr_list b))\<rparr>"
    define tl' where "tl' = (if aLen a = aLen b then rest
       else bubble \<lparr>aClock = aClock a + smaller, aLen = aLen larger - smaller, Attrs = Attrs larger\<rparr> rest)"
    have nl: "\<not> aClock a < aClock b" using join by simp
    have sr: "same_remarks (a # b # rest) (j # tl')"
      unfolding j_def tl'_def smaller_def larger_def using f join so le by (intro split_join) simp_all
    have s0: "smaller \<noteq> 0" using f by (simp add: smaller_def afits_def)
    have eq: "attr_split (a # b # rest) = attr_split (j # tl')"
      using s0 by (subst attr_split.simps(3))
        (simp add: nl j_def tl'_def Let_def flip: smaller_def larger_def)
    have "split_ok (j # tl') (attr_split (j # tl'))"
      using "3.IH"(4)[OF nl larger_def smaller_def j_def tl'_def s0] sr by (simp add: same_remarks_def)
    then show ?thesis unfolding eq by (rule split_ok_same[OF _ sr]) (simp add: j_def)
  qed
qed (auto simp: split_ok_def apart_def)

text \<open>
  The final pass keeps the covered clocks and invents no attribute.  It keeps every attribute when no
  list repeats one: the comparison of two lists is by length and inclusion.
\<close>

definition merge_ok :: "AttrRange list \<Rightarrow> AttrRange list \<Rightarrow> bool" where
  "merge_ok rs out \<longleftrightarrow> apart out \<and> (\<forall>k. remarks out k \<subseteq> remarks rs k \<and> (None \<in> remarks rs k \<longrightarrow> None \<in> remarks out k)) \<and>
     ((\<forall>r \<in> set rs. distinct (attr_list r)) \<longrightarrow> remarks out = remarks rs \<and> (\<forall>r \<in> set out. distinct (attr_list r)))"

lemma merge_ok_refl: "apart rs \<Longrightarrow> merge_ok rs rs"
  by (simp add: merge_ok_def)

lemma merge_ok_trans:
  assumes "merge_ok rs ss" "merge_ok ss out"
  shows "merge_ok rs out"
  using assms unfolding merge_ok_def by (metis (no_types) subset_trans)

lemma merge_ok_Cons:
  assumes "merge_ok rs out" "afits l" "\<forall>r \<in> set out. astop l \<le> astart r"
  shows "merge_ok (l # rs) (l # out)"
proof -
  have "apart (l # out)" using assms by (simp add: merge_ok_def apart_def)
  moreover have "remarks (l # out) = remarks (l # rs) \<and> (\<forall>r \<in> set (l # out). distinct (attr_list r))"
    if "\<forall>r \<in> set (l # rs). distinct (attr_list r)"
    using that assms(1) by (auto simp: merge_ok_def fun_eq_iff)
  moreover have "remarks (l # out) k \<subseteq> remarks (l # rs) k \<and> (None \<in> remarks (l # rs) k \<longrightarrow> None \<in> remarks (l # out) k)" for k
    using assms(1) unfolding merge_ok_def by fastforce
  ultimately show ?thesis unfolding merge_ok_def by blast
qed

lemma attr_glue:
  assumes "afits l" "afits r" "astop l = astart r"
  defines "j \<equiv> l\<lparr>aLen := aLen l + aLen r\<rparr>"
  shows "afits j" "astop j = astop r" "attr_list j = attr_list l"
    "remark j k = (if astart l \<le> k \<and> k < astop r then insert None (Some ` set (attr_list l)) else {})"
proof -
  have u: "unat (aLen l + aLen r) = unat (aLen l) + unat (aLen r)"
    using assms(2,3) by (intro unat_add_fits) (simp add: afits_def)
  show a: "attr_list j = attr_list l" by (simp add: j_def attr_list_def)
  show s: "astop j = astop r" using assms(3) u by (simp add: j_def)
  have "aLen j \<noteq> 0" using u assms(1) by (auto simp: j_def afits_def simp flip: unat_gt_0)
  moreover have "Attrs j \<noteq> None" using assms(1) by (simp add: j_def afits_def)
  ultimately show "afits j" using assms(2) s by (simp add: afits_def)
  show "remark j k = (if astart l \<le> k \<and> k < astop r then insert None (Some ` set (attr_list l)) else {})"
    unfolding remark_def a s by (simp add: j_def)
qed

lemma glue_merge_ok:
  assumes "apart (l # r # rs)" "astop l = astart r" "attrsEqual (attr_list l) (attr_list r)"
  shows "merge_ok (l # r # rs) (l\<lparr>aLen := aLen l + aLen r\<rparr> # rs)"
proof -
  define j where "j = l\<lparr>aLen := aLen l + aLen r\<rparr>"
  have f: "afits l" "afits r" "\<forall>x \<in> set rs. astop r \<le> astart x" "apart rs" using assms(1) by (simp_all add: apart_def)
  note g = attr_glue[OF f(1,2) assms(2), folded j_def]
  have ap: "apart (j # rs)" using f(3,4) g(1,2) by (simp add: apart_def)
  have sub: "set (attr_list l) \<subseteq> set (attr_list r)" using assms(3) by (auto simp: attrsEqual_def list_all_iff split: if_splits)
  have le: "astop l = astart r" "astart l \<le> astart r" "astart r \<le> astop r" using assms(2) by auto
  have rm: "remark j k \<subseteq> remark l k \<union> remark r k" "None \<in> remark l k \<union> remark r k \<Longrightarrow> None \<in> remark j k" for k
    unfolding g(4) using sub le by (auto simp: remark_def split: if_splits)
  have eq: "remark j k = remark l k \<union> remark r k" if "distinct (attr_list l)" "distinct (attr_list r)" for k
    unfolding g(4) using attrsEqual_set[OF that] assms(3) le by (auto simp: remark_def)
  show ?thesis unfolding merge_ok_def j_def[symmetric] using ap rm eq g(3) by (auto simp: fun_eq_iff)
qed

lemma attr_merge_ok:
  "apart (l # rs) \<Longrightarrow> merge_ok (l # rs) (attr_merge l rs) \<and> (\<forall>r \<in> set (attr_merge l rs). astart l \<le> astart r)"
proof (induction l rs rule: attr_merge.induct)
  case (1 l)
  then show ?case by (auto simp: merge_ok_refl apart_def afits_def)
next
  case (2 l r rs)
  have f: "afits l" "afits r" "astop l \<le> astart r" "apart (r # rs)" using "2.prems" by (simp_all add: apart_def)
  have e: "aClock l + aLen l = aClock r \<longleftrightarrow> astop l = astart r"
    using f(1) by (simp add: word_unat_eq_iff unat_add_fits afits_def)
  have nz: "aLen r \<noteq> 0" using f(2) by (simp add: afits_def)
  show ?case
  proof (cases "astop l = astart r \<and> attrsEqual (attr_list l) (attr_list r)")
    case True
    note g = glue_merge_ok[OF "2.prems" True[THEN conjunct1] True[THEN conjunct2]]
    then have "apart (l\<lparr>aLen := aLen l + aLen r\<rparr> # rs)" by (simp add: merge_ok_def)
    from "2.IH"(1)[OF _ this] True e merge_ok_trans[OF g] show ?thesis by simp
  next
    case False
    then have eq: "attr_merge l (r # rs) = l # attr_merge r rs" using e nz by auto
    have "merge_ok (r # rs) (attr_merge r rs)" "\<forall>x \<in> set (attr_merge r rs). astart r \<le> astart x"
      using "2.IH"(2)[OF _ nz f(4)] False e by auto
    then have "merge_ok (l # r # rs) (l # attr_merge r rs)" "\<forall>x \<in> set (l # attr_merge r rs). astart l \<le> astart x"
      using merge_ok_Cons[OF _ f(1)] f(3) by fastforce+
    then show ?thesis unfolding eq by blast
  qed
qed

lemma normalize_attrs_ok:
  assumes "\<forall>r \<in> set rs. afits r"
  shows "merge_ok rs (normalize_attrs rs)"
proof -
  let ?s = "sort_key aClock rs"
  have "split_ok ?s (attr_split ?s)" using assms by (intro attr_split_ok) simp_all
  then have sp: "apart (attr_split ?s)" "merge_ok rs (attr_split ?s)"
    using remarks_cong[of ?s rs] by (auto simp: split_ok_def merge_ok_def)
  then have "dropWhile (\<lambda>r. aLen r = 0) (attr_split ?s) = attr_split ?s"
    by (cases "attr_split ?s") (auto simp: apart_def afits_def)
  then have "merge_ok (attr_split ?s) (normalize_attrs rs)"
    using sp(1) attr_merge_ok by (cases "attr_split ?s") (auto simp: normalize_attrs_def merge_ok_refl)
  then show ?thesis by (rule merge_ok_trans[OF sp(2)])
qed

subsection \<open>Invariant and abstraction of the map\<close>

definition attr_inv :: "(byte list \<times> attr_ptr) list \<Rightarrow> attrRanges \<Rightarrow> bool" where
  "attr_inv tab r \<longleftrightarrow> (\<forall>x \<in> set (a_ids r). afits x \<and> set (attr_list x) \<subseteq> snd ` set tab) \<and> (a_sorted r \<longrightarrow> apart (a_ids r))"

definition table_inv :: "attr_heap \<Rightarrow> (byte list \<times> attr_ptr) list \<Rightarrow> bool" where
  "table_inv h tab \<longleftrightarrow> distinct (map fst tab) \<and> (\<forall>(k, p) \<in> set tab. attrKey (h p) = Inr k)"

definition idmap_inv :: "attr_heap \<Rightarrow> IDMap \<Rightarrow> bool" where
  "idmap_inv h m \<longleftrightarrow> distinct (map fst (m_clients m)) \<and> table_inv h (interned m) \<and>
     (\<forall>(c, r) \<in> set (m_clients m). attr_inv (interned m) r)"

text \<open>No list of attributes repeats one.\<close>

definition tidy :: "IDMap \<Rightarrow> bool" where
  "tidy m \<longleftrightarrow> (\<forall>(c, r) \<in> set (m_clients m). \<forall>x \<in> set (a_ids r). distinct (attr_list x))"

text \<open>The encoded attributes of an identifier; \<open>None\<close> says that the identifier is in the map.\<close>

definition akey :: "attr_heap \<Rightarrow> attr_ptr \<Rightarrow> byte list" where
  "akey h p = (case attrKey (h p) of Inl e \<Rightarrow> [] | Inr k \<Rightarrow> k)"

definition facts :: "attr_heap \<Rightarrow> AttrRange list \<Rightarrow> nat \<Rightarrow> byte list option set" where
  "facts h rs k = map_option (akey h) ` remarks rs k"

definition says :: "attr_heap \<Rightarrow> IDMap \<Rightarrow> ClientID \<Rightarrow> nat \<Rightarrow> byte list option set" where
  "says h m c k = (case map_of (m_clients m) c of None \<Rightarrow> {} | Some r \<Rightarrow> facts h (a_ids r) k)"

definition stamp :: "attr_heap \<Rightarrow> nat set \<Rightarrow> attr_ptr list \<Rightarrow> nat \<Rightarrow> byte list option set" where
  "stamp h A attrs k = (if k \<in> A then insert None (Some ` akey h ` set attrs) else {})"

lemma NewIDMap_inv [simp]: "idmap_inv h NewIDMap" "says h NewIDMap = (\<lambda>c k. {})" "tidy NewIDMap"
  by (auto simp: idmap_inv_def NewIDMap_def says_def tidy_def table_inv_def fun_eq_iff)

lemma facts_simps [simp]: "facts h [] k = {}" "facts h (rs @ ss) k = facts h rs k \<union> facts h ss k"
  by (auto simp: facts_def)

lemma facts_Cons: "facts h (r # rs) k = facts h [r] k \<union> facts h rs k"
  by (auto simp: facts_def)

lemma facts_one: "facts h [r] k = stamp h {astart r..<astop r} (attr_list r) k"
  by (simp add: facts_def remark_def stamp_def image_image)

lemma interned_inj:
  assumes "table_inv h tab" "p \<in> snd ` set tab" "q \<in> snd ` set tab" "akey h p = akey h q"
  shows "p = q"
proof -
  obtain k l where "(k, p) \<in> set tab" "(l, q) \<in> set tab" using assms(2,3) by auto
  moreover from this have "attrKey (h p) = Inr k" "attrKey (h q) = Inr l" using assms(1) by (auto simp: table_inv_def)
  then have "k = l" using assms(4) by (simp add: akey_def)
  ultimately show ?thesis using assms(1) by (metis eq_key_imp_eq_value table_inv_def)
qed

lemma intern_ok:
  assumes "table_inv h tab" "\<forall>p \<in> set attrs. \<exists>k. attrKey (h p) = Inr k"
  shows "\<exists>out tab'. intern h attrs tab = Inr (out, tab') \<and> table_inv h tab' \<and> snd ` set tab \<subseteq> snd ` set tab' \<and>
    set out \<subseteq> snd ` set tab' \<and> map (akey h) out = map (akey h) attrs"
  using assms
proof (induction attrs arbitrary: tab)
  case (Cons a as')
  obtain k where k: "attrKey (h a) = Inr k" using Cons.prems(2) by auto
  define x where "x = (case map_of tab k of Some canon \<Rightarrow> canon | None \<Rightarrow> a)"
  define t where "t = (case map_of tab k of Some canon \<Rightarrow> tab | None \<Rightarrow> map_put k a tab)"
  have "table_inv h t \<and> x \<in> snd ` set t \<and> akey h x = k \<and> snd ` set tab \<subseteq> snd ` set t"
  proof (cases "map_of tab k")
    case None
    then have "k \<notin> fst ` set tab" by (simp add: map_of_eq_None_iff)
    then have "(k, a) \<in> set t" "snd ` set tab \<subseteq> snd ` set t"
      using None map_put_new[of k tab a] by (auto simp: t_def)
    moreover have "table_inv h t"
      using Cons.prems(1) k set_map_put[of k a tab] None by (auto simp: table_inv_def t_def)
    ultimately show ?thesis using None k by (force simp: x_def akey_def)
  next
    case (Some q)
    then have "(k, q) \<in> set tab" by (rule map_of_SomeD)
    then show ?thesis using Some Cons.prems(1) by (force simp: x_def t_def akey_def table_inv_def)
  qed
  then have t: "table_inv h t" "x \<in> snd ` set t" "akey h x = k" "snd ` set tab \<subseteq> snd ` set t" by simp_all
  obtain out tab' where o: "intern h as' t = Inr (out, tab')" "table_inv h tab'" "snd ` set t \<subseteq> snd ` set tab'"
      "set out \<subseteq> snd ` set tab'" "map (akey h) out = map (akey h) as'"
    using Cons.IH[OF t(1)] Cons.prems(2) by auto
  have "intern h (a # as') tab = Inr (x # out, tab')"
    using k o(1) by (simp add: x_def t_def split: option.splits)
  moreover have "akey h a = k" using k by (simp add: akey_def)
  then have "map (akey h) (x # out) = map (akey h) (a # as')" using o(5) t(3) by simp
  moreover have "snd ` set tab \<subseteq> snd ` set tab'" "set (x # out) \<subseteq> snd ` set tab'"
    using t(2,4) o(3,4) by auto
  ultimately show ?case using o(2) by blast
qed simp

lemma intern_error:
  "\<not> (\<forall>p \<in> set attrs. \<exists>k. attrKey (h p) = Inr k) \<Longrightarrow> \<exists>e. intern h attrs tab = Inl e"
proof (induction attrs arbitrary: tab)
  case (Cons a as')
  show ?case
  proof (cases "attrKey (h a)")
    case (Inr k)
    then have "\<exists>e. intern h as' t = Inl e" for t using Cons by auto
    then obtain e e' where "intern h as' tab = Inl e" "intern h as' (map_put k a tab) = Inl e'" by metis
    then show ?thesis using Inr by (simp split: option.splits)
  qed simp
qed simp

subsection \<open>Insertion and reading\<close>

text \<open>
  \<open>puts h c A t m res\<close>: the step \<open>res\<close> succeeds on \<open>m\<close>, keeps the invariant and adds what \<open>A\<close> says of the
  clocks of \<open>c\<close>; it keeps the map tidy when \<open>t\<close> holds.
\<close>

definition puts :: "attr_heap \<Rightarrow> ClientID \<Rightarrow> (nat \<Rightarrow> byte list option set) \<Rightarrow> bool \<Rightarrow> IDMap \<Rightarrow> enc_error + IDMap \<Rightarrow> bool" where
  "puts h c A t m res \<longleftrightarrow> (\<exists>m'. res = Inr m' \<and> idmap_inv h m' \<and> says h m' = (says h m)(c := \<lambda>k. says h m c k \<union> A k) \<and>
     (t \<and> tidy m \<longrightarrow> tidy m'))"

lemma puts_Add:
  assumes inv: "idmap_inv h m" and fit: "unat clock + unat n < 2 ^ 64"
    and keys: "\<forall>p \<in> set attrs. \<exists>k. attrKey (h p) = Inr k"
  shows "puts h c (stamp h (span clock n) attrs) (distinct (map (akey h) attrs)) m (IDMap_Add h m c clock n attrs)"
proof (cases "n = 0")
  case True
  then show ?thesis using inv by (simp add: puts_def IDMap_Add_def stamp_def)
next
  case False
  obtain out tab where o: "intern h attrs (interned m) = Inr (out, tab)" "table_inv h tab"
      "snd ` set (interned m) \<subseteq> snd ` set tab" "set out \<subseteq> snd ` set tab" "map (akey h) out = map (akey h) attrs"
    using intern_ok[OF _ keys, of "interned m"] inv by (auto simp: idmap_inv_def)
  define x where "x = \<lparr>aClock = clock, aLen = n, Attrs = Some out\<rparr>"
  define rs where "rs = (case map_of (m_clients m) c of None \<Rightarrow> [] | Some r \<Rightarrow> a_ids r)"
  define r where "r = \<lparr>a_sorted = False, a_ids = rs @ [x]\<rparr>"
  have eq: "IDMap_Add h m c clock n attrs = Inr \<lparr>m_clients = map_put c r (m_clients m), interned = tab\<rparr>"
    using False o(1) by (simp add: IDMap_Add_def r_def rs_def x_def attrRanges_add_def split: option.splits)
  have mono: "attr_inv (interned m) s \<Longrightarrow> attr_inv tab s" for s using o(3) unfolding attr_inv_def by (meson subset_trans)
  have x: "attr_list x = out" "afits x" using fit False by (simp_all add: x_def attr_list_def afits_def)
  have rs: "\<forall>y \<in> set rs. afits y \<and> set (attr_list y) \<subseteq> snd ` set tab"
    using inv mono by (fastforce simp: rs_def idmap_inv_def attr_inv_def dest: map_of_SomeD split: option.splits)
  have "attr_inv tab r" using rs x o(4) by (auto simp: attr_inv_def r_def)
  then have "idmap_inv h \<lparr>m_clients = map_put c r (m_clients m), interned = tab\<rparr>"
    using inv o(2) mono set_map_put[of c r "m_clients m"] by (fastforce simp: idmap_inv_def)
  moreover have "set (map (akey h) out) = set (map (akey h) attrs)" using o(5) by metis
  then have "facts h [x] = stamp h (span clock n) attrs"
    unfolding facts_one x(1) stamp_def by (simp add: x_def fun_eq_iff)
  then have "says h \<lparr>m_clients = map_put c r (m_clients m), interned = tab\<rparr> =
      (says h m)(c := \<lambda>k. says h m c k \<union> stamp h (span clock n) attrs k)"
    by (intro ext) (cases "map_of (m_clients m) c", simp_all add: says_def r_def rs_def)
  moreover have "distinct out" if "distinct (map (akey h) attrs)" using that o(5) by (metis distinct_map)
  then have "tidy \<lparr>m_clients = map_put c r (m_clients m), interned = tab\<rparr>" if "distinct (map (akey h) attrs)" "tidy m"
    using that x set_map_put[of c r "m_clients m"]
    by (fastforce simp: tidy_def r_def rs_def dest: map_of_SomeD split: option.splits)
  ultimately show ?thesis unfolding puts_def eq by blast
qed

text \<open>An attribute that cannot be encoded makes the insertion of a non-empty run panic.\<close>

lemma Add_error:
  "n \<noteq> 0 \<Longrightarrow> \<not> (\<forall>p \<in> set attrs. \<exists>k. attrKey (h p) = Inr k) \<Longrightarrow> \<exists>e. IDMap_Add h m c clock n attrs = Inl e"
  using intern_error[of attrs h "interned m"] by (auto simp: IDMap_Add_def)

text \<open>The normalised runs of a client.\<close>

lemma getAttrs_ok:
  assumes "attr_inv tab r"
  shows "merge_ok (a_ids r) (getAttrs r)"
proof (cases "a_sorted r")
  case True
  then show ?thesis using assms by (simp add: attrRanges_getIDs_def attr_inv_def merge_ok_refl)
next
  case False
  then show ?thesis using assms normalize_attrs_ok[of "a_ids r"] by (simp add: attrRanges_getIDs_def attr_inv_def Let_def)
qed

lemma remarks_at: "apart rs \<Longrightarrow> r \<in> set rs \<Longrightarrow> insert None (Some ` set (attr_list r)) \<subseteq> remarks rs (astart r)"
  by (auto simp: remarks_def remark_def apart_def afits_def unat_gt_0 intro!: bexI[of _ r])

lemma getAttrs_interned:
  assumes "attr_inv tab r" "x \<in> set (getAttrs r)"
  shows "afits x" "set (attr_list x) \<subseteq> snd ` set tab"
proof -
  note m = getAttrs_ok[OF assms(1)]
  then have ap: "apart (getAttrs r)" by (simp add: merge_ok_def)
  then show "afits x" using assms(2) by (simp add: apart_def)
  have "Some ` set (attr_list x) \<subseteq> remarks (a_ids r) (astart x)"
    using remarks_at[OF ap assms(2)] m unfolding merge_ok_def by (meson insert_subset subset_trans)
  moreover have "remarks (a_ids r) k \<subseteq> insert None (Some ` snd ` set tab)" for k
  proof -
    have "remark y k \<subseteq> insert None (Some ` snd ` set tab)" if "y \<in> set (a_ids r)" for y
    proof -
      have "set (attr_list y) \<subseteq> snd ` set tab" using assms(1) that unfolding attr_inv_def by blast
      then show ?thesis unfolding remark_def by (auto split: if_splits)
    qed
    then show ?thesis unfolding remarks_def by blast
  qed
  ultimately show "set (attr_list x) \<subseteq> snd ` set tab" by blast
qed

definition keyed :: "attr_heap \<Rightarrow> AttrRange \<Rightarrow> bool" where
  "keyed h x \<longleftrightarrow> (\<forall>p \<in> set (attr_list x). \<exists>k. attrKey (h p) = Inr k)"

lemma idmap_lookup:
  assumes "idmap_inv h m" "map_of (m_clients m) c = Some r"
  shows "apart (getAttrs r)" "None \<in> facts h (getAttrs r) k \<longleftrightarrow> None \<in> says h m c k"
    "x \<in> set (getAttrs r) \<Longrightarrow> afits x \<and> keyed h x"
    "tidy m \<Longrightarrow> facts h (getAttrs r) = says h m c"
    "tidy m \<Longrightarrow> x \<in> set (getAttrs r) \<Longrightarrow> distinct (map (akey h) (attr_list x))"
proof -
  have e: "(c, r) \<in> set (m_clients m)" using assms(2) by (rule map_of_SomeD)
  then have r: "attr_inv (interned m) r" and t: "table_inv h (interned m)" using assms(1) by (auto simp: idmap_inv_def)
  have s: "says h m c = facts h (a_ids r)" using assms(2) by (simp add: says_def fun_eq_iff)
  note m = getAttrs_ok[OF r] and i = getAttrs_interned[OF r]
  show "apart (getAttrs r)" using m by (simp add: merge_ok_def)
  have "None \<in> remarks (getAttrs r) k \<longleftrightarrow> None \<in> remarks (a_ids r) k"
    using m unfolding merge_ok_def by blast
  then show "None \<in> facts h (getAttrs r) k \<longleftrightarrow> None \<in> says h m c k" unfolding s facts_def by (auto simp: image_iff)
  show "x \<in> set (getAttrs r) \<Longrightarrow> afits x \<and> keyed h x"
    using i[of x] t by (fastforce simp: keyed_def table_inv_def)
  {
    assume "tidy m"
    then have "\<forall>x \<in> set (a_ids r). distinct (attr_list x)" using e by (auto simp: tidy_def)
    then have d: "remarks (getAttrs r) = remarks (a_ids r)" "\<forall>x \<in> set (getAttrs r). distinct (attr_list x)"
      using m unfolding merge_ok_def by blast+
    show "facts h (getAttrs r) = says h m c" unfolding s facts_def d ..
    assume "x \<in> set (getAttrs r)"
    then show "distinct (map (akey h) (attr_list x))"
      using d(2) i(2)[of x] interned_inj[OF t] unfolding distinct_map inj_on_def by (meson subsetD)
  }
qed

lemma attr_has_loop_correct: "apart rs \<Longrightarrow> attr_has_loop rs k \<longleftrightarrow> None \<in> remarks rs (unat k)"
proof (induction rs)
  case (Cons r rs)
  have f: "afits r" "apart rs" "\<forall>s \<in> set rs. astop r \<le> astart s" using Cons.prems by (auto simp: apart_def)
  have i: "aClock r \<le> k \<and> k < aClock r + aLen r \<longleftrightarrow> astart r \<le> unat k \<and> unat k < astop r"
    using f(1) by (simp add: word_le_nat_alt word_less_nat_alt unat_add_fits afits_def)
  show ?case
  proof (cases "unat k < astart r")
    case True
    have "remark s (unat k) = {}" if "s \<in> set rs" for s
    proof -
      have "astop r \<le> astart s" using f(3) that by blast
      then have "\<not> astart s \<le> unat k" using True by linarith
      then show ?thesis by (simp add: remark_def)
    qed
    then have "remarks rs (unat k) = {}" by (simp add: remarks_def)
    then show ?thesis using True i by (auto simp: word_less_nat_alt remark_def)
  next
    case False
    then show ?thesis using Cons.IH[OF f(2)] i by (auto simp: word_less_nat_alt remark_def)
  qed
qed simp

lemma IDMap_Has_correct:
  assumes "idmap_inv h m"
  shows "IDMap_Has m c k \<longleftrightarrow> None \<in> says h m c (unat k)"
proof (cases "map_of (m_clients m) c")
  case None
  then show ?thesis by (simp add: IDMap_Has_def says_def)
next
  case (Some r)
  note l = idmap_lookup[OF assms Some]
  have "attr_has_loop (getAttrs r) k \<longleftrightarrow> None \<in> facts h (getAttrs r) (unat k)"
    unfolding attr_has_loop_correct[OF l(1)] facts_def by (auto simp: image_iff)
  then show ?thesis using l(2) Some by (simp add: IDMap_Has_def)
qed

subsection \<open>Loops over maps\<close>

lemma puts_refl: "idmap_inv h m \<Longrightarrow> puts h c (\<lambda>k. {}) t m (Inr m)"
  by (simp add: puts_def)

lemma puts_trans:
  assumes "puts h c A t m res" "\<And>m'. idmap_inv h m' \<Longrightarrow> puts h c B t m' (f m')"
  shows "puts h c (\<lambda>k. A k \<union> B k) t m (ebind res f)"
proof -
  obtain m' where m': "res = Inr m'" "idmap_inv h m'" "says h m' = (says h m)(c := \<lambda>k. says h m c k \<union> A k)"
    "t \<and> tidy m \<longrightarrow> tidy m'" using assms(1) by (auto simp: puts_def)
  obtain m'' where m'': "f m' = Inr m''" "idmap_inv h m''" "says h m'' = (says h m')(c := \<lambda>k. says h m' c k \<union> B k)"
    "t \<and> tidy m' \<longrightarrow> tidy m''" using assms(2)[OF m'(2)] by (auto simp: puts_def)
  have "says h m'' = (says h m)(c := \<lambda>k. says h m c k \<union> (A k \<union> B k))"
    unfolding m''(3) m'(3) by (auto simp: fun_eq_iff)
  then show ?thesis using m'(1,4) m''(1,2,4) by (auto simp: puts_def)
qed

lemma puts_weaken: "puts h c A t m res \<Longrightarrow> (\<And>k. A k = B k) \<Longrightarrow> (u \<Longrightarrow> t) \<Longrightarrow> puts h c B u m res"
proof -
  assume "puts h c A t m res" "\<And>k. A k = B k" "u \<Longrightarrow> t"
  moreover from this(2) have "A = B" by (rule ext)
  ultimately show ?thesis by (auto simp: puts_def)
qed

lemma puts_range:
  assumes "idmap_inv h m" "afits x" "keyed h x"
  shows "puts h c (facts h [x]) (distinct (map (akey h) (attr_list x))) m (IDMap_Add h m c (aClock x) (aLen x) (attr_list x))"
  using puts_weaken[OF puts_Add[OF assms(1), of "aClock x" "aLen x" "attr_list x" c]] assms(2,3)
  by (simp add: facts_one afits_def keyed_def)

lemma puts_ranges:
  "idmap_inv h m \<Longrightarrow> \<forall>x \<in> set rs. afits x \<and> keyed h x \<Longrightarrow>
   puts h c (facts h rs) (\<forall>x \<in> set rs. distinct (map (akey h) (attr_list x))) m (add_attr_ranges h c m rs)"
proof (induction rs arbitrary: m)
  case Nil
  then show ?case using puts_weaken[OF puts_refl] by (simp add: add_attr_ranges_def)
next
  case (Cons x xs)
  let ?t = "\<forall>y \<in> set (x # xs). distinct (map (akey h) (attr_list y))"
  have "puts h c (facts h [x]) ?t m (IDMap_Add h m c (aClock x) (aLen x) (attr_list x))"
    by (rule puts_weaken[OF puts_range]) (use Cons.prems in auto)
  from puts_trans[OF this, of "facts h xs" "\<lambda>m. add_attr_ranges h c m xs"]
  have "puts h c (\<lambda>k. facts h [x] k \<union> facts h xs k) ?t m
      (ebind (IDMap_Add h m c (aClock x) (aLen x) (attr_list x)) (\<lambda>m. add_attr_ranges h c m xs))"
    using puts_weaken[OF Cons.IH, of _ "facts h xs" ?t] Cons.prems(2) by simp
  then have "puts h c (facts h (x # xs)) ?t m
      (ebind (IDMap_Add h m c (aClock x) (aLen x) (attr_list x)) (\<lambda>m. add_attr_ranges h c m xs))"
    by (rule puts_weaken) (simp_all add: facts_Cons[of h x xs])
  then show ?case by (simp add: add_attr_ranges_def)
qed

lemma efold_clients:
  assumes "\<And>out c r. idmap_inv h out \<Longrightarrow> (c, r) \<in> set s \<Longrightarrow> puts h c (A c r) t out (f out (c, r))"
    and "idmap_inv h out" and "distinct (map fst s)"
  shows "\<exists>m'. efold f out s = Inr m' \<and> idmap_inv h m' \<and> (t \<and> tidy out \<longrightarrow> tidy m') \<and>
    says h m' = (\<lambda>c k. says h out c k \<union> (case map_of s c of None \<Rightarrow> {} | Some r \<Rightarrow> A c r k))"
  using assms
proof (induction s arbitrary: out)
  case (Cons e s)
  obtain c r where e: "e = (c, r)" by (cases e)
  obtain m1 where m1: "f out (c, r) = Inr m1" "idmap_inv h m1" "t \<and> tidy out \<longrightarrow> tidy m1"
      "says h m1 = (says h out)(c := \<lambda>k. says h out c k \<union> A c r k)"
    using Cons.prems(1)[of out c r] Cons.prems(2) e by (auto simp: puts_def)
  have n: "map_of s c = None" "distinct (map fst s)" using Cons.prems(3) e by (simp_all add: map_of_eq_None_iff)
  obtain m2 where m2: "efold f m1 s = Inr m2" "idmap_inv h m2" "t \<and> tidy m1 \<longrightarrow> tidy m2"
      "says h m2 = (\<lambda>c k. says h m1 c k \<union> (case map_of s c of None \<Rightarrow> {} | Some r \<Rightarrow> A c r k))"
    using Cons.IH[OF _ m1(2) n(2)] Cons.prems(1) by auto
  have "says h m2 = (\<lambda>c k. says h out c k \<union> (case map_of (e # s) c of None \<Rightarrow> {} | Some r \<Rightarrow> A c r k))"
    unfolding m2(4) m1(4) using n(1) by (auto simp: fun_eq_iff e)
  then show ?case using m1 m2 e by auto
qed simp

text \<open>
  What readers of a map see: the normalised runs.  Coverage is always that of the stored runs; the
  attributes are when the map is tidy.
\<close>

definition view :: "attr_heap \<Rightarrow> IDMap \<Rightarrow> ClientID \<Rightarrow> nat \<Rightarrow> byte list option set" where
  "view h m c k = (case map_of (m_clients m) c of None \<Rightarrow> {} | Some r \<Rightarrow> facts h (getAttrs r) k)"

lemma view_says:
  assumes "idmap_inv h m"
  shows "None \<in> view h m c k \<longleftrightarrow> None \<in> says h m c k" "tidy m \<Longrightarrow> view h m = says h m"
proof -
  show "None \<in> view h m c k \<longleftrightarrow> None \<in> says h m c k"
    using idmap_lookup(2)[OF assms] by (cases "map_of (m_clients m) c") (simp_all add: view_def says_def)
  show "view h m = says h m" if "tidy m"
  proof (intro ext)
    fix c k
    show "view h m c k = says h m c k"
      using idmap_lookup(4)[OF assms _ that] by (cases "map_of (m_clients m) c") (simp_all add: view_def says_def)
  qed
qed

lemma facts_None: "facts h rs k \<noteq> {} \<longleftrightarrow> None \<in> facts h rs k"
proof -
  have "remark r k = {} \<or> None \<in> remark r k" for r by (simp add: remark_def)
  then have "remarks rs k \<noteq> {} \<longleftrightarrow> None \<in> remarks rs k" unfolding remarks_def by blast
  then show ?thesis by (auto simp: facts_def image_iff)
qed

lemma MergeIDMaps_correct:
  assumes "\<forall>m. Some m \<in> set maps \<longrightarrow> idmap_inv h m"
  shows "\<exists>m'. MergeIDMaps h maps = Inr m' \<and> idmap_inv h m' \<and> ((\<forall>m. Some m \<in> set maps \<longrightarrow> tidy m) \<longrightarrow> tidy m') \<and>
    says h m' = (\<lambda>c k. \<Union>m \<in> {m. Some m \<in> set maps}. view h m c k)"
proof -
  let ?f = "\<lambda>out m. case m of None \<Rightarrow> Inr out
     | Some m \<Rightarrow> efold (\<lambda>out (c, r). add_attr_ranges h c out (getAttrs r)) out (m_clients m)"
  have one: "\<exists>m'. ?f out (Some m) = Inr m' \<and> idmap_inv h m' \<and> (tidy m \<and> tidy out \<longrightarrow> tidy m') \<and>
      says h m' = (\<lambda>c k. says h out c k \<union> view h m c k)" if "idmap_inv h m" "idmap_inv h out" for m out
  proof -
    have d: "distinct (map fst (m_clients m))" using that(1) by (simp add: idmap_inv_def)
    have "puts h c (facts h (getAttrs r)) (tidy m) out' (add_attr_ranges h c out' (getAttrs r))"
      if "idmap_inv h out'" "(c, r) \<in> set (m_clients m)" for out' c r
    proof -
      have l: "map_of (m_clients m) c = Some r" using d that(2) by (simp add: map_of_eq_Some_iff)
      show ?thesis using idmap_lookup(3,5)[OF \<open>idmap_inv h m\<close> l] by (intro puts_weaken[OF puts_ranges[OF that(1)]]) auto
    qed
    from efold_clients[of h "m_clients m" "\<lambda>c r. facts h (getAttrs r)" "tidy m" "\<lambda>out (c, r). add_attr_ranges h c out (getAttrs r)",
        OF _ that(2) d] this
    show ?thesis by (simp add: view_def)
  qed
  have "\<exists>m'. efold ?f out maps = Inr m' \<and> idmap_inv h m' \<and> ((\<forall>m. Some m \<in> set maps \<longrightarrow> tidy m) \<and> tidy out \<longrightarrow> tidy m') \<and>
    says h m' = (\<lambda>c k. says h out c k \<union> (\<Union>m \<in> {m. Some m \<in> set maps}. view h m c k))" if "idmap_inv h out" for out
    using assms that
  proof (induction maps arbitrary: out)
    case (Cons m maps)
    show ?case
    proof (cases m)
      case None
      then show ?thesis using Cons by simp
    next
      case (Some m1)
      then obtain o1 where o1: "?f out (Some m1) = Inr o1" "idmap_inv h o1" "tidy m1 \<and> tidy out \<longrightarrow> tidy o1"
          "says h o1 = (\<lambda>c k. says h out c k \<union> view h m1 c k)"
        using one[OF _ Cons.prems(2), of m1] Cons.prems(1) by auto
      obtain o2 where o2: "efold ?f o1 maps = Inr o2" "idmap_inv h o2" "(\<forall>m. Some m \<in> set maps \<longrightarrow> tidy m) \<and> tidy o1 \<longrightarrow> tidy o2"
          "says h o2 = (\<lambda>c k. says h o1 c k \<union> (\<Union>m \<in> {m. Some m \<in> set maps}. view h m c k))"
        using Cons.IH[OF _ o1(2)] Cons.prems(1) by auto
      have "{x. Some x \<in> set (m # maps)} = insert m1 {x. Some x \<in> set maps}" using Some by auto
      then show ?thesis using o1 o2 Some by (auto simp: Un_assoc)
    qed
  qed simp
  from this[of NewIDMap] show ?thesis by (simp add: MergeIDMaps_def)
qed

text \<open>Excluding runs from one attributed run.\<close>

lemma stamp_span: "stamp h (A \<union> B) attrs k = stamp h A attrs k \<union> stamp h B attrs k" "stamp h {} attrs k = {}"
  by (auto simp: stamp_def)

lemma interval_cut:
  assumes "a < t" "s < b" "s \<le> t" "\<And>k. k \<in> E \<Longrightarrow> t < k"
  shows "{a..<b::nat} - ({s..<t} \<union> E) = {a..<s} \<union> ({min b t..<b} - E)"
proof -
  have "k \<notin> E" if "k < s" for k using assms(3) assms(4)[of k] that by auto
  then show ?thesis using assms(1-3) by auto
qed

lemma exclude_attr_loop_correct:
  "idmap_inv h out \<Longrightarrow> normal es \<Longrightarrow> unat clock + unat remaining < 2 ^ 64 \<Longrightarrow>
   \<forall>p \<in> set attrs. \<exists>k. attrKey (h p) = Inr k \<Longrightarrow>
   puts h c (stamp h (span clock remaining - covered es) attrs) (distinct (map (akey h) attrs)) out
     (exclude_attr_loop h c attrs out clock remaining es)"
proof (induction es arbitrary: out clock remaining)
  case Nil
  then show ?case using puts_Add[OF Nil.prems(1,3,4)] puts_weaken[OF puts_refl[OF Nil.prems(1)]]
    by (auto simp: stamp_span word_gt_0)
next
  case (Cons e es)
  note add = puts_Add[OF Cons.prems(1) _ Cons.prems(4)]
  have fe: "fits e" "normal es" "\<And>k. k \<in> covered es \<Longrightarrow> stop e < k" 
    using Cons.prems(2) normal_bound[OF Cons.prems(2)] by (auto simp: normal_Cons)
  have u: "unat (clock + remaining) = unat clock + unat remaining" "unat (Clock e + Len e) = stop e"
    using Cons.prems(3) fe(1) by (simp_all add: unat_add_fits unat_end)
  have ce: "clocks e = {start e..<stop e}" by (simp add: clocks_def)
  consider (none) "remaining = 0" | (before) "remaining \<noteq> 0" "stop e \<le> unat clock"
    | (after) "remaining \<noteq> 0" "\<not> stop e \<le> unat clock" "unat clock + unat remaining \<le> start e"
    | (overlap) "remaining \<noteq> 0" "\<not> stop e \<le> unat clock" "\<not> unat clock + unat remaining \<le> start e" by blast
  then show ?case
  proof cases
    case none
    then show ?thesis using puts_weaken[OF puts_refl[OF Cons.prems(1)]] by (simp add: stamp_span)
  next
    case before
    then have "span clock remaining - covered (e # es) = span clock remaining - covered es" by (auto simp: ce)
    then show ?thesis using before u Cons.IH[OF Cons.prems(1) fe(2) Cons.prems(3,4)] by (simp add: word_le_nat_alt)
  next
    case after
    have "span clock remaining - covered (e # es) = span clock remaining" using after(3) fe(3) by (fastforce simp: ce)
    then show ?thesis using after u add[OF Cons.prems(3)] by (simp add: word_le_nat_alt)
  next
    case overlap
    define cov where "cov = min (clock + remaining) (Clock e + Len e)"
    have cov: "unat cov = min (unat clock + unat remaining) (stop e)" using u by (auto simp: cov_def min_def word_le_nat_alt)
    have rem: "unat (clock + remaining - cov) = unat clock + unat remaining - unat cov"
      using cov u(1) by (subst unat_sub) (simp_all add: word_le_nat_alt)
    have head: "puts h c (stamp h {unat clock..<start e} attrs) (distinct (map (akey h) attrs)) out
        (if Clock e > clock then IDMap_Add h out c clock (Clock e - clock) attrs else Inr out)"
    proof (cases "Clock e > clock")
      case True
      then have "unat (Clock e - clock) = start e - unat clock" by (simp add: unat_sub word_le_nat_alt word_less_nat_alt)
      then show ?thesis using True add[of clock "Clock e - clock" c] unsigned_less[of "Clock e", where ?'a = nat]
        by (simp add: word_less_nat_alt)
    next
      case False
      then have "{unat clock..<start e} = {}" by (simp add: word_less_nat_alt)
      then show ?thesis using False puts_weaken[OF puts_refl[OF Cons.prems(1)]] by (simp add: stamp_span)
    qed
    have sp: "span cov (clock + remaining - cov) = {unat cov..<unat clock + unat remaining}"
      and f: "unat cov + unat (clock + remaining - cov) < 2 ^ 64" using rem cov Cons.prems(3) by auto
    have st: "span clock remaining - covered (e # es) = {unat clock..<start e} \<union> (span cov (clock + remaining - cov) - covered es)"
      unfolding sp unfolding cov using interval_cut[of "unat clock" "stop e" "start e" _ "covered es"] overlap fe(3) by (simp add: ce)
    have "exclude_attr_loop h c attrs out clock remaining (e # es) =
        ebind (if Clock e > clock then IDMap_Add h out c clock (Clock e - clock) attrs else Inr out)
          (\<lambda>out. exclude_attr_loop h c attrs out cov (clock + remaining - cov) es)"
      using overlap u by (simp add: word_le_nat_alt cov_def Let_def)
    then show ?thesis
      using puts_trans[OF head Cons.IH[OF _ fe(2) f Cons.prems(4)]] unfolding st by (simp add: stamp_span)
  qed
qed

text \<open>A loop over the normalised runs of a map, one client at a time.\<close>

lemma efold_map:
  assumes "idmap_inv h m"
    and "\<And>out c r. idmap_inv h out \<Longrightarrow> map_of (m_clients m) c = Some r \<Longrightarrow> puts h c (A c r) t out (f out (c, r))"
  shows "\<exists>m'. efold f NewIDMap (m_clients m) = Inr m' \<and> idmap_inv h m' \<and> (t \<longrightarrow> tidy m') \<and>
    says h m' = (\<lambda>c k. case map_of (m_clients m) c of None \<Rightarrow> {} | Some r \<Rightarrow> A c r k)"
proof -
  have d: "distinct (map fst (m_clients m))" using assms(1) by (simp add: idmap_inv_def)
  have "puts h c (A c r) t out (f out (c, r))" if "idmap_inv h out" "(c, r) \<in> set (m_clients m)" for out c r
    using assms(2) that d by (simp add: map_of_eq_Some_iff)
  from efold_clients[of h "m_clients m" A t f, OF this NewIDMap_inv(1) d] show ?thesis by simp
qed

lemma exclude_runs:
  "idmap_inv h out \<Longrightarrow> normal es \<Longrightarrow> \<forall>x \<in> set rs. afits x \<and> keyed h x \<Longrightarrow>
   puts h c (\<lambda>k. if k \<in> covered es then {} else facts h rs k) (\<forall>x \<in> set rs. distinct (map (akey h) (attr_list x))) out
     (efold (\<lambda>out rg. exclude_attr_loop h c (attr_list rg) out (aClock rg) (aLen rg) es) out rs)"
proof (induction rs arbitrary: out)
  case Nil
  then show ?case using puts_weaken[OF puts_refl] by simp
next
  case (Cons x xs)
  let ?t = "\<forall>y \<in> set (x # xs). distinct (map (akey h) (attr_list y))"
  have x: "unat (aClock x) + unat (aLen x) < 2 ^ 64" "\<forall>p \<in> set (attr_list x). \<exists>k. attrKey (h p) = Inr k"
    using Cons.prems(3) by (simp_all add: afits_def keyed_def)
  have "puts h c (\<lambda>k. if k \<in> covered es then {} else facts h [x] k) ?t out
      (exclude_attr_loop h c (attr_list x) out (aClock x) (aLen x) es)"
    by (rule puts_weaken[OF exclude_attr_loop_correct[OF Cons.prems(1,2) x]]) (auto simp: facts_one stamp_def)
  from puts_trans[OF this, of "\<lambda>k. if k \<in> covered es then {} else facts h xs k"
      "\<lambda>out. efold (\<lambda>out rg. exclude_attr_loop h c (attr_list rg) out (aClock rg) (aLen rg) es) out xs"]
  have "puts h c (\<lambda>k. (if k \<in> covered es then {} else facts h [x] k) \<union> (if k \<in> covered es then {} else facts h xs k)) ?t out
      (efold (\<lambda>out rg. exclude_attr_loop h c (attr_list rg) out (aClock rg) (aLen rg) es) out (x # xs))"
    using puts_weaken[OF Cons.IH[OF _ Cons.prems(2)], of _ _ ?t] Cons.prems(3) by simp
  then show ?case by (rule puts_weaken) (auto simp: facts_Cons[of h x xs])
qed

lemma ExcludeIDMap_correct:
  assumes "idmap_inv h m" "idset_inv ex"
  shows "\<exists>m'. ExcludeIDMap h (Some m) (Some ex) = Inr m' \<and> idmap_inv h m' \<and> (tidy m \<longrightarrow> tidy m') \<and>
    says h m' = (\<lambda>c k. if k \<in> members ex c then {} else view h m c k)"
proof -
  let ?f = "\<lambda>out (client, r).
             case map_of ex client of None \<Rightarrow> add_attr_ranges h client out (getAttrs r)
             | Some er \<Rightarrow>
               efold (\<lambda>out rg. exclude_attr_loop h client (attr_list rg) out (aClock rg) (aLen rg) (getIDs er)) out (getAttrs r)"
  have "puts h c (\<lambda>k. if k \<in> members ex c then {} else facts h (getAttrs r) k) (tidy m) out (?f out (c, r))"
    if o: "idmap_inv h out" and r: "map_of (m_clients m) c = Some r" for out c r
  proof -
    note l = idmap_lookup(3,5)[OF assms(1) r]
    show ?thesis
    proof (cases "map_of ex c")
      case None
      then have "members ex c = {}" by (simp add: members_def)
      then show ?thesis using puts_weaken[OF puts_ranges[OF o]] l None by simp
    next
      case (Some er)
      note x = inv_lookup(1,2)[OF assms(2) Some]
      show ?thesis using puts_weaken[OF exclude_runs[OF o x(1), of "getAttrs r" c], of _ "tidy m"] l Some x(2) by simp
    qed
  qed
  from efold_map[OF assms(1), of "\<lambda>c r k. if k \<in> members ex c then {} else facts h (getAttrs r) k" "tidy m" ?f, OF this]
  obtain m' where m': "efold ?f NewIDMap (m_clients m) = Inr m'" "idmap_inv h m'" "tidy m \<longrightarrow> tidy m'"
    "says h m' = (\<lambda>c k. case map_of (m_clients m) c of None \<Rightarrow> {} | Some r \<Rightarrow> if k \<in> members ex c then {} else facts h (getAttrs r) k)"
    by blast
  have "says h m' = (\<lambda>c k. if k \<in> members ex c then {} else view h m c k)"
    unfolding m'(4) by (intro ext) (simp add: view_def split: option.splits)
  then show ?thesis using m' by (simp add: ExcludeIDMap_def)
qed

lemma FilterIDMap_correct:
  assumes "idmap_inv h m"
  shows "\<exists>m'. FilterIDMap h (Some m) pred = Inr m' \<and> idmap_inv h m' \<and> (tidy m \<longrightarrow> tidy m') \<and>
    says h m' = (\<lambda>c k. case map_of (m_clients m) c of None \<Rightarrow> {}
      | Some r \<Rightarrow> facts h (filter (\<lambda>x. pred (attr_list x)) (getAttrs r)) k)"
proof -
  have "puts h c (facts h (filter (\<lambda>x. pred (attr_list x)) (getAttrs r))) (tidy m) out
      (add_attr_ranges h c out (filter (\<lambda>x. pred (attr_list x)) (getAttrs r)))"
    if "idmap_inv h out" "map_of (m_clients m) c = Some r" for out c r
    using idmap_lookup(3,5)[OF assms that(2)] by (intro puts_weaken[OF puts_ranges[OF that(1)]]) auto
  from efold_map[OF assms, of "\<lambda>c r. facts h (filter (\<lambda>x. pred (attr_list x)) (getAttrs r))" "tidy m"
      "\<lambda>out (c, r). add_attr_ranges h c out (filter (\<lambda>rg. pred (attr_list rg)) (getAttrs r))"] this
  show ?thesis by (simp add: FilterIDMap_def)
qed

text \<open>The overlap of two maps.\<close>

definition meet :: "(nat \<Rightarrow> byte list option set) \<Rightarrow> (nat \<Rightarrow> byte list option set) \<Rightarrow> nat \<Rightarrow> byte list option set" where
  "meet A B k = (if None \<in> A k \<and> None \<in> B k then A k \<union> B k else {})"

lemma facts_beyond: "\<forall>s \<in> set rs. n \<le> astart s \<Longrightarrow> k < n \<Longrightarrow> facts h rs k = {}"
proof -
  assume "\<forall>s \<in> set rs. n \<le> astart s" "k < n"
  then have "remark s k = {}" if "s \<in> set rs" for s using that by (auto simp: remark_def)
  then show ?thesis by (simp add: facts_def remarks_def)
qed

lemma facts_outside: "\<not> (astart r \<le> k \<and> k < astop r) \<Longrightarrow> facts h [r] k = {}"
  by (simp add: facts_one stamp_def)

lemma meet_Cons:
  assumes "apart (a # as')" "apart (b # bs)"
  shows "astop a < astop b \<Longrightarrow> meet (facts h (a # as')) (facts h (b # bs)) k =
      meet (facts h [a]) (facts h [b]) k \<union> meet (facts h as') (facts h (b # bs)) k"
    and "\<not> astop a < astop b \<Longrightarrow> meet (facts h (a # as')) (facts h (b # bs)) k =
      meet (facts h [a]) (facts h [b]) k \<union> meet (facts h (a # as')) (facts h bs) k"
proof -
  have later: "k < astop a \<Longrightarrow> facts h as' k = {}" "k < astop b \<Longrightarrow> facts h bs k = {}"
    using assms facts_beyond[of as' "astop a" k h] facts_beyond[of bs "astop b" k h] by (auto simp: apart_def)
  note c = facts_Cons[of h a as' k] facts_Cons[of h b bs k]
  show "meet (facts h (a # as')) (facts h (b # bs)) k =
      meet (facts h [a]) (facts h [b]) k \<union> meet (facts h as') (facts h (b # bs)) k" if "astop a < astop b"
  proof (cases "astart a \<le> k \<and> k < astop a")
    case True
    then have "facts h as' k = {}" "facts h bs k = {}" using later that by linarith+
    then show ?thesis unfolding meet_def c by simp
  next
    case False
    then show ?thesis unfolding meet_def c using facts_outside[OF False, of h] by auto
  qed
  show "meet (facts h (a # as')) (facts h (b # bs)) k =
      meet (facts h [a]) (facts h [b]) k \<union> meet (facts h (a # as')) (facts h bs) k" if "\<not> astop a < astop b"
  proof (cases "astart b \<le> k \<and> k < astop b")
    case True
    then have "facts h as' k = {}" "facts h bs k = {}" using later that by linarith+
    then show ?thesis unfolding meet_def c by simp
  next
    case False
    then show ?thesis unfolding meet_def c using facts_outside[OF False, of h] by auto
  qed
qed

lemma puts_meet:
  assumes "idmap_inv h out" "afits a" "afits b" "keyed h a" "keyed h b"
  shows "puts h c (meet (facts h [a]) (facts h [b])) (distinct (map (akey h) (attr_list a @ attr_list b))) out
    (let clock = max (aClock a) (aClock b); end = min (aClock a + aLen a) (aClock b + aLen b)
     in if end > clock then IDMap_Add h out c clock (end - clock) (attr_list a @ attr_list b) else Inr out)"
proof -
  define lo hi where "lo = max (aClock a) (aClock b)" and "hi = min (aClock a + aLen a) (aClock b + aLen b)"
  have u: "unat lo = max (astart a) (astart b)" "unat hi = min (astop a) (astop b)"
    using assms(2,3) by (auto simp: lo_def hi_def max_def min_def word_le_nat_alt unat_add_fits afits_def)
  have m: "meet (facts h [a]) (facts h [b]) k = stamp h {unat lo..<unat hi} (attr_list a @ attr_list b) k" for k
    unfolding meet_def facts_one stamp_def u by auto
  show ?thesis
  proof (cases "hi > lo")
    case True
    then have s: "unat (hi - lo) = unat hi - unat lo" by (simp add: unat_sub word_le_nat_alt word_less_nat_alt)
    have f: "unat lo + unat (hi - lo) < 2 ^ 64"
      using s True unsigned_less[of hi, where ?'a = nat] by (simp add: word_less_nat_alt)
    have "\<forall>p \<in> set (attr_list a @ attr_list b). \<exists>k. attrKey (h p) = Inr k" using assms(4,5) by (auto simp: keyed_def)
    then have "puts h c (meet (facts h [a]) (facts h [b])) (distinct (map (akey h) (attr_list a @ attr_list b))) out
        (IDMap_Add h out c lo (hi - lo) (attr_list a @ attr_list b))"
      using True s by (intro puts_weaken[OF puts_Add[OF assms(1) f]]) (simp_all add: m word_less_nat_alt)
    then show ?thesis using True by (simp add: Let_def flip: lo_def hi_def)
  next
    case False
    then have "{unat lo..<unat hi} = {}" by (simp add: word_less_nat_alt)
    then have "puts h c (meet (facts h [a]) (facts h [b])) (distinct (map (akey h) (attr_list a @ attr_list b))) out (Inr out)"
      by (intro puts_weaken[OF puts_refl[OF assms(1)]]) (simp_all add: m stamp_span)
    then show ?thesis using False by (simp add: Let_def flip: lo_def hi_def)
  qed
qed

lemma intersect_attr_loop_correct:
  "idmap_inv h out \<Longrightarrow> apart as' \<Longrightarrow> apart bs \<Longrightarrow> \<forall>x \<in> set as' \<union> set bs. keyed h x \<Longrightarrow>
   puts h c (meet (facts h as') (facts h bs))
     (\<forall>a \<in> set as'. \<forall>b \<in> set bs. distinct (map (akey h) (attr_list a @ attr_list b))) out (intersect_attr_loop h c out as' bs)"
proof (induction h c out as' bs rule: intersect_attr_loop.induct)
  case (1 h c out a as' b bs)
  let ?t = "\<forall>x \<in> set (a # as'). \<forall>y \<in> set (b # bs). distinct (map (akey h) (attr_list x @ attr_list y))"
  have f: "afits a" "afits b" "apart as'" "apart bs" using "1.prems"(2,3) by (simp_all add: apart_def)
  have lt: "aClock a + aLen a < aClock b + aLen b \<longleftrightarrow> astop a < astop b"
    using f(1,2) by (simp add: word_less_nat_alt unat_add_fits afits_def)
  define step where "step = (let clock = max (aClock a) (aClock b); end = min (aClock a + aLen a) (aClock b + aLen b)
     in if end > clock then IDMap_Add h out c clock (end - clock) (attr_list a @ attr_list b) else Inr out)"
  have st: "puts h c (meet (facts h [a]) (facts h [b])) ?t out step"
    unfolding step_def by (rule puts_weaken[OF puts_meet[OF "1.prems"(1) f(1,2)]]) (use "1.prems"(4) in auto)
  show ?case
  proof (cases "astop a < astop b")
    case True
    have eq: "intersect_attr_loop h c out (a # as') (b # bs) = ebind step (\<lambda>out. intersect_attr_loop h c out as' (b # bs))"
      using iffD2[OF lt True] by (simp only: intersect_attr_loop.simps(1) Let_def step_def if_True)
    have "puts h c (meet (facts h as') (facts h (b # bs))) ?t out' (intersect_attr_loop h c out' as' (b # bs))"
      if "idmap_inv h out'" for out'
      by (rule puts_weaken[OF "1.IH"(1)[OF refl refl refl refl iffD2[OF lt True] that f(3) "1.prems"(3)]])
        (use "1.prems"(4) in simp_all)
    from puts_trans[OF st this] show ?thesis unfolding eq
      by (rule puts_weaken) (simp_all only: meet_Cons(1)[OF "1.prems"(2,3) True])
  next
    case False
    have eq: "intersect_attr_loop h c out (a # as') (b # bs) = ebind step (\<lambda>out. intersect_attr_loop h c out (a # as') bs)"
      using False lt by (simp only: intersect_attr_loop.simps(1) Let_def step_def if_False simp_thms)
    have "puts h c (meet (facts h (a # as')) (facts h bs)) ?t out' (intersect_attr_loop h c out' (a # as') bs)"
      if "idmap_inv h out'" for out'
      by (rule puts_weaken[OF "1.IH"(2)[OF refl refl refl refl _ that "1.prems"(2) f(4)]])
        (use "1.prems"(4) lt False in simp_all)
    from puts_trans[OF st this] show ?thesis unfolding eq
      by (rule puts_weaken) (simp_all only: meet_Cons(2)[OF "1.prems"(2,3) False])
  qed
qed (auto intro!: puts_weaken[OF puts_refl] simp: meet_def)

lemma IntersectIDMaps_correct:
  assumes "idmap_inv h a" "idmap_inv h b"
  shows "\<exists>m'. IntersectIDMaps h (Some a) (Some b) = Inr m' \<and> idmap_inv h m' \<and>
    says h m' = (\<lambda>c. meet (view h a c) (view h b c))"
proof -
  let ?f = "\<lambda>out (client, ar). case map_of (m_clients b) client of None \<Rightarrow> Inr out
            | Some br \<Rightarrow> intersect_attr_loop h client out (getAttrs ar) (getAttrs br)"
  have "puts h c (meet (facts h (getAttrs r)) (view h b c)) False out (?f out (c, r))"
    if o: "idmap_inv h out" and r: "map_of (m_clients a) c = Some r" for out c r
  proof (cases "map_of (m_clients b) c")
    case None
    then show ?thesis by (auto intro!: puts_weaken[OF puts_refl[OF o]] simp: meet_def view_def)
  next
    case (Some br)
    then have v: "view h b c = facts h (getAttrs br)" by (simp add: view_def fun_eq_iff)
    note la = idmap_lookup(1,3)[OF assms(1) r] and lb = idmap_lookup(1,3)[OF assms(2) Some]
    have "\<forall>x \<in> set (getAttrs r) \<union> set (getAttrs br). keyed h x" using la(2) lb(2) by blast
    from puts_weaken[OF intersect_attr_loop_correct[OF o la(1) lb(1) this]] show ?thesis
      unfolding v using Some by simp
  qed
  from efold_map[OF assms(1), of "\<lambda>c r. meet (facts h (getAttrs r)) (view h b c)" False ?f, OF this]
  obtain m' where m': "efold ?f NewIDMap (m_clients a) = Inr m'" "idmap_inv h m'"
    "says h m' = (\<lambda>c k. case map_of (m_clients a) c of None \<Rightarrow> {} | Some r \<Rightarrow> meet (facts h (getAttrs r)) (view h b c) k)"
    by blast
  have "says h m' = (\<lambda>c. meet (view h a c) (view h b c))"
    unfolding m'(3) by (intro ext) (simp add: view_def meet_def split: option.splits)
  then show ?thesis using m' by (simp add: IntersectIDMaps_def)
qed

lemma puts_stamp_runs:
  assumes "\<forall>p \<in> set attrs. \<exists>k. attrKey (h p) = Inr k"
  shows "idmap_inv h out \<Longrightarrow> \<forall>r \<in> set rs. fits r \<Longrightarrow>
    puts h c (stamp h (covered rs) attrs) (distinct (map (akey h) attrs)) out
      (efold (\<lambda>out rg. IDMap_Add h out c (Clock rg) (Len rg) attrs) out rs)"
proof (induction rs arbitrary: out)
  case Nil
  then show ?case using puts_weaken[OF puts_refl] by (simp add: stamp_span)
next
  case (Cons r rs)
  have "puts h c (stamp h (clocks r) attrs) (distinct (map (akey h) attrs)) out (IDMap_Add h out c (Clock r) (Len r) attrs)"
    using puts_Add[OF Cons.prems(1) _ assms] Cons.prems(2) by (simp add: fits_def clocks_def)
  from puts_trans[OF this Cons.IH] Cons.prems(2) show ?case by (simp add: stamp_span)
qed

lemma IDMapFromIDSet_correct:
  assumes "idset_inv s" "\<forall>p \<in> set attrs. \<exists>k. attrKey (h p) = Inr k"
  shows "\<exists>m. IDMapFromIDSet h (Some s) attrs = Inr m \<and> idmap_inv h m \<and> (distinct (map (akey h) attrs) \<longrightarrow> tidy m) \<and>
    says h m = (\<lambda>c. stamp h (members s c) attrs)"
proof -
  let ?f = "\<lambda>out (client, r). efold (\<lambda>out rg. IDMap_Add h out client (Clock rg) (Len rg) attrs) out (getIDs r)"
  have "puts h c (stamp h (members s c) attrs) (distinct (map (akey h) attrs)) out (?f out (c, r))"
    if "idmap_inv h out" "(c, r) \<in> set s" for out c r
    using puts_stamp_runs[OF assms(2) that(1), of "getIDs r" c] inv_lookup[OF assms(1) inv_entry[OF assms(1) that(2)]] by simp
  from efold_clients[of h s "\<lambda>c r. stamp h (members s c) attrs" "distinct (map (akey h) attrs)" ?f, OF this NewIDMap_inv(1)] assms(1)
  obtain m where m: "efold ?f NewIDMap s = Inr m" "idmap_inv h m" "distinct (map (akey h) attrs) \<longrightarrow> tidy m"
    "says h m = (\<lambda>c k. case map_of s c of None \<Rightarrow> {} | Some r \<Rightarrow> stamp h (members s c) attrs k)"
    by (auto simp: idset_inv_def)
  have "says h m = (\<lambda>c. stamp h (members s c) attrs)"
    unfolding m(4) by (intro ext) (simp add: members_def stamp_span split: option.splits)
  then show ?thesis using m by (simp add: IDMapFromIDSet_def)
qed

lemma IDSetFromIDMap_correct:
  assumes "idmap_inv h m"
  shows "idset_inv (IDSetFromIDMap (Some m)) \<and> members (IDSetFromIDMap (Some m)) = (\<lambda>c. {k. None \<in> says h m c k})"
proof -
  have d: "distinct (map fst (m_clients m))" using assms by (simp add: idmap_inv_def)
  let ?run = "\<lambda>x. \<lparr>Clock = aClock x, Len = aLen x\<rparr>"
  let ?f = "\<lambda>out (client, r). foldl (\<lambda>out rg. IDSet_Add out client (aClock rg) (aLen rg)) out (getAttrs r)"
  have fold: "foldl (\<lambda>out rg. IDSet_Add out c (aClock rg) (aLen rg)) out xs = add_ranges c out (map ?run xs)" for c out and xs :: "AttrRange list"
    by (simp add: add_ranges_def foldl_map)
  have "adds c out {k. None \<in> says h m c k} (?f out (c, r))" if "idset_inv out" "(c, r) \<in> set (m_clients m)" for out c r
  proof -
    have l: "map_of (m_clients m) c = Some r" using d that(2) by (simp add: map_of_eq_Some_iff)
    have "k \<in> covered (map ?run (getAttrs r)) \<longleftrightarrow> None \<in> facts h (getAttrs r) k" for k
      by (auto simp: facts_def remarks_def remark_def clocks_def image_iff split: if_splits)
    then have "covered (map ?run (getAttrs r)) = {k. None \<in> says h m c k}" using idmap_lookup(2)[OF assms l] by blast
    moreover have "\<forall>x \<in> set (map ?run (getAttrs r)). fits x" using idmap_lookup(3)[OF assms l] by (auto simp: fits_def afits_def)
    ultimately show ?thesis using adds_ranges[OF that(1), of "map ?run (getAttrs r)" c] by (simp only: prod.case fold)
  qed
  from fold_adds[of "m_clients m" "\<lambda>c r. {k. None \<in> says h m c k}" ?f, OF this d]
  have "idset_inv (foldl ?f NewIDSet (m_clients m)) \<and> members (foldl ?f NewIDSet (m_clients m)) =
      (\<lambda>c. case map_of (m_clients m) c of None \<Rightarrow> {} | Some r \<Rightarrow> {k. None \<in> says h m c k})" .
  moreover have "(case map_of (m_clients m) c of None \<Rightarrow> {} | Some r \<Rightarrow> {k. None \<in> says h m c k}) = {k. None \<in> says h m c k}" for c
    by (simp add: says_def split: option.splits)
  ultimately show ?thesis by (simp only: IDSetFromIDMap_def option.case)
qed

subsection \<open>Slices\<close>

fun tiles :: "AttrRange list \<Rightarrow> nat \<Rightarrow> nat \<Rightarrow> bool" where
  "tiles [] a b \<longleftrightarrow> a = b"
| "tiles (x # xs) a b \<longleftrightarrow> astart x = a \<and> a < astop x \<and> tiles xs (astop x) b"

text \<open>A piece says of its clocks what the runs do; a gap says nothing.\<close>

definition piece_ok :: "attr_heap \<Rightarrow> (nat \<Rightarrow> byte list option set) \<Rightarrow> AttrRange \<Rightarrow> bool" where
  "piece_ok h F x \<longleftrightarrow> (\<forall>k. astart x \<le> k \<and> k < astop x \<longrightarrow> F k = (if Attrs x = None then {} else facts h [x] k))"

lemma tiles_le: "tiles xs a b \<Longrightarrow> a \<le> b \<and> (\<forall>x \<in> set xs. a \<le> astart x \<and> astop x \<le> b)"
  by (induction xs a b rule: tiles.induct) force+

lemma tiles_append: "tiles (xs @ ys) a b \<longleftrightarrow> (\<exists>c. tiles xs a c \<and> tiles ys c b)"
  by (induction xs a b rule: tiles.induct) auto

lemma tiles_last: "tiles xs a b \<Longrightarrow> xs \<noteq> [] \<Longrightarrow> astop (last xs) = b"
  by (induction xs a b rule: tiles.induct) auto

definition sliced :: "attr_heap \<Rightarrow> (nat \<Rightarrow> byte list option set) \<Rightarrow> AttrRange list \<Rightarrow> nat \<Rightarrow> nat \<Rightarrow> bool" where
  "sliced h F res p q \<longleftrightarrow> (\<exists>e. tiles res p e \<and> e \<le> q \<and> (\<forall>x \<in> set res. piece_ok h F x) \<and> (\<forall>k. e \<le> k \<and> k < q \<longrightarrow> F k = {}))"

lemma sliced_Nil: "p \<le> q \<Longrightarrow> (\<And>k. p \<le> k \<Longrightarrow> k < q \<Longrightarrow> F k = {}) \<Longrightarrow> sliced h F [] p q"
  by (simp add: sliced_def)

lemma sliced_Cons:
  assumes "sliced h F res (astop x) q" "astart x = p" "p < astop x" "piece_ok h F x"
  shows "sliced h F (x # res) p q"
  using assms unfolding sliced_def by auto

lemma sliced_cong:
  assumes "sliced h F res p q" "\<And>k. p \<le> k \<Longrightarrow> k < q \<Longrightarrow> F k = G k"
  shows "sliced h G res p q"
proof -
  obtain e where e: "tiles res p e" "e \<le> q" "\<forall>x \<in> set res. piece_ok h F x" "\<forall>k. e \<le> k \<and> k < q \<longrightarrow> F k = {}"
    using assms(1) by (auto simp: sliced_def)
  note t = tiles_le[OF e(1)]
  have "piece_ok h G x" if "x \<in> set res" for x
  proof -
    have "p \<le> astart x" "astop x \<le> q" "piece_ok h F x" using t e(2,3) that by auto
    then show ?thesis using assms(2) by (simp add: piece_ok_def)
  qed
  moreover have "G k = {}" if "e \<le> k" "k < q" for k using that e(4) t assms(2)[of k] by simp
  ultimately show ?thesis using e(1,2) unfolding sliced_def by blast
qed

lemma slice_loop_correct:
  "apart rs \<Longrightarrow> unat clock + unat n < 2 ^ 64 \<Longrightarrow> unat clock \<le> unat p \<Longrightarrow> unat p \<le> unat clock + unat n \<Longrightarrow> n \<noteq> 0 \<Longrightarrow>
   \<forall>r \<in> set rs. unat p \<le> max (astart r) (unat clock) \<Longrightarrow>
   sliced h (facts h rs) (slice_loop clock n rs p) (unat p) (unat clock + unat n)"
proof (induction rs arbitrary: p)
  case Nil
  then show ?case by (simp add: sliced_Nil)
next
  case (Cons r rs)
  define q where "q = unat clock + unat n"
  have f: "afits r" "apart rs" "\<forall>s \<in> set rs. astop r \<le> astart s" using Cons.prems(1) by (simp_all add: apart_def)
  have u: "unat (aClock r + aLen r) = astop r" "unat (clock + n) = q"
    using f(1) Cons.prems(2) by (simp_all add: unat_add_fits afits_def q_def)
  note split = facts_Cons[of h r rs]
  have beyond: "facts h rs k = {}" if "k < astop r" for k using facts_beyond[OF f(3) that] .
  consider (skip) "astop r \<le> unat clock" | (stop) "\<not> astop r \<le> unat clock" "q \<le> astart r"
    | (hit) "\<not> astop r \<le> unat clock" "\<not> q \<le> astart r" by blast
  then show ?case unfolding q_def[symmetric]
  proof cases
    case skip
    then have "slice_loop clock n (r # rs) p = slice_loop clock n rs p" using u by (simp add: word_le_nat_alt)
    moreover have "facts h rs k = facts h (r # rs) k" if "unat p \<le> k" for k
      using facts_outside[of r k h] skip that Cons.prems(3) split[of k] by simp
    ultimately show "sliced h (facts h (r # rs)) (slice_loop clock n (r # rs) p) (unat p) q"
      using sliced_cong[OF Cons.IH[OF f(2) Cons.prems(2-5)]] Cons.prems(6) by (simp add: q_def)
  next
    case stop
    then have "slice_loop clock n (r # rs) p = []" using u by (simp add: word_le_nat_alt)
    moreover have "facts h (r # rs) k = {}" if "k < q" for k
      using that stop beyond[of k] facts_outside[of r k h] split[of k] by simp
    ultimately show "sliced h (facts h (r # rs)) (slice_loop clock n (r # rs) p) (unat p) q"
      using Cons.prems(4) by (simp add: sliced_Nil q_def)
  next
    case hit
    define cl where "cl = (if aClock r < clock then clock else aClock r)"
    define l1 where "l1 = (if aClock r < clock then aLen r - (clock - aClock r) else aLen r)"
    define l2 where "l2 = (if cl + l1 > clock + n then clock + n - cl else l1)"
    have cl: "unat cl = max (astart r) (unat clock)" by (auto simp: cl_def word_less_nat_alt max_def)
    have l1: "unat l1 = astop r - unat cl"
    proof (cases "aClock r < clock")
      case True
      then have "unat (clock - aClock r) = unat clock - astart r" by (simp add: unat_sub word_le_nat_alt word_less_nat_alt)
      then have "unat (aLen r - (clock - aClock r)) = astop r - unat clock"
        using hit(1) True by (subst unat_sub) (simp_all add: word_le_nat_alt word_less_nat_alt)
      then show ?thesis using True by (simp add: l1_def cl_def)
    qed (simp add: l1_def cl_def)
    have ltq: "unat cl < q" "unat cl < astop r" 
      using hit f(1) Cons.prems(5) by (auto simp: cl q_def afits_def unat_gt_0)
    have "unat (cl + l1) = astop r" using l1 ltq f(1) by (subst unat_add_fits) (simp_all add: afits_def)
    then have l2: "unat cl + unat l2 = min (astop r) q"
      using l1 ltq u(2) by (auto simp: l2_def word_less_nat_alt unat_sub word_le_nat_alt)
    have nz: "l2 \<noteq> 0" using l2 ltq by (auto simp: min_def split: if_splits)
    have e: "unat (cl + l2) = min (astop r) q" using l2 Cons.prems(2) by (subst unat_add_fits) (simp_all add: q_def)
    define x where "x = \<lparr>aClock = cl, aLen = l2, Attrs = Attrs r\<rparr>"
    have pr: "(if aClock r < clock then (clock, aLen r - (clock - aClock r)) else (aClock r, aLen r)) = (cl, l1)"
      by (simp add: cl_def l1_def)
    have "\<not> aClock r + aLen r \<le> clock" "\<not> aClock r \<ge> clock + n" using hit u by (simp_all add: word_le_nat_alt)
    then have eq: "slice_loop clock n (r # rs) p =
        (if p < cl then [\<lparr>aClock = p, aLen = cl - p, Attrs = None\<rparr>] else []) @ x # slice_loop clock n rs (cl + l2)"
      using nz by (simp only: slice_loop.simps if_False pr prod.case Let_def l2_def[symmetric] x_def)
    have pcl: "unat p \<le> unat cl" using Cons.prems(6) cl by simp
    have "sliced h (facts h rs) (slice_loop clock n rs (cl + l2)) (astop x) q"
      using Cons.IH[OF f(2) Cons.prems(2), of "cl + l2"] f(3) Cons.prems(5,6) cl e l2
      by (force simp: q_def x_def)
    then have "sliced h (facts h (r # rs)) (slice_loop clock n rs (cl + l2)) (astop x) q"
    proof (rule sliced_cong)
      fix k assume "astop x \<le> k" "k < q"
      then have "\<not> (astart r \<le> k \<and> k < astop r)" using l2 by (auto simp: x_def)
      then show "facts h rs k = facts h (r # rs) k" using facts_outside[of r k h] split[of k] by simp
    qed
    moreover have "piece_ok h (facts h (r # rs)) x"
    proof -
      have "facts h (r # rs) k = facts h [x] k" if "unat cl \<le> k" "k < unat cl + unat l2" for k
        using beyond[of k] split[of k] l2 cl that by (auto simp: facts_one stamp_def x_def attr_list_def)
      then show ?thesis using f(1) by (auto simp: piece_ok_def x_def afits_def)
    qed
    ultimately have sx: "sliced h (facts h (r # rs)) (x # slice_loop clock n rs (cl + l2)) (unat cl) q"
      using l2 ltq by (intro sliced_Cons) (simp_all add: x_def)
    show "sliced h (facts h (r # rs)) (slice_loop clock n (r # rs) p) (unat p) q"
    proof (cases "p < cl")
      case True
      define g where "g = \<lparr>aClock = p, aLen = cl - p, Attrs = None\<rparr>"
      have g: "astart g = unat p" "astop g = unat cl"
        using True by (simp_all add: g_def unat_sub word_le_nat_alt word_less_nat_alt)
      have "piece_ok h (facts h (r # rs)) g"
        using beyond split facts_outside[of r _ h] cl g Cons.prems(3) ltq by (auto simp: piece_ok_def g_def)
      then show ?thesis unfolding eq using sx g True
        by (simp add: sliced_Cons word_less_nat_alt flip: g_def)
    next
      case False
      then have "unat p = unat cl" using pcl by (simp add: word_less_nat_alt)
      then show ?thesis unfolding eq using sx False by simp
    qed
  qed
qed

lemma IDMap_Slice_correct:
  assumes "idmap_inv h m" "unat clock + unat n < 2 ^ 64" "n \<noteq> 0"
  shows "tiles (IDMap_Slice m c clock n) (unat clock) (unat clock + unat n)"
    "\<forall>x \<in> set (IDMap_Slice m c clock n). piece_ok h (view h m c) x"
proof -
  define q where "q = unat clock + unat n"
  define res where "res = (case map_of (m_clients m) c of None \<Rightarrow> [] | Some r \<Rightarrow> slice_loop clock n (getAttrs r) clock)"
  have u: "unat (clock + n) = q" using assms(2) by (simp add: unat_add_fits q_def)
  have "sliced h (view h m c) res (unat clock) q"
  proof (cases "map_of (m_clients m) c")
    case None
    then show ?thesis by (simp add: res_def sliced_Nil q_def view_def)
  next
    case (Some r)
    then have "view h m c = facts h (getAttrs r)" by (simp add: view_def fun_eq_iff)
    then show ?thesis
      using slice_loop_correct[OF idmap_lookup(1)[OF assms(1) Some] assms(2), of clock h] Some assms(3) by (simp add: res_def q_def)
  qed
  then obtain e where e: "tiles res (unat clock) e" "e \<le> q" "\<forall>x \<in> set res. piece_ok h (view h m c) x"
      "\<forall>k. e \<le> k \<and> k < q \<longrightarrow> view h m c k = {}"
    unfolding sliced_def by blast
  have "tiles (IDMap_Slice m c clock n) (unat clock) q \<and> (\<forall>x \<in> set (IDMap_Slice m c clock n). piece_ok h (view h m c) x)"
  proof (cases "res = []")
    case True
    then have s: "IDMap_Slice m c clock n = [\<lparr>aClock = clock, aLen = n, Attrs = None\<rparr>]"
      by (simp add: IDMap_Slice_def res_def[symmetric])
    have "piece_ok h (view h m c) \<lparr>aClock = clock, aLen = n, Attrs = None\<rparr>" using e(1,4) True by (simp add: piece_ok_def q_def)
    then show ?thesis unfolding s using assms(3) by (simp add: q_def unat_gt_0)
  next
    case False
    define w where "w = aClock (last res) + aLen (last res)"
    have w: "unat w = e" using tiles_last[OF e(1) False] e(2) assms(2) by (simp add: w_def unat_add_fits q_def)
    show ?thesis
    proof (cases "w < clock + n")
      case True
      define g where "g = \<lparr>aClock = w, aLen = clock + n - w, Attrs = None\<rparr>"
      have g: "astart g = e" "astop g = q"
        using w True u by (simp_all add: g_def unat_sub word_le_nat_alt word_less_nat_alt)
      have "IDMap_Slice m c clock n = res @ [g]"
        using True False by (simp add: IDMap_Slice_def res_def[symmetric] w_def[symmetric] g_def Let_def)
      moreover have "piece_ok h (view h m c) g" using e(4) g by (simp add: piece_ok_def g_def)
      moreover have "e < q" using True u w by (simp add: word_less_nat_alt)
      ultimately show ?thesis using e(1,3) g by (auto simp: tiles_append)
    next
      case nl: False
      have "IDMap_Slice m c clock n = res"
        using nl False by (simp add: IDMap_Slice_def res_def[symmetric] w_def[symmetric] Let_def)
      then show ?thesis using e nl u w by (simp add: word_less_nat_alt)
    qed
  qed
  then show "tiles (IDMap_Slice m c clock n) (unat clock) (unat clock + unat n)"
    "\<forall>x \<in> set (IDMap_Slice m c clock n). piece_ok h (view h m c) x" by (simp_all add: q_def)
qed

subsection \<open>Properties\<close>

text \<open>Two attributes of a concrete heap, for the examples.\<close>

definition example_heap :: attr_heap where
  "example_heap p = \<lparr>Name = [], Value = (if p = 0 then ANil else ABool True)\<rparr>"

lemma example_key: "attrKey (example_heap p) = Inr (if p = 0 then [0, 126] else [0, 120])"
  by (simp add: attrKey_def example_heap_def WriteVarString_def WriteVarStringE_def valid_utf8.simps WriteVarUint.simps WriteUint8_def)

lemma example_map:
  obtains m where "IDMap_Add example_heap NewIDMap 7 10 5 [0, 1] = Inr m" "idmap_inv example_heap m" "tidy m"
proof -
  have "puts example_heap 7 (stamp example_heap (span 10 5) [0, 1]) (distinct (map (akey example_heap) [0, 1])) NewIDMap
      (IDMap_Add example_heap NewIDMap 7 10 5 [0, 1])"
    by (rule puts_Add) (simp_all add: example_key)
  moreover have "distinct (map (akey example_heap) [0, 1])" by (simp add: akey_def example_key)
  ultimately show ?thesis using that by (auto simp: puts_def)
qed

text \<open>
  C16: a slice of an attributed map covers exactly the requested span: its pieces follow one another
  without gap or overlap, a piece with attributes says of each of its clocks what the map says, and
  a piece without stands for clocks that are not in the map.
\<close>

theorem idmap_slice_exact:
  assumes "idmap_inv h m" "unat clock + unat n < 2 ^ 64" "n \<noteq> 0"
  shows "tiles (IDMap_Slice m c clock n) (unat clock) (unat clock + unat n) \<and>
    (\<forall>x \<in> set (IDMap_Slice m c clock n). piece_ok h (view h m c) x)"
  using IDMap_Slice_correct[OF assms] by blast

theorem idmap_slice_exact_witness:
  "\<exists>m. IDMap_Add example_heap NewIDMap 7 10 5 [0, 1] = Inr m \<and> tiles (IDMap_Slice m 7 8 4) 8 12"
proof -
  obtain m where m: "IDMap_Add example_heap NewIDMap 7 10 5 [0, 1] = Inr m" "idmap_inv example_heap m" "tidy m"
    by (rule example_map)
  then show ?thesis using idmap_slice_exact[OF m(2), of 8 4 7] by simp
qed

text \<open>
  C17: excluding an identifier set from an attributed map removes exactly the identifiers of the set
  and keeps every attribute of the others; it never panics on a well-formed map.
\<close>

theorem idmap_exclude_exact:
  assumes "idmap_inv h m" "tidy m" "idset_inv ex"
  shows "\<exists>m'. ExcludeIDMap h (Some m) (Some ex) = Inr m' \<and> idmap_inv h m' \<and> tidy m' \<and>
    view h m' = (\<lambda>c k. if k \<in> members ex c then {} else view h m c k)"
  using ExcludeIDMap_correct[OF assms(1,3)] view_says(2) assms(2) by metis

theorem idmap_exclude_exact_witness:
  "\<exists>m m'. IDMap_Add example_heap NewIDMap 7 10 5 [0, 1] = Inr m \<and>
     ExcludeIDMap example_heap (Some m) (Some (IDSet_Add NewIDSet 7 11 2)) = Inr m' \<and> view example_heap m' 7 12 = {}"
proof -
  obtain m where m: "IDMap_Add example_heap NewIDMap 7 10 5 [0, 1] = Inr m" "idmap_inv example_heap m" "tidy m"
    by (rule example_map)
  have s: "idset_inv (IDSet_Add NewIDSet 7 11 2)" "members (IDSet_Add NewIDSet 7 11 2) 7 = {11, 12}"
    using members_Add[of NewIDSet 11 2 7] by auto
  then show ?thesis using idmap_exclude_exact[OF m(2,3) s(1)] m(1) by fastforce
qed

text \<open>
  C18: inserting a non-empty run that ends below 2^64 panics exactly when one of the attributes cannot be encoded.
  Otherwise the map covers the run besides what it covered; and if neither the map nor the given list repeats an
  attribute, readers see on the run exactly the given attributes besides those it had, and nothing else changes.
\<close>

theorem idmap_add_error:
  assumes "idmap_inv h m" "unat clock + unat n < 2 ^ 64" "n \<noteq> 0"
  shows "if \<forall>p \<in> set attrs. \<exists>k. attrKey (h p) = Inr k
    then \<exists>m'. IDMap_Add h m c clock n attrs = Inr m' \<and> idmap_inv h m' \<and>
      (\<forall>d k. IDMap_Has m' d k \<longleftrightarrow> IDMap_Has m d k \<or> d = c \<and> unat k \<in> span clock n) \<and>
      (tidy m \<and> distinct (map (akey h) attrs) \<longrightarrow>
        tidy m' \<and> view h m' = (view h m)(c := \<lambda>k. view h m c k \<union> stamp h (span clock n) attrs k))
    else \<exists>e. IDMap_Add h m c clock n attrs = Inl e"
proof (cases "\<forall>p \<in> set attrs. \<exists>k. attrKey (h p) = Inr k")
  case True
  then obtain m' where m': "IDMap_Add h m c clock n attrs = Inr m'" "idmap_inv h m'"
      "says h m' = (says h m)(c := \<lambda>k. says h m c k \<union> stamp h (span clock n) attrs k)"
      "distinct (map (akey h) attrs) \<and> tidy m \<longrightarrow> tidy m'"
    using puts_Add[OF assms(1,2), of attrs c] unfolding puts_def by blast
  have "\<forall>d k. IDMap_Has m' d k \<longleftrightarrow> IDMap_Has m d k \<or> d = c \<and> unat k \<in> span clock n"
    unfolding IDMap_Has_correct[OF assms(1)] IDMap_Has_correct[OF m'(2)] m'(3) by (auto simp: stamp_def)
  moreover have "view h m' = (view h m)(c := \<lambda>k. view h m c k \<union> stamp h (span clock n) attrs k)" "tidy m'"
    if "tidy m \<and> distinct (map (akey h) attrs)"
    using that m'(3,4) view_says(2)[OF assms(1)] view_says(2)[OF m'(2)] by simp_all
  ultimately show ?thesis using True m'(1,2) by simp
next
  case False
  show ?thesis unfolding if_not_P[OF False] by (rule Add_error[OF assms(3) False])
qed

theorem idmap_add_error_witness:
  "(\<exists>e. IDMap_Add (\<lambda>p. \<lparr>Name = [0xFF], Value = ANil\<rparr>) NewIDMap 7 10 5 [0] = Inl e) \<and>
   (\<exists>m. IDMap_Add example_heap NewIDMap 7 10 5 [0, 1] = Inr m \<and> view example_heap m 7 12 = {None, Some [0, 126], Some [0, 120]})"
proof -
  have "attrKey \<lparr>Name = [0xFF], Value = ANil\<rparr> = Inl EncErrInvalidUTF8"
    by (simp add: attrKey_def WriteVarString_def WriteVarStringE_def valid_utf8.simps utf8_eval)
  then have "\<exists>e. IDMap_Add (\<lambda>p. \<lparr>Name = [0xFF], Value = ANil\<rparr>) NewIDMap 7 10 5 [0] = Inl e"
    using idmap_add_error[of "\<lambda>p. \<lparr>Name = [0xFF], Value = ANil\<rparr>" NewIDMap 10 5 "[0]" 7] by simp
  moreover have k: "akey example_heap 0 = [0, 126]" "akey example_heap 1 = [0, 120]" by (simp_all add: akey_def example_key)
  then obtain m where m: "IDMap_Add example_heap NewIDMap 7 10 5 [0, 1] = Inr m"
      "view example_heap m 7 12 = view example_heap NewIDMap 7 12 \<union> stamp example_heap (span 10 5) [0, 1] 12"
    using idmap_add_error[of example_heap NewIDMap 10 5 "[0, 1]" 7] by (auto simp: example_key)
  have "view example_heap m 7 12 = {None, Some [0, 126], Some [0, 120]}"
    unfolding m(2) by (auto simp: view_def NewIDMap_def stamp_def akey_def example_key)
  ultimately show ?thesis using m(1) by blast
qed

text \<open>
  Three observations on the code.  A string that is not UTF-8 passes the validation of attribute
  values, and encoding the attribute then panics.  A list of attributes may repeat one; the comparison
  of attribute lists then takes two different lists for equal and the attributes of the second are lost:
  after inserting 0, 0 for clock 0 and 0, 1 for clock 1 the reader is told only 0 of clock 1.  The overlap
  of two maps may repeat an attribute by itself: here clock 1 carries the attribute 1 in the second map,
  and the overlap says only 0 of it.
\<close>

lemma validated_attribute_panics:
  "NewContentAttribute [] (AString [0xFF]) = Inr \<lparr>Name = [], Value = AString [0xFF]\<rparr>"
  "attrKey \<lparr>Name = [], Value = AString [0xFF]\<rparr> = Inl EncErrInvalidUTF8"
  by (simp_all add: NewContentAttribute_def attrKey_def WriteVarString_def WriteVarStringE_def valid_utf8.simps utf8_eval
      WriteVarUint.simps WriteUint8_def)

lemma intersect_loses_attribute:
  "ebind (IDMap_Add example_heap NewIDMap 1 0 2 [0]) (\<lambda>a.
   ebind (IDMap_Add example_heap NewIDMap 1 0 1 [0]) (\<lambda>b.
   ebind (IDMap_Add example_heap b 1 1 1 [1]) (\<lambda>b.
   ebind (IntersectIDMaps example_heap (Some a) (Some b)) (\<lambda>m. Inr (IDMap_Ranges m 1))))) =
   Inr (Some [\<lparr>aClock = 0, aLen = 2, Attrs = Some [0, 0]\<rparr>])"
  by (simp add: IDMap_Add_def example_key NewIDMap_def attrRanges_add_def IntersectIDMaps_def attrRanges_getIDs_def
      normalize_attrs_def attr_split.simps(3) attrsJoin_def attrsEqual_def attr_list_def IDMap_Ranges_def Let_def)

lemma repeated_attribute_loses:
  "ebind (IDMap_Add example_heap NewIDMap 1 0 1 [0, 0]) (\<lambda>m.
   ebind (IDMap_Add example_heap m 1 1 1 [0, 1]) (\<lambda>m. Inr (IDMap_Ranges m 1))) =
   Inr (Some [\<lparr>aClock = 0, aLen = 2, Attrs = Some [0, 0]\<rparr>])"
  by (simp add: IDMap_Add_def example_key NewIDMap_def attrRanges_add_def attrRanges_getIDs_def
      normalize_attrs_def attr_split.simps(3) attrsJoin_def attrsEqual_def attr_list_def IDMap_Ranges_def Let_def)

end
