(* ===== verification/Id_Runs.thy ===== *)
theory Id_Runs
  imports Id_Map
begin

text \<open>
  Every identifier set and attributed map that a program can build with the operations of \<^verbatim>\<open>src/crdt/idset.go\<close>,
  \<^verbatim>\<open>src/crdt/idset_ops.go\<close>, \<^verbatim>\<open>src/crdt/idmap.go\<close> and \<^verbatim>\<open>src/crdt/idmap_ops.go\<close>, in any order.  A nil argument is \<open>None\<close>; a
  read leaves the normalised runs of a client behind, which is a step of its own.
\<close>

subsection \<open>Reads\<close>

definition set_read :: "ClientID \<Rightarrow> IDSet \<Rightarrow> IDSet" where
  "set_read c s = (case map_of s c of None \<Rightarrow> s | Some r \<Rightarrow> map_put c (snd (idRanges_getIDs r)) s)"

definition map_read :: "ClientID \<Rightarrow> IDMap \<Rightarrow> IDMap" where
  "map_read c m = (case map_of (m_clients m) c of None \<Rightarrow> m
     | Some r \<Rightarrow> m\<lparr>m_clients := map_put c (snd (attrRanges_getIDs r)) (m_clients m)\<rparr>)"

lemma cached_ids: "snd (idRanges_getIDs r) = \<lparr>is_sorted = True, ids = getIDs r\<rparr>"
  by (cases r) (simp add: idRanges_getIDs_def Let_def)

lemma cached_attrs: "snd (attrRanges_getIDs r) = \<lparr>a_sorted = True, a_ids = getAttrs r\<rparr>"
  by (cases r) (simp add: attrRanges_getIDs_def Let_def)

lemma set_read_inv: "idset_inv s \<Longrightarrow> idset_inv (set_read c s)"
proof (cases "map_of s c")
  case (Some r)
  assume inv: "idset_inv s"
  have "ranges_inv (snd (idRanges_getIDs r))"
    unfolding cached_ids using inv_lookup[OF inv Some] by (simp add: ranges_inv_def)
  then show ?thesis using inv Some set_map_put[of c "snd (idRanges_getIDs r)" s] by (fastforce simp: set_read_def idset_inv_def)
qed (simp add: set_read_def)

lemma map_read_inv: "idmap_inv h m \<Longrightarrow> idmap_inv h (map_read c m)"
proof (cases "map_of (m_clients m) c")
  case (Some r)
  assume inv: "idmap_inv h m"
  then have r: "attr_inv (interned m) r" using Some by (auto simp: idmap_inv_def dest: map_of_SomeD)
  have "attr_inv (interned m) (snd (attrRanges_getIDs r))"
    unfolding cached_attrs using getAttrs_interned[OF r] idmap_lookup(1)[OF inv Some] by (simp add: attr_inv_def)
  then show ?thesis using inv Some set_map_put[of c "snd (attrRanges_getIDs r)" "m_clients m"]
    by (fastforce simp: map_read_def idmap_inv_def)
qed (simp add: map_read_def)

subsection \<open>Runs\<close>

inductive built_set :: "attr_heap \<Rightarrow> IDSet \<Rightarrow> bool" and built_map :: "attr_heap \<Rightarrow> IDMap \<Rightarrow> bool" for h :: attr_heap where
  new_set: "built_set h NewIDSet"
| add_set: "built_set h s \<Longrightarrow> unat clock + unat n < 2 ^ 64 \<Longrightarrow> built_set h (IDSet_Add s c clock n)"
| clone_set: "built_set h s \<Longrightarrow> built_set h (IDSet_Clone s)"
| merge_sets: "(\<And>s. Some s \<in> set sets \<Longrightarrow> built_set h s) \<Longrightarrow> built_set h (MergeIDSets sets)"
| exclude_sets: "(\<And>s. a = Some s \<Longrightarrow> built_set h s) \<Longrightarrow> (\<And>s. b = Some s \<Longrightarrow> built_set h s) \<Longrightarrow> built_set h (ExcludeIDSet a b)"
| intersect_sets: "(\<And>s. a = Some s \<Longrightarrow> built_set h s) \<Longrightarrow> (\<And>s. b = Some s \<Longrightarrow> built_set h s) \<Longrightarrow> built_set h (IntersectIDSets a b)"
| set_of_map: "(\<And>m. a = Some m \<Longrightarrow> built_map h m) \<Longrightarrow> built_set h (IDSetFromIDMap a)"
| read_set: "built_set h s \<Longrightarrow> built_set h (set_read c s)"
| new_map: "built_map h NewIDMap"
| add_map: "built_map h m \<Longrightarrow> unat clock + unat n < 2 ^ 64 \<Longrightarrow> IDMap_Add h m c clock n attrs = Inr m' \<Longrightarrow> built_map h m'"
| merge_maps: "(\<And>m. Some m \<in> set maps \<Longrightarrow> built_map h m) \<Longrightarrow> MergeIDMaps h maps = Inr m' \<Longrightarrow> built_map h m'"
| exclude_maps: "(\<And>m. a = Some m \<Longrightarrow> built_map h m) \<Longrightarrow> (\<And>s. b = Some s \<Longrightarrow> built_set h s) \<Longrightarrow> ExcludeIDMap h a b = Inr m' \<Longrightarrow>
    built_map h m'"
| intersect_maps: "(\<And>m. a = Some m \<Longrightarrow> built_map h m) \<Longrightarrow> (\<And>m. b = Some m \<Longrightarrow> built_map h m) \<Longrightarrow> IntersectIDMaps h a b = Inr m' \<Longrightarrow>
    built_map h m'"
| filter_maps: "(\<And>m. a = Some m \<Longrightarrow> built_map h m) \<Longrightarrow> FilterIDMap h a pred = Inr m' \<Longrightarrow> built_map h m'"
| map_of_set: "(\<And>s. a = Some s \<Longrightarrow> built_set h s) \<Longrightarrow> IDMapFromIDSet h a attrs = Inr m' \<Longrightarrow> built_map h m'"
| read_map: "built_map h m \<Longrightarrow> built_map h (map_read c m)"

lemma Exclude_inv: "(\<And>s. a = Some s \<Longrightarrow> idset_inv s) \<Longrightarrow> (\<And>s. b = Some s \<Longrightarrow> idset_inv s) \<Longrightarrow> idset_inv (ExcludeIDSet a b)"
  using ExcludeIDSet_correct MergeIDSets_correct(1)[of "[a]"] by (cases a; cases b) (simp_all add: ExcludeIDSet_def)

lemma Intersect_inv: "(\<And>s. a = Some s \<Longrightarrow> idset_inv s) \<Longrightarrow> (\<And>s. b = Some s \<Longrightarrow> idset_inv s) \<Longrightarrow> idset_inv (IntersectIDSets a b)"
  using IntersectIDSets_correct by (cases a; cases b) (simp_all add: IntersectIDSets_def)

lemma FromMap_inv: "(\<And>m. a = Some m \<Longrightarrow> idmap_inv h m) \<Longrightarrow> idset_inv (IDSetFromIDMap a)"
  using IDSetFromIDMap_correct by (cases a) (auto simp: IDSetFromIDMap_def)

lemma AddMap_inv: "idmap_inv h m \<Longrightarrow> unat clock + unat n < 2 ^ 64 \<Longrightarrow> IDMap_Add h m c clock n attrs = Inr m' \<Longrightarrow> idmap_inv h m'"
  using puts_Add[of h m clock n attrs c] Add_error[of n attrs h m c clock]
  by (cases "n = 0"; cases "\<forall>p \<in> set attrs. \<exists>k. attrKey (h p) = Inr k") (auto simp: puts_def IDMap_Add_def)

lemma MergeMaps_inv: "(\<And>m. Some m \<in> set maps \<Longrightarrow> idmap_inv h m) \<Longrightarrow> MergeIDMaps h maps = Inr m' \<Longrightarrow> idmap_inv h m'"
  using MergeIDMaps_correct[of maps h] by auto

lemma ExcludeMaps_inv:
  assumes "\<And>m. a = Some m \<Longrightarrow> idmap_inv h m" "\<And>s. b = Some s \<Longrightarrow> idset_inv s" "ExcludeIDMap h a b = Inr m'"
  shows "idmap_inv h m'"
proof (cases a)
  case None
  then show ?thesis using assms(3) by (simp add: ExcludeIDMap_def)
next
  case (Some m)
  then have m: "idmap_inv h m" by (rule assms(1))
  show ?thesis
  proof (cases b)
    case None
    then show ?thesis using assms(3) Some m MergeMaps_inv[of "[Some m]" h m'] by (simp add: ExcludeIDMap_def)
  next
    case (Some s)
    then show ?thesis using ExcludeIDMap_correct[OF m assms(2)[OF Some]] assms(3) \<open>a = Some m\<close> by auto
  qed
qed

lemma IntersectMaps_inv:
  "(\<And>m. a = Some m \<Longrightarrow> idmap_inv h m) \<Longrightarrow> (\<And>m. b = Some m \<Longrightarrow> idmap_inv h m) \<Longrightarrow> IntersectIDMaps h a b = Inr m' \<Longrightarrow> idmap_inv h m'"
  using IntersectIDMaps_correct by (cases a; cases b) (fastforce simp: IntersectIDMaps_def)+

lemma FilterMaps_inv: "(\<And>m. a = Some m \<Longrightarrow> idmap_inv h m) \<Longrightarrow> FilterIDMap h a pred = Inr m' \<Longrightarrow> idmap_inv h m'"
proof (cases a)
  case (Some m)
  assume "\<And>m. a = Some m \<Longrightarrow> idmap_inv h m" "FilterIDMap h a pred = Inr m'"
  then show ?thesis using FilterIDMap_correct[of h m pred] Some by auto
qed (simp add: FilterIDMap_def)

text \<open>A loop that may panic keeps what its steps keep; an attribute that cannot be encoded is no obstacle on an empty set.\<close>

lemma efold_keeps:
  "(\<And>s x s'. P s \<Longrightarrow> x \<in> set xs \<Longrightarrow> f s x = Inr s' \<Longrightarrow> P s') \<Longrightarrow> P s \<Longrightarrow> efold f s xs = Inr s' \<Longrightarrow> P s'"
proof (induction xs arbitrary: s)
  case (Cons x xs)
  obtain s1 where s1: "f s x = Inr s1" "efold f s1 xs = Inr s'" using Cons.prems(3) by (cases "f s x") auto
  have "P s1" by (rule Cons.prems(1)[OF Cons.prems(2) _ s1(1)]) simp
  then show ?case
  proof (rule Cons.IH[OF _ _ s1(2), rotated])
    fix s y s' assume "P s" "y \<in> set xs" "f s y = Inr s'"
    then show "P s'" by (intro Cons.prems(1)[of s y s']) simp_all
  qed
qed simp

lemma FromSet_inv:
  assumes "\<And>s. a = Some s \<Longrightarrow> idset_inv s" "IDMapFromIDSet h a attrs = Inr m'"
  shows "idmap_inv h m'"
proof (cases a)
  case None
  then show ?thesis using assms(2) by (simp add: IDMapFromIDSet_def)
next
  case (Some s)
  then have s: "idset_inv s" by (rule assms(1))
  have step: "idmap_inv h m'" if "idmap_inv h m" "(c, r) \<in> set s"
      "efold (\<lambda>out rg. IDMap_Add h out c (Clock rg) (Len rg) attrs) m (getIDs r) = Inr m'" for m c r m'
  proof (rule efold_keeps[where P = "idmap_inv h", OF _ that(1,3)])
    fix out x out' assume x: "idmap_inv h out" "x \<in> set (getIDs r)" "IDMap_Add h out c (Clock x) (Len x) attrs = Inr out'"
    have "fits x" using inv_lookup(3)[OF s inv_entry[OF s that(2)]] x(2) by blast
    then show "idmap_inv h out'" using AddMap_inv[OF x(1) _ x(3)] by (simp add: fits_def)
  qed
  have "efold (\<lambda>out (c, r). efold (\<lambda>out rg. IDMap_Add h out c (Clock rg) (Len rg) attrs) out (getIDs r)) NewIDMap s = Inr m'"
    using assms(2) Some by (simp add: IDMapFromIDSet_def)
  then show ?thesis by (rule efold_keeps[where P = "idmap_inv h", rotated 2]) (auto intro: step)
qed

lemma built_inv: "built_set h s \<Longrightarrow> idset_inv s" "built_map h m \<Longrightarrow> idmap_inv h m"
proof (induction rule: built_set_built_map.inducts)
  case (merge_sets sets)
  then show ?case by (intro MergeIDSets_correct(1)) blast
qed (blast intro: inv_NewIDSet NewIDMap_inv members_Add(1) IDSet_Clone_correct(1) Exclude_inv Intersect_inv FromMap_inv set_read_inv
    AddMap_inv MergeMaps_inv ExcludeMaps_inv IntersectMaps_inv FilterMaps_inv FromSet_inv map_read_inv)+

subsection \<open>What readers report\<close>

lemma Ranges_report:
  assumes "idset_inv s"
  shows "case IDSet_Ranges s c of None \<Rightarrow> \<forall>k. \<not> IDSet_Has s c k
    | Some rs \<Rightarrow> rs \<noteq> [] \<and> normal rs \<and> (\<forall>k. IDSet_Has s c k \<longleftrightarrow> unat k \<in> covered rs)"
proof (cases "map_of s c")
  case None
  then show ?thesis by (simp add: IDSet_Ranges_def IDSet_Has_def)
next
  case (Some r)
  note l = inv_lookup[OF assms Some]
  have "IDSet_Has s c k \<longleftrightarrow> unat k \<in> covered (getIDs r)" for k using IDSet_Has_correct[OF assms] l(2) by simp
  then show ?thesis using Some l(1) by (cases "getIDs r") (simp_all add: IDSet_Ranges_def)
qed

lemma set_read_same: "IDSet_Ranges (set_read d s) c = IDSet_Ranges s c" "IDSet_Has (set_read d s) c k = IDSet_Has s c k"
  by (auto simp: set_read_def IDSet_Ranges_def IDSet_Has_def getIDs_cached split: option.splits)

lemma Ranges_map_report:
  assumes "idmap_inv h m"
  shows "case IDMap_Ranges m c of None \<Rightarrow> \<forall>k. \<not> IDMap_Has m c k
    | Some rs \<Rightarrow> rs \<noteq> [] \<and> apart rs \<and> (\<forall>k. IDMap_Has m c k \<longleftrightarrow> (\<exists>r \<in> set rs. astart r \<le> unat k \<and> unat k < astop r))"
proof (cases "map_of (m_clients m) c")
  case None
  then show ?thesis by (simp add: IDMap_Ranges_def IDMap_Has_def)
next
  case (Some r)
  note l = idmap_lookup[OF assms Some]
  have "attr_has_loop (getAttrs r) k \<longleftrightarrow> (\<exists>x \<in> set (getAttrs r). astart x \<le> unat k \<and> unat k < astop x)" for k
    unfolding attr_has_loop_correct[OF l(1)] by (auto simp: remarks_def remark_def split: if_splits)
  then show ?thesis using Some l(1) by (cases "getAttrs r") (simp_all add: IDMap_Ranges_def IDMap_Has_def)
qed

subsection \<open>Properties\<close>

text \<open>
  C22: every identifier set that is built by any sequence of operations keeps the invariant: new sets, insertion of runs
  that end below 2^64, cloning, the union of any list of sets, difference and intersection, the identifiers of an
  attributed map, with nil arguments allowed, and reads, which rewrite the runs.  Each client has at most one entry; what
  \<open>Ranges\<close> reports is a non-empty list of sorted, non-empty runs that neither overlap nor touch and hold exactly the clocks
  that \<open>Has\<close> reports; and a read changes no later answer.
\<close>

theorem idset_invariant:
  assumes "built_set h s"
  shows "idset_inv s \<and>
    (case IDSet_Ranges s c of None \<Rightarrow> \<forall>k. \<not> IDSet_Has s c k
     | Some rs \<Rightarrow> rs \<noteq> [] \<and> normal rs \<and> (\<forall>k. IDSet_Has s c k \<longleftrightarrow> unat k \<in> covered rs)) \<and>
    IDSet_Ranges (set_read d s) c = IDSet_Ranges s c \<and> IDSet_Has (set_read d s) c k = IDSet_Has s c k"
  using built_inv(1)[OF assms] Ranges_report[OF built_inv(1)[OF assms]] set_read_same by blast

definition some_set :: IDSet where
  "some_set = MergeIDSets [Some (set_read 7 (IDSet_Add (IDSet_Add NewIDSet 7 20 5) 7 0 10)), None,
     Some (ExcludeIDSet (Some (IDSet_Add NewIDSet 7 8 9)) (Some (IDSet_Add NewIDSet 7 9 2)))]"

lemma some_set_built: "built_set example_heap some_set"
proof -
  have "built_set example_heap (IDSet_Add NewIDSet 7 x y)" if "unat x + unat y < 2 ^ 64" for x y
    by (intro add_set new_set that)
  then have e: "built_set example_heap (ExcludeIDSet (Some (IDSet_Add NewIDSet 7 8 9)) (Some (IDSet_Add NewIDSet 7 9 2)))"
    by (intro exclude_sets) auto
  have "built_set example_heap (set_read 7 (IDSet_Add (IDSet_Add NewIDSet 7 20 5) 7 0 10))"
    by (intro read_set add_set new_set) simp_all
  with e show ?thesis unfolding some_set_def by (intro merge_sets) auto
qed

theorem idset_invariant_witness:
  "IDSet_Ranges some_set 7 = Some [\<lparr>Clock = 0, Len = 10\<rparr>, \<lparr>Clock = 11, Len = 6\<rparr>, \<lparr>Clock = 20, Len = 5\<rparr>] \<and>
   normal [\<lparr>Clock = 0, Len = 10\<rparr>, \<lparr>Clock = 11, Len = 6\<rparr>, \<lparr>Clock = 20, Len = 5\<rparr>]"
proof -
  have e: "IDSet_Ranges some_set 7 = Some [\<lparr>Clock = 0, Len = 10\<rparr>, \<lparr>Clock = 11, Len = 6\<rparr>, \<lparr>Clock = 20, Len = 5\<rparr>]" by code_simp
  then show ?thesis using idset_invariant[OF some_set_built, of 7] by (simp only: e option.case simp_thms)
qed

text \<open>
  C24: every attributed map that is built by any sequence of operations keeps the invariant: its attributes are interned, and
  the runs that \<open>Ranges\<close> reports are sorted, non-empty and do not overlap, and hold exactly the clocks that \<open>Has\<close> reports.
  On such maps union, difference, intersection and filtering never panic, whatever the attributes.
\<close>

theorem idmap_invariant:
  assumes "built_map h m" "built_map h m2" "built_set h s"
  shows "idmap_inv h m \<and>
    (case IDMap_Ranges m c of None \<Rightarrow> \<forall>k. \<not> IDMap_Has m c k
     | Some rs \<Rightarrow> rs \<noteq> [] \<and> apart rs \<and> (\<forall>k. IDMap_Has m c k \<longleftrightarrow> (\<exists>r \<in> set rs. astart r \<le> unat k \<and> unat k < astop r))) \<and>
    (\<exists>m'. MergeIDMaps h [Some m, Some m2] = Inr m') \<and> (\<exists>m'. ExcludeIDMap h (Some m) (Some s) = Inr m') \<and>
    (\<exists>m'. IntersectIDMaps h (Some m) (Some m2) = Inr m') \<and> (\<exists>m'. FilterIDMap h (Some m) pred = Inr m')"
proof -
  note i = built_inv(2)[OF assms(1)] built_inv(2)[OF assms(2)] built_inv(1)[OF assms(3)]
  have "\<exists>m'. MergeIDMaps h [Some m, Some m2] = Inr m'" using MergeIDMaps_correct[of "[Some m, Some m2]" h] i by auto
  moreover have "\<exists>m'. ExcludeIDMap h (Some m) (Some s) = Inr m'" "\<exists>m'. IntersectIDMaps h (Some m) (Some m2) = Inr m'"
      "\<exists>m'. FilterIDMap h (Some m) pred = Inr m'"
    using ExcludeIDMap_correct[OF i(1,3)] IntersectIDMaps_correct[OF i(1,2)] FilterIDMap_correct[OF i(1)] by blast+
  ultimately show ?thesis using i(1) Ranges_map_report[OF i(1)] by blast
qed

theorem idmap_invariant_witness:
  "\<exists>m m'. IDMap_Add example_heap NewIDMap 7 10 5 [0, 1] = Inr m \<and> idmap_inv example_heap m \<and>
     ExcludeIDMap example_heap (Some m) (Some some_set) = Inr m'"
proof -
  obtain m where m: "IDMap_Add example_heap NewIDMap 7 10 5 [0, 1] = Inr m" by (rule example_map)
  have "built_map example_heap m" by (rule add_map[OF new_map _ m]) simp
  from idmap_invariant[OF this this some_set_built] m show ?thesis by blast
qed

end
