(* ===== verification/Awareness.thy ===== *)
theory Awareness
  imports Any_Codec Codec
begin

text \<open>
  Ephemeral peer state: \<^verbatim>\<open>src/awareness/awareness.go\<close>.  The component is a state machine: the record below is the
  struct, every exported method a function on it.  A Go map is the list of its entries, in the order
  in which the runtime happens to iterate it.  Clock readings are arguments, one per call of
  \<^verbatim>\<open>time.Now\<close>; the JSON decoder and encoder of the runtime are arguments too, and nothing is
  assumed of them but where a property says so.
\<close>

subsection \<open>Maps\<close>

definition map_del :: "'k \<Rightarrow> ('k \<times> 'v) list \<Rightarrow> ('k \<times> 'v) list" where
  "map_del k kvs = filter (\<lambda>kv. fst kv \<noteq> k) kvs"

abbreviation keys :: "('k \<times> 'v) list \<Rightarrow> 'k set" where
  "keys kvs \<equiv> fst ` set kvs"

definition wf_map :: "('k \<times> 'v) list \<Rightarrow> bool" where
  "wf_map kvs \<longleftrightarrow> distinct (map fst kvs)"

lemma map_of_map_del [simp]: "map_of (map_del k kvs) = (map_of kvs)(k := None)"
  by (induction kvs) (auto simp: map_del_def fun_eq_iff)

lemma keys_map_del [simp]: "keys (map_del k kvs) = keys kvs - {k}"
  by (auto simp: map_del_def)

lemma wf_map_simps [simp]: "wf_map []" "wf_map (map_put k v kvs) = wf_map kvs" "wf_map kvs \<Longrightarrow> wf_map (map_del k kvs)"
  by (simp_all add: wf_map_def) (induction kvs, auto simp: map_del_def)

lemma map_del_new: "k \<notin> keys kvs \<Longrightarrow> map_del k kvs = kvs"
  unfolding map_del_def filter_id_conv by auto

lemma keys_map_of: "k \<in> keys kvs \<longleftrightarrow> map_of kvs k \<noteq> None"
  by (simp add: map_of_eq_None_iff)

lemma length_keys: "wf_map kvs \<Longrightarrow> length kvs = card (keys kvs)"
  unfolding wf_map_def by (metis distinct_card length_map list.set_map)

text \<open>The sum of the values of a map, as puts and deletions change it.\<close>

definition map_sum :: "('k \<times> nat) list \<Rightarrow> int" where
  "map_sum kvs = int (sum_list (map snd kvs))"

definition map_get :: "('k \<times> nat) list \<Rightarrow> 'k \<Rightarrow> nat" where
  "map_get kvs k = (case map_of kvs k of None \<Rightarrow> 0 | Some v \<Rightarrow> v)"

lemma map_sum_put: "wf_map kvs \<Longrightarrow> map_sum (map_put k v kvs) = map_sum kvs + int v - int (map_get kvs k)"
proof (induction k v kvs rule: map_put.induct)
  case (2 k v k' v' kvs)
  then show ?case by (auto simp: map_sum_def map_get_def wf_map_def)
qed (simp add: map_sum_def map_get_def)

lemma map_sum_del: "wf_map kvs \<Longrightarrow> map_sum (map_del k kvs) = map_sum kvs - int (map_get kvs k)"
proof (induction kvs)
  case (Cons e kvs)
  have "k = fst e \<Longrightarrow> map_del k kvs = kvs" using Cons.prems by (simp add: map_del_new wf_map_def)
  then show ?case using Cons by (cases e) (auto simp: map_sum_def map_get_def map_del_def wf_map_def)
qed (simp add: map_sum_def map_get_def map_del_def)

subsection \<open>State\<close>

type_synonym gomap = "(gostring \<times> goany) list"
type_synonym gotime = int
type_synonym duration = int

record ClientState =
  cs_Clock :: u64
  cs_State :: "gomap option"

record ClientMeta =
  cm_Clock :: u64
  LastUpdated :: "gotime option"

record tombRef =
  t_id :: u64
  t_seq :: u64

text \<open>\<open>ChangeEvent\<close> and \<open>UpdateEvent\<close> have the same fields.\<close>

record ChangeEvent =
  Added :: "u64 list"
  Updated :: "u64 list"
  Removed :: "u64 list"

text \<open>A callback, by its identity, with its active flag.\<close>

type_synonym observer = "nat \<times> bool"

record Awareness =
  clientID :: u64
  states :: "(u64 \<times> ClientState) list"
  meta :: "(u64 \<times> gotime) list"
  clock :: u64
  observers :: "observer list"
  updateObservers :: "observer list"
  wireBytes :: "(u64 \<times> nat) list"
  priorJSON :: "(u64 \<times> byte list) list"
  activeBytes :: int
  maxBytes :: int
  maxClients :: int
  maxForeignClients :: int
  removedAt :: "(u64 \<times> gotime) list"
  tombQ :: "tombRef list"
  tombSeq :: "(u64 \<times> u64) list"
  nextSeq :: u64

definition New :: "u64 \<Rightarrow> Awareness" where
  "New cid = \<lparr>clientID = cid, states = [], meta = [], clock = 0, observers = [], updateObservers = [],
     wireBytes = [], priorJSON = [], activeBytes = 0, maxBytes = 0, maxClients = 0, maxForeignClients = 0,
     removedAt = [], tombQ = [], tombSeq = [], nextSeq = 0\<rparr>"

definition SetMaxBytes :: "int \<Rightarrow> Awareness \<Rightarrow> Awareness" where
  "SetMaxBytes n a = a\<lparr>maxBytes := n\<rparr>"

definition SetMaxClients :: "int \<Rightarrow> Awareness \<Rightarrow> Awareness" where
  "SetMaxClients n a = a\<lparr>maxClients := n\<rparr>"

definition SetMaxForeignClients :: "int \<Rightarrow> Awareness \<Rightarrow> Awareness" where
  "SetMaxForeignClients n a = a\<lparr>maxForeignClients := n\<rparr>"

definition lookup :: "Awareness \<Rightarrow> u64 \<Rightarrow> ClientState option" where
  "lookup a c = map_of (states a) c"

definition isLive :: "Awareness \<Rightarrow> u64 \<Rightarrow> bool" where
  "isLive a c = (case lookup a c of None \<Rightarrow> False | Some cs \<Rightarrow> cs_State cs \<noteq> None)"

definition put_state :: "u64 \<Rightarrow> u64 \<Rightarrow> gomap option \<Rightarrow> Awareness \<Rightarrow> Awareness" where
  "put_state c clk st a = a\<lparr>states := map_put c \<lparr>cs_Clock = clk, cs_State = st\<rparr> (states a)\<rparr>"

subsection \<open>Observers\<close>

text \<open>Registration returns the index that the unsubscribe function closes over; nil is refused.\<close>

definition OnChange :: "nat option \<Rightarrow> Awareness \<Rightarrow> nat option \<times> Awareness" where
  "OnChange fn a = (case fn of None \<Rightarrow> (None, a)
     | Some f \<Rightarrow> (Some (length (observers a)), a\<lparr>observers := observers a @ [(f, True)]\<rparr>))"

definition unsubscribe_change :: "nat option \<Rightarrow> Awareness \<Rightarrow> Awareness" where
  "unsubscribe_change h a = (case h of None \<Rightarrow> a
     | Some i \<Rightarrow> a\<lparr>observers := (observers a)[i := (fst (observers a ! i), False)]\<rparr>)"

definition OnUpdate :: "nat option \<Rightarrow> Awareness \<Rightarrow> nat option \<times> Awareness" where
  "OnUpdate fn a = (case fn of None \<Rightarrow> (None, a)
     | Some f \<Rightarrow> (Some (length (updateObservers a)), a\<lparr>updateObservers := updateObservers a @ [(f, True)]\<rparr>))"

definition unsubscribe_update :: "nat option \<Rightarrow> Awareness \<Rightarrow> Awareness" where
  "unsubscribe_update h a = (case h of None \<Rightarrow> a
     | Some i \<Rightarrow> a\<lparr>updateObservers := (updateObservers a)[i := (fst (updateObservers a ! i), False)]\<rparr>)"

definition copyObservers :: "Awareness \<Rightarrow> nat list" where
  "copyObservers a = map fst (filter snd (observers a))"

definition copyUpdateObservers :: "Awareness \<Rightarrow> nat list" where
  "copyUpdateObservers a = map fst (filter snd (updateObservers a))"

text \<open>The calls a method makes after releasing the lock: the callback and its event.\<close>

datatype call = CallChange nat ChangeEvent | CallUpdate nat ChangeEvent

definition fireObservers :: "nat list \<Rightarrow> ChangeEvent \<Rightarrow> call list" where
  "fireObservers fns evt = map (\<lambda>f. CallChange f evt) fns"

definition fireUpdateObservers :: "nat list \<Rightarrow> ChangeEvent \<Rightarrow> call list" where
  "fireUpdateObservers fns evt = map (\<lambda>f. CallUpdate f evt) fns"

definition fire :: "Awareness \<Rightarrow> u64 list \<Rightarrow> u64 list \<Rightarrow> u64 list \<Rightarrow> u64 list \<Rightarrow> call list" where
  "fire a added updated changedUpdated removed =
     (if added \<noteq> [] \<or> changedUpdated \<noteq> [] \<or> removed \<noteq> []
      then fireObservers (copyObservers a) \<lparr>Added = added, Updated = changedUpdated, Removed = removed\<rparr> else []) @
     (if added \<noteq> [] \<or> updated \<noteq> [] \<or> removed \<noteq> []
      then fireUpdateObservers (copyUpdateObservers a) \<lparr>Added = added, Updated = updated, Removed = removed\<rparr> else [])"

subsection \<open>Local state\<close>

text \<open>\<^verbatim>\<open>reflect.DeepEqual\<close> on decoded values; maps are compared as maps.\<close>

function (sequential) DeepEqual :: "goany \<Rightarrow> goany \<Rightarrow> bool" where
  "DeepEqual (AMap xs) w = (case w of AMap ys \<Rightarrow> length xs = length ys \<and>
     (\<forall>kv \<in> set xs. case map_of ys (fst kv) of None \<Rightarrow> False | Some v \<Rightarrow> DeepEqual (snd kv) v) | _ \<Rightarrow> False)"
| "DeepEqual (AArray xs) w = (case w of AArray ys \<Rightarrow> length xs = length ys \<and>
     (\<forall>p \<in> set (zip xs ys). DeepEqual (fst p) (snd p)) | _ \<Rightarrow> False)"
| "DeepEqual (AFloat64 x) w = (case w of AFloat64 y \<Rightarrow> float64_eq x y | _ \<Rightarrow> False)"
| "DeepEqual v w = (v = w)"
  by pat_completeness auto
termination
proof (relation "measure (\<lambda>(v, w). size v)", goal_cases)
  case (3 xs w ys p)
  then have "fst p \<in> set xs" by (metis prod.collapse set_zip_leftD)
  then show ?case by (cases p) (simp add: size_list_estimation' less_Suc_eq_le)
qed (auto simp: less_Suc_eq_le intro: size_list_estimation')

definition bump :: "u64 \<Rightarrow> u64" where
  "bump c = (if c < 0xFFFFFFFFFFFFFFFF then c + 1 else c)"

definition SetLocalState :: "gotime \<Rightarrow> gomap option \<Rightarrow> Awareness \<Rightarrow> call list \<times> Awareness" where
  "SetLocalState now state a =
     (let me = clientID a;
          clk = bump (case lookup a me of None \<Rightarrow> clock a | Some cs \<Rightarrow> if cs_Clock cs > clock a then cs_Clock cs else clock a);
          wasActive = isLive a me;
          prev = (case lookup a me of None \<Rightarrow> None | Some cs \<Rightarrow> cs_State cs);
          a' = put_state me clk state (a\<lparr>clock := clk\<rparr>)
      in (case state of
            None \<Rightarrow> (fire a' [] [] [] (if wasActive then [me] else []), a'\<lparr>meta := map_del me (meta a)\<rparr>)
          | Some st \<Rightarrow>
             (if wasActive
              then fire a' [] [me] (if \<not> DeepEqual (AMap (the prev)) (AMap st) then [me] else []) []
              else fire a' [me] [] [] [],
              a'\<lparr>meta := map_put me now (meta a)\<rparr>)))"

definition Heartbeat :: "gotime \<Rightarrow> Awareness \<Rightarrow> call list \<times> Awareness" where
  "Heartbeat now a =
     (let me = clientID a in
      case lookup a me of None \<Rightarrow> ([], a)
      | Some cs \<Rightarrow>
         (if cs_State cs = None then ([], a)
          else let clk = bump (if clock a < cs_Clock cs then cs_Clock cs else clock a);
                   a' = put_state me clk (cs_State cs) (a\<lparr>clock := clk, meta := map_put me now (meta a)\<rparr>)
               in (fireUpdateObservers (copyUpdateObservers a') \<lparr>Added = [], Updated = [me], Removed = []\<rparr>, a')))"

text \<open>The variants with a context give up when it is already cancelled.\<close>

definition SetLocalStateContext :: "'err option \<Rightarrow> gotime \<Rightarrow> gomap option \<Rightarrow> Awareness \<Rightarrow> 'err option \<times> call list \<times> Awareness" where
  "SetLocalStateContext ctx_err now state a =
     (case ctx_err of Some err \<Rightarrow> (Some err, [], a) | None \<Rightarrow> (None, SetLocalState now state a))"

definition GetLocalState :: "Awareness \<Rightarrow> gomap option" where
  "GetLocalState a = (case lookup a (clientID a) of None \<Rightarrow> None | Some cs \<Rightarrow> cs_State cs)"

definition GetStates :: "Awareness \<Rightarrow> (u64 \<times> ClientState) list" where
  "GetStates a = filter (\<lambda>(k, v). cs_State v \<noteq> None) (states a)"

definition Meta :: "Awareness \<Rightarrow> u64 \<Rightarrow> ClientMeta option" where
  "Meta a cid = (case lookup a cid of None \<Rightarrow> None
     | Some cs \<Rightarrow> Some \<lparr>cm_Clock = cs_Clock cs, LastUpdated =
         (case map_of (meta a) cid of Some t \<Rightarrow> Some t | None \<Rightarrow> map_of (removedAt a) cid)\<rparr>)"

subsection \<open>Encoding\<close>

definition null_json :: "byte list" where
  "null_json = [0x6E, 0x75, 0x6C, 0x6C]"

text \<open>The clock and the text sent for a client; an unknown client is a null at clock 0.\<close>

definition wire_state :: "(gomap \<Rightarrow> byte list option) \<Rightarrow> ClientState \<Rightarrow> byte list" where
  "wire_state marshal cs = (case cs_State cs of None \<Rightarrow> null_json
     | Some st \<Rightarrow> (case marshal st of None \<Rightarrow> null_json | Some b \<Rightarrow> if \<not> valid_utf8 b then null_json else b))"

definition wire_entry :: "(gomap \<Rightarrow> byte list option) \<Rightarrow> Awareness \<Rightarrow> u64 \<Rightarrow> encoder \<Rightarrow> enc_error + encoder" where
  "wire_entry marshal a cid e =
     (case lookup a cid of
        None \<Rightarrow> WriteVarString (WriteVarUint (WriteVarUint e cid) 0) null_json
      | Some cs \<Rightarrow> WriteVarString (WriteVarUint (WriteVarUint e cid) (cs_Clock cs)) (wire_state marshal cs))"

definition EncodeUpdate :: "(gomap \<Rightarrow> byte list option) \<Rightarrow> u64 list option \<Rightarrow> Awareness \<Rightarrow> enc_error + encoder" where
  "EncodeUpdate marshal clientIDs a =
     (let cids = (case clientIDs of None \<Rightarrow> map fst (states a) | Some l \<Rightarrow> l)
      in write_seq (wire_entry marshal a) cids (WriteVarUint [] (of_nat (length cids))))"

subsection \<open>Decoding\<close>

datatype aw_error = DecErr dec_error | ErrTooManyClients | ErrStateTooLarge

record aw_entry =
  e_client :: u64
  e_clock :: u64
  e_json :: "byte list"

abbreviation maxAwarenessClients :: u64 where "maxAwarenessClients \<equiv> 100000"
abbreviation maxAwarenessStateBytes :: nat where "maxAwarenessStateBytes \<equiv> 1048576"
abbreviation maxStateKeys :: nat where "maxStateKeys \<equiv> 1000"
abbreviation maxJSONDepth :: nat where "maxJSONDepth \<equiv> 20"

text \<open>The scan of \<open>checkJSONDepth\<close>: the depth may become negative on malformed text.\<close>

fun depth_scan :: "int \<Rightarrow> bool \<Rightarrow> byte list \<Rightarrow> bool" where
  "depth_scan depth inString [] = (\<not> inString)"
| "depth_scan depth True (c # s) =
     (if c = 0x5C then depth_scan depth True (drop 1 s)
      else depth_scan depth (c \<noteq> 0x22) s)"
| "depth_scan depth False (c # s) =
     (if c = 0x22 then depth_scan depth True s
      else if c = 0x7B \<or> c = 0x5B then (if depth + 1 > int maxJSONDepth then False else depth_scan (depth + 1) False s)
      else if c = 0x7D \<or> c = 0x5D then depth_scan (depth - 1) False s
      else depth_scan depth False s)"

definition checkJSONDepth :: "byte list \<Rightarrow> bool" where
  "checkJSONDepth s = depth_scan 0 False s"

fun read_entries :: "nat \<Rightarrow> decoder \<Rightarrow> aw_error + aw_entry list" where
  "read_entries 0 d = Inr []"
| "read_entries (Suc n) d =
     (case ReadVarUint d of (Inl err, _) \<Rightarrow> Inl (DecErr err) | (Inr cid, d) \<Rightarrow>
     (case ReadVarUint d of (Inl err, _) \<Rightarrow> Inl (DecErr err) | (Inr clk, d) \<Rightarrow>
     (case ReadVarBytes d of (Inl err, _) \<Rightarrow> Inl (DecErr err) | (Inr js, d) \<Rightarrow>
        if length js > maxAwarenessStateBytes then Inl ErrStateTooLarge
        else (case read_entries n d of Inl err \<Rightarrow> Inl err
              | Inr es \<Rightarrow> Inr (\<lparr>e_client = cid, e_clock = clk, e_json = js\<rparr> # es)))))"

definition decode_update :: "byte list \<Rightarrow> aw_error + aw_entry list" where
  "decode_update update =
     (case ReadVarUint (NewDecoder update) of (Inl err, _) \<Rightarrow> Inl (DecErr err)
      | (Inr numClients, d) \<Rightarrow>
         if numClients > maxAwarenessClients then Inl ErrTooManyClients else read_entries (unat numClients) d)"

subsection \<open>Tombstones\<close>

definition fresh_ref :: "Awareness \<Rightarrow> tombRef \<Rightarrow> bool" where
  "fresh_ref a t \<longleftrightarrow> map_of (tombSeq a) (t_id t) = Some (t_seq t)"

definition markTombstone :: "u64 \<Rightarrow> gotime \<Rightarrow> Awareness \<Rightarrow> Awareness" where
  "markTombstone cid at a =
     (let a = a\<lparr>removedAt := map_put cid at (removedAt a)\<rparr>;
          a = (if length (tombQ a) \<ge> 2 * length (tombSeq a) + 16 then a\<lparr>tombQ := filter (fresh_ref a) (tombQ a)\<rparr> else a);
          a = a\<lparr>nextSeq := nextSeq a + 1\<rparr>
      in a\<lparr>tombSeq := map_put cid (nextSeq a) (tombSeq a), tombQ := tombQ a @ [\<lparr>t_id = cid, t_seq = nextSeq a\<rparr>]\<rparr>)"

definition forgetTombstone :: "u64 \<Rightarrow> Awareness \<Rightarrow> Awareness" where
  "forgetTombstone cid a = a\<lparr>states := map_del cid (states a), removedAt := map_del cid (removedAt a),
     tombSeq := map_del cid (tombSeq a), meta := map_del cid (meta a), wireBytes := map_del cid (wireBytes a)\<rparr>"

fun reclaim_loop :: "tombRef list \<Rightarrow> Awareness \<Rightarrow> Awareness" where
  "reclaim_loop [] a = a\<lparr>tombQ := []\<rparr>"
| "reclaim_loop (t # q) a = (if fresh_ref a t then forgetTombstone (t_id t) (a\<lparr>tombQ := q\<rparr>) else reclaim_loop q a)"

definition reclaimOldestTombstone :: "Awareness \<Rightarrow> Awareness" where
  "reclaimOldestTombstone a = reclaim_loop (tombQ a) a"

subsection \<open>Applying an update\<close>

record AdmitEntry =
  ae_ClientID :: u64
  WasLive :: bool
  Live :: bool

record ApplyOptions =
  Foreign :: bool
  Admit :: "(AdmitEntry \<Rightarrow> (u64 \<Rightarrow> bool) \<Rightarrow> bool) option"

record ApplyResult =
  Applied :: "u64 list"
  Refused :: bool
  Altered :: bool

record tally =
  added :: "u64 list"
  updated :: "u64 list"
  changedUpdated :: "u64 list"
  removed :: "u64 list"
  refused :: bool
  altered :: bool

definition isNullEntry :: "aw_entry \<Rightarrow> bool" where
  "isNullEntry e \<longleftrightarrow> e_json e = null_json \<or> e_json e = []"

text \<open>The clock gate.\<close>

definition stale :: "ClientState option \<Rightarrow> aw_entry \<Rightarrow> bool" where
  "stale current e = (case current of None \<Rightarrow> False
     | Some cs \<Rightarrow> e_clock e < cs_Clock cs \<or> (e_clock e = cs_Clock cs \<and> \<not> (isNullEntry e \<and> cs_State cs \<noteq> None)))"

text \<open>A null for the local client is overridden: the clock passes it and a live state is sent again.\<close>

definition protect_self :: "aw_entry \<Rightarrow> Awareness \<times> tally \<Rightarrow> Awareness \<times> tally" where
  "protect_self e st =
     (let (a, r) = st; r = r\<lparr>altered := True\<rparr>;
          a = (if e_clock e \<ge> clock a then a\<lparr>clock := e_clock e + 1\<rparr> else a)
      in case lookup a (clientID a) of None \<Rightarrow> (a, r)
         | Some cs \<Rightarrow> if cs_State cs = None then (a, r)
             else (put_state (clientID a) (clock a) (cs_State cs) a, r\<lparr>updated := updated r @ [clientID a]\<rparr>))"

definition remote_count :: "Awareness \<Rightarrow> nat" where
  "remote_count a = (if lookup a (clientID a) \<noteq> None then length (states a) - 1 else length (states a))"

definition at_cap :: "Awareness \<Rightarrow> u64 \<Rightarrow> bool" where
  "at_cap a cid \<longleftrightarrow> lookup a cid = None \<and> maxClients a > 0 \<and> int (remote_count a) \<ge> maxClients a"

definition foreign_full :: "ApplyOptions \<Rightarrow> Awareness \<Rightarrow> u64 \<Rightarrow> bool" where
  "foreign_full opts a cid \<longleftrightarrow> Foreign opts \<and> maxForeignClients a > 0 \<and> \<not> isLive a cid \<and> cid \<noteq> clientID a \<and>
     int (if map_of (meta a) (clientID a) \<noteq> None then length (meta a) - 1 else length (meta a)) \<ge> maxForeignClients a"

text \<open>\<open>unmarshal\<close> is \<open>None\<close> for text that does not decode to an object, and for a null object.\<close>

definition decode_state :: "(byte list \<Rightarrow> gomap option) \<Rightarrow> Awareness \<Rightarrow> aw_entry \<Rightarrow> gomap option" where
  "decode_state unmarshal a e =
     (if isNullEntry e \<or> \<not> checkJSONDepth (e_json e) then None
      else case unmarshal (e_json e) of None \<Rightarrow> None
        | Some st \<Rightarrow> if length st > maxStateKeys then None
            else if maxBytes a > 0 \<and>
                activeBytes a + (int (length (e_json e)) - int (map_get (wireBytes a) (e_client e))) > maxBytes a then None
            else Some st)"

definition store_null :: "gotime \<Rightarrow> aw_entry \<Rightarrow> Awareness \<times> tally \<Rightarrow> Awareness \<times> tally" where
  "store_null now e st =
     (let (a, r) = st; cid = e_client e; oldSize = map_get (wireBytes a) cid; wasActive = isLive a cid;
          a = put_state cid (e_clock e) None a;
          a = a\<lparr>meta := map_del cid (meta a)\<rparr>;
          a = (if cid \<noteq> clientID a then markTombstone cid now a else a);
          a = (if oldSize > 0 then a\<lparr>activeBytes := activeBytes a - int oldSize, wireBytes := map_del cid (wireBytes a)\<rparr> else a)
      in (a\<lparr>priorJSON := map_del cid (priorJSON a)\<rparr>, if wasActive then r\<lparr>removed := removed r @ [cid]\<rparr> else r))"

definition content_changed :: "Awareness \<Rightarrow> aw_entry \<Rightarrow> gomap \<Rightarrow> bool" where
  "content_changed a e state =
     (if map_get (wireBytes a) (e_client e) = length (e_json e)
      then \<not> (map_of (priorJSON a) (e_client e) = Some (e_json e) \<or>
              (case lookup a (e_client e) of None \<Rightarrow> False
               | Some cs \<Rightarrow> (case cs_State cs of None \<Rightarrow> False | Some old \<Rightarrow> DeepEqual (AMap old) (AMap state))))
      else True)"

definition store_live :: "gotime \<Rightarrow> aw_entry \<Rightarrow> gomap \<Rightarrow> Awareness \<times> tally \<Rightarrow> Awareness \<times> tally" where
  "store_live now e state st =
     (let (a, r) = st; cid = e_client e; oldSize = map_get (wireBytes a) cid; newSize = length (e_json e);
          exists = (lookup a cid \<noteq> None); changed = content_changed a e state;
          a = put_state cid (e_clock e) (Some state) a;
          a = a\<lparr>meta := map_put cid now (meta a), removedAt := map_del cid (removedAt a), tombSeq := map_del cid (tombSeq a),
                activeBytes := activeBytes a + (int newSize - int oldSize), wireBytes := map_put cid newSize (wireBytes a),
                priorJSON := map_put cid (e_json e) (priorJSON a)\<rparr>
      in (a, if exists then r\<lparr>updated := updated r @ [cid], changedUpdated := changedUpdated r @ (if changed then [cid] else [])\<rparr>
             else r\<lparr>added := added r @ [cid]\<rparr>))"

definition apply_entry :: "(byte list \<Rightarrow> gomap option) \<Rightarrow> ApplyOptions \<Rightarrow> gotime \<Rightarrow> aw_entry \<Rightarrow> Awareness \<times> tally \<Rightarrow> Awareness \<times> tally" where
  "apply_entry unmarshal opts now e st =
     (let (a, r) = st; cid = e_client e in
      if stale (lookup a cid) e then (a, r\<lparr>altered := True\<rparr>)
      else if cid = clientID a \<and> isNullEntry e then protect_self e st
      else if at_cap a cid \<and> (isNullEntry e \<or> tombSeq a = []) then (a, r\<lparr>refused := True\<rparr>)
      else if foreign_full opts a cid then (a, r\<lparr>refused := True\<rparr>)
      else let state = decode_state unmarshal a e; wasActive = isLive a cid; reclaim = at_cap a cid in
        if reclaim \<and> state = None then (a, r\<lparr>refused := True\<rparr>)
        else if (case Admit opts of None \<Rightarrow> False
                 | Some admit \<Rightarrow> \<not> admit \<lparr>ae_ClientID = cid, WasLive = wasActive, Live = (state \<noteq> None)\<rparr> (isLive a))
        then (a, r\<lparr>refused := True\<rparr>)
        else let a = (if reclaim then reclaimOldestTombstone a else a);
                 r = (if state = None \<and> (\<not> wasActive \<or> e_json e \<noteq> null_json) then r\<lparr>altered := True\<rparr> else r)
             in case state of None \<Rightarrow> store_null now e (a, r) | Some s \<Rightarrow> store_live now e s (a, r))"

text \<open>The loop; \<open>now i\<close> is the clock reading for the i-th entry.\<close>

fun apply_entries :: "(byte list \<Rightarrow> gomap option) \<Rightarrow> ApplyOptions \<Rightarrow> (nat \<Rightarrow> gotime) \<Rightarrow> nat \<Rightarrow> aw_entry list \<Rightarrow> Awareness \<times> tally \<Rightarrow> Awareness \<times> tally" where
  "apply_entries unmarshal opts now i [] st = st"
| "apply_entries unmarshal opts now i (e # es) st =
     apply_entries unmarshal opts now (Suc i) es (apply_entry unmarshal opts (now i) e st)"

definition empty_tally :: tally where
  "empty_tally = \<lparr>added = [], updated = [], changedUpdated = [], removed = [], refused = False, altered = False\<rparr>"

definition applyUpdate :: "(byte list \<Rightarrow> gomap option) \<Rightarrow> ApplyOptions \<Rightarrow> (nat \<Rightarrow> gotime) \<Rightarrow> byte list \<Rightarrow> Awareness \<Rightarrow>
    (aw_error + ApplyResult) \<times> call list \<times> Awareness" where
  "applyUpdate unmarshal opts now update a =
     (case decode_update update of Inl err \<Rightarrow> (Inl err, [], a)
      | Inr entries \<Rightarrow>
         (let (a, r) = apply_entries unmarshal opts now 0 entries (a, empty_tally)
          in (Inr \<lparr>Applied = added r @ updated r @ removed r, Refused = refused r, Altered = altered r\<rparr>,
              fire a (added r) (updated r) (changedUpdated r) (removed r), a)))"

definition ApplyUpdate :: "(byte list \<Rightarrow> gomap option) \<Rightarrow> (nat \<Rightarrow> gotime) \<Rightarrow> byte list \<Rightarrow> Awareness \<Rightarrow> aw_error option \<times> call list \<times> Awareness" where
  "ApplyUpdate unmarshal now update a =
     (let (res, calls, a) = applyUpdate unmarshal \<lparr>Foreign = False, Admit = None\<rparr> now update a
      in (case res of Inl err \<Rightarrow> Some err | Inr _ \<Rightarrow> None, calls, a))"

definition ApplyUpdateWith :: "(byte list \<Rightarrow> gomap option) \<Rightarrow> (nat \<Rightarrow> gotime) \<Rightarrow> byte list \<Rightarrow> ApplyOptions \<Rightarrow> Awareness \<Rightarrow>
    (aw_error + ApplyResult) \<times> call list \<times> Awareness" where
  "ApplyUpdateWith unmarshal now update opts a = applyUpdate unmarshal opts now update a"

definition ApplyUpdateContext :: "'err option \<Rightarrow> (byte list \<Rightarrow> gomap option) \<Rightarrow> (nat \<Rightarrow> gotime) \<Rightarrow> byte list \<Rightarrow> Awareness \<Rightarrow>
    ('err + aw_error option) \<times> call list \<times> Awareness" where
  "ApplyUpdateContext ctx_err unmarshal now update a =
     (case ctx_err of Some err \<Rightarrow> (Inl err, [], a)
      | None \<Rightarrow> (let (err, calls, a) = ApplyUpdate unmarshal now update a in (Inr err, calls, a)))"

subsection \<open>Expiry\<close>

definition expire_one :: "gotime \<Rightarrow> u64 \<Rightarrow> Awareness \<Rightarrow> Awareness" where
  "expire_one now cid a =
     (let a = (case lookup a cid of None \<Rightarrow> a | Some cs \<Rightarrow> put_state cid (cs_Clock cs) None a);
          a = markTombstone cid now a;
          a = a\<lparr>meta := map_del cid (meta a)\<rparr>
      in case map_of (wireBytes a) cid of None \<Rightarrow> a
         | Some size' \<Rightarrow> a\<lparr>activeBytes := activeBytes a - int size', wireBytes := map_del cid (wireBytes a)\<rparr>)"

definition expired :: "gotime \<Rightarrow> duration \<Rightarrow> Awareness \<Rightarrow> u64 list" where
  "expired now timeout a = map fst (filter (\<lambda>(cid, t). cid \<noteq> clientID a \<and> now - t \<ge> timeout) (meta a))"

definition RemoveExpired :: "gotime \<Rightarrow> duration \<Rightarrow> Awareness \<Rightarrow> call list \<times> Awareness" where
  "RemoveExpired now timeout a =
     (let gone = expired now timeout a; a' = fold (expire_one now) gone a
      in (if gone \<noteq> []
          then fireObservers (copyObservers a') \<lparr>Added = [], Updated = [], Removed = gone\<rparr> @
               fireUpdateObservers (copyUpdateObservers a') \<lparr>Added = [], Updated = [], Removed = gone\<rparr>
          else [], a'))"

definition PurgeTombstones :: "gotime \<Rightarrow> duration \<Rightarrow> Awareness \<Rightarrow> nat \<times> Awareness" where
  "PurgeTombstones now grace a =
     (if grace \<le> 0 then (0, a)
      else let old = map fst (filter (\<lambda>(cid, t). cid \<noteq> clientID a \<and> \<not> now - t < grace) (removedAt a))
           in (length old, fold forgetTombstone old a))"

text \<open>One tick of the goroutine that \<open>StartAutoExpiry\<close> starts, with the clock readings of its two stages.\<close>

definition expiry_tick :: "gotime \<Rightarrow> gotime \<Rightarrow> duration \<Rightarrow> Awareness \<Rightarrow> call list \<times> Awareness" where
  "expiry_tick now now' timeout a =
     (let (calls, a) = RemoveExpired now timeout a in (calls, snd (PurgeTombstones now' (2 * timeout) a)))"

definition expiry_interval :: "duration \<Rightarrow> duration" where
  "expiry_interval timeout = (let interval = timeout div 2 in if interval \<le> 0 then 1 else interval)"

end
