(* ===== verification/Awareness_Safety.thy ===== *)
theory Awareness_Safety
  imports Awareness
begin

text \<open>
  The invariant of the awareness state and its preservation by every operation, the bounds on memory,
  the clock gate, and the round trip of an update between two peers.
\<close>

subsection \<open>The invariant\<close>

definition isTomb :: "Awareness \<Rightarrow> u64 \<Rightarrow> bool" where
  "isTomb a c = (case lookup a c of None \<Rightarrow> False | Some cs \<Rightarrow> cs_State cs = None)"

definition maps_inv :: "Awareness \<Rightarrow> bool" where
  "maps_inv a \<longleftrightarrow> wf_map (states a) \<and> wf_map (meta a) \<and> wf_map (wireBytes a) \<and> wf_map (removedAt a) \<and> wf_map (tombSeq a)"

text \<open>Exactly the live clients have an expiry time.\<close>

definition meta_inv :: "Awareness \<Rightarrow> bool" where
  "meta_inv a \<longleftrightarrow> (\<forall>c. map_of (meta a) c \<noteq> None \<longleftrightarrow> isLive a c)"

text \<open>Exactly the remote tombstones have a removal time and a place in the queue.\<close>

definition tomb_inv :: "Awareness \<Rightarrow> bool" where
  "tomb_inv a \<longleftrightarrow> (\<forall>c. map_of (removedAt a) c \<noteq> None \<longleftrightarrow> c \<noteq> clientID a \<and> isTomb a c) \<and>
     (\<forall>c. map_of (tombSeq a) c \<noteq> None \<longleftrightarrow> map_of (removedAt a) c \<noteq> None) \<and>
     (\<forall>c s. map_of (tombSeq a) c = Some s \<longrightarrow> \<lparr>t_id = c, t_seq = s\<rparr> \<in> set (tombQ a))"

text \<open>The byte count is the sum of what is recorded per client, and only live clients are charged.\<close>

definition bytes_inv :: "Awareness \<Rightarrow> bool" where
  "bytes_inv a \<longleftrightarrow> activeBytes a = map_sum (wireBytes a) \<and> (\<forall>c n. map_of (wireBytes a) c = Some n \<longrightarrow> n > 0) \<and>
     (\<forall>c. map_of (wireBytes a) c \<noteq> None \<longrightarrow> isLive a c \<or> c = clientID a)"

text \<open>The caps, when they are set.\<close>

definition caps_inv :: "Awareness \<Rightarrow> bool" where
  "caps_inv a \<longleftrightarrow> (maxBytes a > 0 \<longrightarrow> activeBytes a \<le> maxBytes a) \<and>
     (maxClients a > 0 \<longrightarrow> int (remote_count a) \<le> maxClients a)"

definition aw_inv :: "Awareness \<Rightarrow> bool" where
  "aw_inv a \<longleftrightarrow> maps_inv a \<and> meta_inv a \<and> tomb_inv a \<and> bytes_inv a"

lemmas inv_defs = aw_inv_def maps_inv_def meta_inv_def tomb_inv_def bytes_inv_def

lemma lookup_simps [simp]:
  "lookup (put_state c k st a) = (lookup a)(c \<mapsto> \<lparr>cs_Clock = k, cs_State = st\<rparr>)"
  "lookup (a\<lparr>meta := m\<rparr>) = lookup a" "lookup (a\<lparr>clock := k\<rparr>) = lookup a" "lookup (a\<lparr>wireBytes := w\<rparr>) = lookup a"
  "lookup (a\<lparr>activeBytes := b\<rparr>) = lookup a" "lookup (a\<lparr>priorJSON := p\<rparr>) = lookup a" "lookup (a\<lparr>removedAt := t\<rparr>) = lookup a"
  "lookup (a\<lparr>tombQ := q\<rparr>) = lookup a" "lookup (a\<lparr>tombSeq := s\<rparr>) = lookup a" "lookup (a\<lparr>nextSeq := n\<rparr>) = lookup a"
  by (simp_all add: lookup_def put_state_def fun_eq_iff)

lemma put_state_fields [simp]:
  "clientID (put_state c k st a) = clientID a" "meta (put_state c k st a) = meta a" "clock (put_state c k st a) = clock a"
  "wireBytes (put_state c k st a) = wireBytes a" "activeBytes (put_state c k st a) = activeBytes a"
  "removedAt (put_state c k st a) = removedAt a" "tombQ (put_state c k st a) = tombQ a" "tombSeq (put_state c k st a) = tombSeq a"
  "maxBytes (put_state c k st a) = maxBytes a" "maxClients (put_state c k st a) = maxClients a"
  "maxForeignClients (put_state c k st a) = maxForeignClients a" "priorJSON (put_state c k st a) = priorJSON a"
  "states (put_state c k st a) = map_put c \<lparr>cs_Clock = k, cs_State = st\<rparr> (states a)"
  by (simp_all add: put_state_def)

lemma remote_count_card: "maps_inv a \<Longrightarrow> remote_count a = card (keys (states a) - {clientID a})"
  by (simp add: remote_count_def maps_inv_def length_keys card_Diff_singleton_if lookup_def keys_map_of)

lemma markTombstone_fields [simp]:
  "clientID (markTombstone c t a) = clientID a" "states (markTombstone c t a) = states a" "meta (markTombstone c t a) = meta a"
  "wireBytes (markTombstone c t a) = wireBytes a" "activeBytes (markTombstone c t a) = activeBytes a"
  "removedAt (markTombstone c t a) = map_put c t (removedAt a)" "maxBytes (markTombstone c t a) = maxBytes a"
  "maxClients (markTombstone c t a) = maxClients a" "lookup (markTombstone c t a) = lookup a"
  "tombSeq (markTombstone c t a) = map_put c (nextSeq a + 1) (tombSeq a)" "clock (markTombstone c t a) = clock a"
  "maxForeignClients (markTombstone c t a) = maxForeignClients a" "priorJSON (markTombstone c t a) = priorJSON a"
  by (simp_all add: markTombstone_def Let_def lookup_def fun_eq_iff)

lemma markTombstone_queue:
  assumes "\<forall>c s. map_of (tombSeq a) c = Some s \<longrightarrow> \<lparr>t_id = c, t_seq = s\<rparr> \<in> set (tombQ a)"
  shows "\<forall>c s. map_of (tombSeq (markTombstone cid t a)) c = Some s \<longrightarrow> \<lparr>t_id = c, t_seq = s\<rparr> \<in> set (tombQ (markTombstone cid t a))"
  using assms by (auto simp: markTombstone_def Let_def fresh_ref_def)

lemma isTomb_isLive: "lookup a c \<noteq> None \<Longrightarrow> isTomb a c \<longleftrightarrow> \<not> isLive a c"
  by (auto simp: isTomb_def isLive_def)

text \<open>Three kinds of change: a client becomes a tombstone, becomes live, or is forgotten.\<close>

lemma inv_tombstone:
  assumes inv: "aw_inv a"
    and "clientID a' = clientID a" "states a' = map_put c \<lparr>cs_Clock = k, cs_State = None\<rparr> (states a)"
      "meta a' = map_del c (meta a)"
    and "wireBytes a' = map_del c (wireBytes a) \<and> activeBytes a' = activeBytes a - int (map_get (wireBytes a) c) \<or>
      c = clientID a \<and> wireBytes a' = wireBytes a \<and> activeBytes a' = activeBytes a"
    and "if c = clientID a then removedAt a' = removedAt a \<and> tombSeq a' = tombSeq a \<and> tombQ a' = tombQ a
      else removedAt a' = map_put c t (removedAt a) \<and> tombSeq a' = map_put c s (tombSeq a) \<and>
        (\<forall>c s. map_of (tombSeq a') c = Some s \<longrightarrow> \<lparr>t_id = c, t_seq = s\<rparr> \<in> set (tombQ a'))"
  shows "aw_inv a'"
proof -
  have l: "lookup a' = (lookup a)(c \<mapsto> \<lparr>cs_Clock = k, cs_State = None\<rparr>)" by (simp add: lookup_def assms fun_eq_iff)
  have live: "isLive a' x \<longleftrightarrow> x \<noteq> c \<and> isLive a x" and tomb: "isTomb a' x \<longleftrightarrow> x = c \<or> isTomb a x" for x
    by (simp_all add: isLive_def isTomb_def l)
  have "maps_inv a'" using inv assms by (auto simp: inv_defs split: if_splits)
  moreover have "meta_inv a'" using inv by (simp add: inv_defs live assms)
  moreover have "tomb_inv a'"
    using inv assms(2,6) by (cases "c = clientID a") (auto simp: aw_inv_def tomb_inv_def tomb)
  moreover have "bytes_inv a'"
  proof -
    have b: "bytes_inv a" "wf_map (wireBytes a)" using inv by (simp_all add: inv_defs)
    then have "\<forall>x. map_of (wireBytes a') x \<noteq> None \<longrightarrow> isLive a' x \<or> x = clientID a'"
      using assms(5) unfolding bytes_inv_def live assms(2) by (metis map_of_map_del fun_upd_apply)
    moreover have "activeBytes a' = map_sum (wireBytes a') \<and> (\<forall>x n. map_of (wireBytes a') x = Some n \<longrightarrow> n > 0)"
      using b assms(5) unfolding bytes_inv_def by (auto simp: map_sum_del split: if_splits)
    ultimately show ?thesis by (simp add: bytes_inv_def)
  qed
  ultimately show ?thesis by (simp add: aw_inv_def)
qed

lemma inv_live:
  assumes inv: "aw_inv a"
    and "clientID a' = clientID a" "states a' = map_put c \<lparr>cs_Clock = k, cs_State = Some st\<rparr> (states a)"
      "meta a' = map_put c now (meta a)" "tombQ a' = tombQ a"
    and "removedAt a' = map_del c (removedAt a)" "tombSeq a' = map_del c (tombSeq a)"
    and "wireBytes a' = wireBytes a \<and> activeBytes a' = activeBytes a \<or>
      (\<exists>n > 0. wireBytes a' = map_put c n (wireBytes a) \<and> activeBytes a' = activeBytes a + (int n - int (map_get (wireBytes a) c)))"
  shows "aw_inv a'"
proof -
  have l: "lookup a' = (lookup a)(c \<mapsto> \<lparr>cs_Clock = k, cs_State = Some st\<rparr>)" by (simp add: lookup_def assms fun_eq_iff)
  have live: "isLive a' x \<longleftrightarrow> x = c \<or> isLive a x" and tomb: "isTomb a' x \<longleftrightarrow> x \<noteq> c \<and> isTomb a x" for x
    by (simp_all add: isLive_def isTomb_def l)
  have "maps_inv a'" using inv assms by (auto simp: inv_defs)
  moreover have "meta_inv a'" using inv by (simp add: inv_defs live assms)
  moreover have "tomb_inv a'" using inv by (auto simp: aw_inv_def tomb_inv_def tomb assms)
  moreover have "bytes_inv a'"
  proof -
    have b: "bytes_inv a" "wf_map (wireBytes a)" using inv by (simp_all add: inv_defs)
    then have "\<forall>x. map_of (wireBytes a') x \<noteq> None \<longrightarrow> isLive a' x \<or> x = clientID a'"
      using assms(8) unfolding bytes_inv_def live assms(2) by (metis map_of_map_put fun_upd_other)
    moreover have "activeBytes a' = map_sum (wireBytes a') \<and> (\<forall>x n. map_of (wireBytes a') x = Some n \<longrightarrow> n > 0)"
      using b assms(8) unfolding bytes_inv_def by (auto simp: map_sum_put split: if_splits)
    ultimately show ?thesis by (simp add: bytes_inv_def)
  qed
  ultimately show ?thesis by (simp add: aw_inv_def)
qed

lemma forget_fields [simp]:
  "clientID (forgetTombstone c a) = clientID a" "lookup (forgetTombstone c a) = (lookup a)(c := None)"
  "removedAt (forgetTombstone c a) = map_del c (removedAt a)" "tombSeq (forgetTombstone c a) = map_del c (tombSeq a)"
  "meta (forgetTombstone c a) = map_del c (meta a)" "wireBytes (forgetTombstone c a) = map_del c (wireBytes a)"
  "activeBytes (forgetTombstone c a) = activeBytes a" "tombQ (forgetTombstone c a) = tombQ a"
  "maxBytes (forgetTombstone c a) = maxBytes a" "maxClients (forgetTombstone c a) = maxClients a"
  "states (forgetTombstone c a) = map_del c (states a)" "maxForeignClients (forgetTombstone c a) = maxForeignClients a"
  "clock (forgetTombstone c a) = clock a" "priorJSON (forgetTombstone c a) = priorJSON a"
  by (simp_all add: forgetTombstone_def lookup_def fun_eq_iff)

lemma inv_forget:
  assumes inv: "aw_inv a" and "c \<noteq> clientID a" "isTomb a c"
  shows "aw_inv (forgetTombstone c a)"
proof -
  have live: "isLive (forgetTombstone c a) x \<longleftrightarrow> isLive a x" and tomb: "isTomb (forgetTombstone c a) x \<longleftrightarrow> x \<noteq> c \<and> isTomb a x" for x
    using assms(3) by (auto simp: isLive_def isTomb_def split: option.splits)
  have nl: "\<not> isLive a c" using assms(3) by (auto simp: isLive_def isTomb_def split: option.splits)
  then have n: "map_of (wireBytes a) c = None" "map_of (meta a) c = None"
    using inv assms(2) unfolding aw_inv_def bytes_inv_def meta_inv_def by blast+
  have "maps_inv (forgetTombstone c a)" using inv by (simp add: inv_defs)
  moreover have "meta_inv (forgetTombstone c a)" using inv nl unfolding aw_inv_def meta_inv_def live by auto
  moreover have "tomb_inv (forgetTombstone c a)" using inv unfolding aw_inv_def tomb_inv_def tomb by auto
  moreover have "bytes_inv (forgetTombstone c a)"
    using inv n(1) unfolding aw_inv_def bytes_inv_def live by (auto simp: map_sum_del maps_inv_def map_get_def)
  ultimately show ?thesis by (simp add: aw_inv_def)
qed

lemma inv_queue: "aw_inv a \<Longrightarrow> \<forall>c s. map_of (tombSeq a) c = Some s \<longrightarrow> \<lparr>t_id = c, t_seq = s\<rparr> \<in> set q \<Longrightarrow> aw_inv (a\<lparr>tombQ := q\<rparr>)"
  by (simp add: inv_defs isLive_def isTomb_def)

text \<open>Reclaiming finds a tombstone whenever there is one, and forgets exactly one.\<close>

lemma reclaim_loop_finds:
  assumes "\<exists>t \<in> set q. fresh_ref a t"
  shows "\<exists>t p q'. q = p @ t # q' \<and> fresh_ref a t \<and> (\<forall>u \<in> set p. \<not> fresh_ref a u) \<and>
    reclaim_loop q a = forgetTombstone (t_id t) (a\<lparr>tombQ := q'\<rparr>)"
  using assms
proof (induction q)
  case (Cons t q)
  show ?case
  proof (cases "fresh_ref a t")
    case True
    then show ?thesis by (intro exI[of _ t] exI[of _ "[]"] exI[of _ q]) simp
  next
    case False
    then obtain u p q' where "q = p @ u # q'" "fresh_ref a u" "\<forall>v \<in> set p. \<not> fresh_ref a v"
        "reclaim_loop q a = forgetTombstone (t_id u) (a\<lparr>tombQ := q'\<rparr>)"
      using Cons by auto
    then show ?thesis using False by (intro exI[of _ u] exI[of _ "t # p"] exI[of _ q']) simp
  qed
qed simp

lemma forget_queue: "forgetTombstone c (a\<lparr>tombQ := q\<rparr>) = (forgetTombstone c a)\<lparr>tombQ := q\<rparr>"
  by (simp add: forgetTombstone_def)

lemma reclaim_correct:
  assumes inv: "aw_inv a" and "tombSeq a \<noteq> []"
  shows "\<exists>c q'. c \<noteq> clientID a \<and> isTomb a c \<and> reclaimOldestTombstone a = (forgetTombstone c a)\<lparr>tombQ := q'\<rparr> \<and>
    aw_inv (reclaimOldestTombstone a)"
proof -
  obtain c0 s0 where "map_of (tombSeq a) c0 = Some s0"
    using assms(2) by (metis list.set_intros(1) list.exhaust map_of_eq_None_iff not_None_eq prod.collapse image_eqI)
  then have "\<exists>t \<in> set (tombQ a). fresh_ref a t"
    using inv by (intro bexI[of _ "\<lparr>t_id = c0, t_seq = s0\<rparr>"]) (auto simp: fresh_ref_def aw_inv_def tomb_inv_def)
  from reclaim_loop_finds[OF this] obtain t p q' where t: "tombQ a = p @ t # q'" "fresh_ref a t"
      "\<forall>u \<in> set p. \<not> fresh_ref a u" "reclaim_loop (tombQ a) a = forgetTombstone (t_id t) (a\<lparr>tombQ := q'\<rparr>)"
    by blast
  have c: "t_id t \<noteq> clientID a" "isTomb a (t_id t)"
    using inv t(2) unfolding fresh_ref_def aw_inv_def tomb_inv_def by (metis option.distinct(1))+
  have "\<lparr>t_id = c, t_seq = s\<rparr> \<in> set q'" if "map_of (tombSeq a) c = Some s" "c \<noteq> t_id t" for c s
  proof -
    have "\<lparr>t_id = c, t_seq = s\<rparr> \<in> set (tombQ a)" using inv that(1) by (simp add: aw_inv_def tomb_inv_def)
    moreover have "\<lparr>t_id = c, t_seq = s\<rparr> \<notin> set p" using t(3) that(1) by (auto simp: fresh_ref_def)
    ultimately show ?thesis using t(1) that(2) by auto
  qed
  then have "aw_inv ((forgetTombstone (t_id t) a)\<lparr>tombQ := q'\<rparr>)"
    by (intro inv_queue inv_forget[OF inv c]) (simp split: if_splits)
  then show ?thesis using c t(4) unfolding reclaimOldestTombstone_def forget_queue by metis
qed

subsection \<open>Every operation keeps it\<close>

lemma wire_del:
  assumes "bytes_inv a"
  shows "map_get (wireBytes a) c = 0 \<longleftrightarrow> map_of (wireBytes a) c = None"
    and "map_get (wireBytes a) c = 0 \<Longrightarrow> map_del c (wireBytes a) = wireBytes a"
proof -
  show e: "map_get (wireBytes a) c = 0 \<longleftrightarrow> map_of (wireBytes a) c = None"
    using assms by (auto simp: map_get_def bytes_inv_def split: option.splits)
  show "map_get (wireBytes a) c = 0 \<Longrightarrow> map_del c (wireBytes a) = wireBytes a"
    unfolding e map_of_eq_None_iff by (rule map_del_new)
qed

lemma store_null_fields:
  fixes a :: Awareness and e :: aw_entry and now :: gotime and r :: tally
  assumes "bytes_inv a"
  defines "a' \<equiv> fst (store_null now e (a, r))"
  shows "clientID a' = clientID a" "states a' = map_put (e_client e) \<lparr>cs_Clock = e_clock e, cs_State = None\<rparr> (states a)"
    "meta a' = map_del (e_client e) (meta a)" "wireBytes a' = map_del (e_client e) (wireBytes a)"
    "activeBytes a' = activeBytes a - int (map_get (wireBytes a) (e_client e))"
    "maxBytes a' = maxBytes a" "maxClients a' = maxClients a" "clock a' = clock a"
  using wire_del(2)[OF assms(1), of "e_client e"] by (simp_all add: a'_def store_null_def Let_def)

lemma store_null_inv:
  assumes "aw_inv a"
  shows "aw_inv (fst (store_null now e (a, r)))"
proof -
  have b: "bytes_inv a" using assms by (simp add: aw_inv_def)
  let ?a1 = "put_state (e_client e) (e_clock e) None a\<lparr>meta := map_del (e_client e) (meta a)\<rparr>"
  have q: "\<forall>c s. map_of (tombSeq ?a1) c = Some s \<longrightarrow> \<lparr>t_id = c, t_seq = s\<rparr> \<in> set (tombQ ?a1)"
    using assms by (simp add: aw_inv_def tomb_inv_def)
  have x: "nextSeq ?a1 = nextSeq a" by (simp add: put_state_def)
  show ?thesis
    by (rule inv_tombstone[OF assms store_null_fields(1-3)[OF b], where t = now and s = "nextSeq a + 1"])
      (use store_null_fields(4,5)[OF b] markTombstone_queue[OF q] x in \<open>auto simp: store_null_def Let_def split: if_splits\<close>)
qed

lemma store_live_inv:
  assumes "aw_inv a" "e_json e \<noteq> []"
  shows "aw_inv (fst (store_live now e s (a, r)))"
  by (rule inv_live[OF assms(1), where c = "e_client e" and k = "e_clock e" and st = s and now = now])
    (use assms(2) in \<open>auto simp: store_live_def Let_def intro!: exI[of _ "length (e_json e)"]\<close>)

lemma local_no_tomb: "aw_inv a \<Longrightarrow> map_del (clientID a) (removedAt a) = removedAt a \<and> map_del (clientID a) (tombSeq a) = tombSeq a"
  unfolding aw_inv_def tomb_inv_def by (metis map_del_new keys_map_of)

text \<open>A client keeps its state at another clock.\<close>

lemma inv_reclock:
  assumes "aw_inv a" "lookup a c = Some cs" "clientID a' = clientID a"
    "states a' = map_put c \<lparr>cs_Clock = k, cs_State = cs_State cs\<rparr> (states a)"
    "wf_map (meta a')" "map_of (meta a') = map_of (meta a) \<or> isLive a c \<and> map_of (meta a') = (map_of (meta a))(c \<mapsto> t)"
    "wireBytes a' = wireBytes a" "activeBytes a' = activeBytes a" "removedAt a' = removedAt a" "tombSeq a' = tombSeq a" "tombQ a' = tombQ a"
  shows "aw_inv a'"
proof -
  have "lookup a' = (lookup a)(c \<mapsto> \<lparr>cs_Clock = k, cs_State = cs_State cs\<rparr>)" using assms(4) by (simp add: lookup_def fun_eq_iff)
  then have same: "isLive a' = isLive a" "isTomb a' = isTomb a"
    using assms(2) by (auto simp: isLive_def isTomb_def fun_eq_iff)
  have "meta_inv a'" using assms(1,6) unfolding aw_inv_def meta_inv_def same by (metis fun_upd_apply option.distinct(1))
  then show ?thesis using assms by (simp add: inv_defs same)
qed

lemma protect_self_inv:
  assumes "aw_inv a"
  shows "aw_inv (fst (protect_self e (a, r)))"
proof (cases "lookup a (clientID a)")
  case None
  then show ?thesis using assms by (simp add: protect_self_def Let_def inv_defs isLive_def isTomb_def)
next
  case (Some cs)
  let ?k = "if e_clock e \<ge> clock a then e_clock e + 1 else clock a"
  show ?thesis
  proof (cases "cs_State cs")
    case None
    then show ?thesis using assms Some by (simp add: protect_self_def Let_def inv_defs isLive_def isTomb_def)
  next
    case st: (Some st)
    have "wf_map (meta a)" using assms by (simp add: inv_defs)
    then show ?thesis
      by (intro inv_reclock[OF assms Some, where k = ?k]) (simp_all add: protect_self_def Let_def Some st)
  qed
qed

lemma SetLocalState_inv:
  assumes "aw_inv a"
  shows "aw_inv (snd (SetLocalState now st a))"
proof -
  define k where "k = bump (case lookup a (clientID a) of None \<Rightarrow> clock a | Some cs \<Rightarrow> if cs_Clock cs > clock a then cs_Clock cs else clock a)"
  show ?thesis
  proof (cases st)
    case None
    have "snd (SetLocalState now st a) =
        put_state (clientID a) k None (a\<lparr>clock := k\<rparr>)\<lparr>meta := map_del (clientID a) (meta a)\<rparr>"
      by (simp add: SetLocalState_def Let_def None k_def)
    then show ?thesis by (intro inv_tombstone[OF assms, where c = "clientID a" and k = k]) simp_all
  next
    case (Some s)
    have "snd (SetLocalState now st a) =
        put_state (clientID a) k (Some s) (a\<lparr>clock := k\<rparr>)\<lparr>meta := map_put (clientID a) now (meta a)\<rparr>"
      by (simp add: SetLocalState_def Let_def Some k_def)
    then show ?thesis using local_no_tomb[OF assms]
      by (intro inv_live[OF assms, where c = "clientID a" and k = k and st = s and now = now]) simp_all
  qed
qed

lemma Heartbeat_inv:
  assumes "aw_inv a"
  shows "aw_inv (snd (Heartbeat now a))"
proof (cases "lookup a (clientID a)")
  case None
  then show ?thesis using assms by (simp add: Heartbeat_def)
next
  case (Some cs)
  define k where "k = bump (if clock a < cs_Clock cs then cs_Clock cs else clock a)"
  show ?thesis
  proof (cases "cs_State cs")
    case None
    then show ?thesis using assms Some by (simp add: Heartbeat_def)
  next
    case st: (Some st)
    then have "snd (Heartbeat now a) =
        put_state (clientID a) k (cs_State cs) (a\<lparr>clock := k, meta := map_put (clientID a) now (meta a)\<rparr>)"
      using Some by (simp add: Heartbeat_def Let_def k_def)
    moreover have "isLive a (clientID a)" "wf_map (meta a)" using Some st assms by (simp_all add: isLive_def inv_defs)
    ultimately show ?thesis by (intro inv_reclock[OF assms Some, where k = k and t = now]) simp_all
  qed
qed

lemma decode_state_json: "decode_state unm a e = Some s \<Longrightarrow> e_json e \<noteq> []"
  by (auto simp: decode_state_def isNullEntry_def split: if_splits)

lemma apply_entry_inv:
  assumes "aw_inv a"
  shows "aw_inv (fst (apply_entry unm opts now e (a, r)))"
proof -
  define a' where "a' = (if at_cap a (e_client e) then reclaimOldestTombstone a else a)"
  have a': "aw_inv a'" if "\<not> (at_cap a (e_client e) \<and> (isNullEntry e \<or> tombSeq a = []))"  "decode_state unm a e \<noteq> None \<or> \<not> at_cap a (e_client e)"
    using reclaim_correct[OF assms] assms that by (auto simp: a'_def)
  show ?thesis
    using assms a' store_null_inv store_live_inv protect_self_inv[OF assms] decode_state_json[of unm a e]
    by (auto simp: apply_entry_def Let_def a'_def split: option.splits)
qed

lemma apply_entries_inv:
  "aw_inv (fst st) \<Longrightarrow> aw_inv (fst (apply_entries unm opts now i es st))"
proof (induction es arbitrary: i st)
  case (Cons e es)
  then show ?case using apply_entry_inv by (cases st) auto
qed simp

lemma applyUpdate_inv: "aw_inv a \<Longrightarrow> aw_inv (snd (snd (applyUpdate unm opts now u a)))"
  using apply_entries_inv[of "(a, empty_tally)"]
  by (auto simp: applyUpdate_def case_prod_unfold Let_def split: sum.splits)

lemma expire_one_inv:
  assumes "aw_inv a" "c \<noteq> clientID a" "isLive a c"
  shows "aw_inv (expire_one now c a)" "clientID (expire_one now c a) = clientID a"
    "isLive (expire_one now c a) x \<longleftrightarrow> x \<noteq> c \<and> isLive a x"
proof -
  have b: "bytes_inv a" using assms(1) by (simp add: aw_inv_def)
  obtain cs where cs: "lookup a c = Some cs" using assms(3) by (auto simp: isLive_def split: option.splits)
  let ?a1 = "put_state c (cs_Clock cs) None a"
  have q: "\<forall>c s. map_of (tombSeq ?a1) c = Some s \<longrightarrow> \<lparr>t_id = c, t_seq = s\<rparr> \<in> set (tombQ ?a1)"
    using assms by (simp add: aw_inv_def tomb_inv_def)
  have w: "wireBytes (expire_one now c a) = map_del c (wireBytes a)"
      "activeBytes (expire_one now c a) = activeBytes a - int (map_get (wireBytes a) c)"
    using wire_del[OF b, of c] by (auto simp: expire_one_def cs Let_def map_get_def split: option.splits)
  have x: "nextSeq ?a1 = nextSeq a" by (simp add: put_state_def)
  have f: "clientID (expire_one now c a) = clientID a"
      "states (expire_one now c a) = map_put c \<lparr>cs_Clock = cs_Clock cs, cs_State = None\<rparr> (states a)"
      "meta (expire_one now c a) = map_del c (meta a)"
      "removedAt (expire_one now c a) = map_put c now (removedAt a)"
      "tombSeq (expire_one now c a) = map_put c (nextSeq a + 1) (tombSeq a)"
      "tombQ (expire_one now c a) = tombQ (markTombstone c now ?a1)"
    using x by (auto simp: expire_one_def cs Let_def split: option.splits)
  show "aw_inv (expire_one now c a)"
    by (rule inv_tombstone[OF assms(1) f(1-3), where t = now and s = "nextSeq a + 1"])
      (use w f(4-6) markTombstone_queue[OF q, of c now] x assms(2) in auto)
  show "clientID (expire_one now c a) = clientID a" by (rule f(1))
  have "lookup (expire_one now c a) = (lookup a)(c \<mapsto> \<lparr>cs_Clock = cs_Clock cs, cs_State = None\<rparr>)"
    by (simp add: lookup_def f(2) fun_eq_iff)
  then show "isLive (expire_one now c a) x \<longleftrightarrow> x \<noteq> c \<and> isLive a x" by (simp add: isLive_def)
qed

lemma expire_all_inv:
  "aw_inv a \<Longrightarrow> distinct cs \<Longrightarrow> \<forall>c \<in> set cs. c \<noteq> clientID a \<and> isLive a c \<Longrightarrow>
   aw_inv (fold (expire_one now) cs a) \<and> (\<forall>x. isLive (fold (expire_one now) cs a) x \<longleftrightarrow> x \<notin> set cs \<and> isLive a x)"
proof (induction cs arbitrary: a)
  case (Cons c cs)
  note e = expire_one_inv[OF Cons.prems(1), of c now]
  have "\<forall>d \<in> set cs. d \<noteq> clientID (expire_one now c a) \<and> isLive (expire_one now c a) d" using Cons.prems(2,3) e by auto
  then show ?case using Cons.IH[of "expire_one now c a"] Cons.prems e by auto
qed simp

lemma expired_live:
  assumes "aw_inv a"
  shows "distinct (expired now timeout a)" "\<forall>c \<in> set (expired now timeout a). c \<noteq> clientID a \<and> isLive a c"
proof -
  show "distinct (expired now timeout a)"
    using assms by (simp add: expired_def inv_defs wf_map_def distinct_map_filter)
  have "c \<in> keys (meta a) \<Longrightarrow> isLive a c" for c using assms unfolding aw_inv_def meta_inv_def keys_map_of by blast
  then show "\<forall>c \<in> set (expired now timeout a). c \<noteq> clientID a \<and> isLive a c" by (force simp: expired_def)
qed

lemma RemoveExpired_inv: "aw_inv a \<Longrightarrow> aw_inv (snd (RemoveExpired now timeout a))"
  using expire_all_inv[OF _ expired_live] by (simp add: RemoveExpired_def Let_def)

lemma forget_all_inv:
  "aw_inv a \<Longrightarrow> distinct cs \<Longrightarrow> \<forall>c \<in> set cs. c \<noteq> clientID a \<and> isTomb a c \<Longrightarrow>
   aw_inv (fold forgetTombstone cs a) \<and> lookup (fold forgetTombstone cs a) = (\<lambda>x. if x \<in> set cs then None else lookup a x)"
proof (induction cs arbitrary: a)
  case (Cons c cs)
  have "\<forall>d \<in> set cs. d \<noteq> clientID (forgetTombstone c a) \<and> isTomb (forgetTombstone c a) d"
    using Cons.prems(2,3) by (auto simp: isTomb_def)
  then show ?case using Cons.IH[of "forgetTombstone c a"] Cons.prems inv_forget[OF Cons.prems(1), of c] by (auto simp: fun_eq_iff)
qed simp

definition purgeable :: "gotime \<Rightarrow> duration \<Rightarrow> Awareness \<Rightarrow> u64 list" where
  "purgeable now grace a = map fst (filter (\<lambda>(cid, t). cid \<noteq> clientID a \<and> \<not> now - t < grace) (removedAt a))"

lemma purgeable_tombs:
  assumes "aw_inv a"
  shows "distinct (purgeable now grace a)" "\<forall>c \<in> set (purgeable now grace a). c \<noteq> clientID a \<and> isTomb a c"
proof -
  show "distinct (purgeable now grace a)"
    using assms by (simp add: purgeable_def inv_defs wf_map_def distinct_map_filter)
  have "c \<in> keys (removedAt a) \<Longrightarrow> isTomb a c" for c using assms unfolding aw_inv_def tomb_inv_def keys_map_of by blast
  then show "\<forall>c \<in> set (purgeable now grace a). c \<noteq> clientID a \<and> isTomb a c" by (force simp: purgeable_def)
qed

lemma PurgeTombstones_inv: "aw_inv a \<Longrightarrow> aw_inv (snd (PurgeTombstones now grace a))"
  using forget_all_inv[OF _ purgeable_tombs] by (simp add: PurgeTombstones_def Let_def purgeable_def)

lemma New_inv: "aw_inv (New cid)"
  by (simp add: inv_defs New_def isLive_def isTomb_def lookup_def map_sum_def)

subsection \<open>The caps\<close>

lemma card_put:
  assumes "finite K"
  shows "card (insert c K - {me}) = (if c \<in> K \<or> c = me then card (K - {me}) else card (K - {me}) + 1)"
proof (cases "c \<in> K \<or> c = me")
  case True
  then have "insert c K - {me} = K - {me}" by auto
  then show ?thesis using True by simp
next
  case False
  then have "insert c K - {me} = insert c (K - {me})" "c \<notin> K - {me}" by auto
  then show ?thesis using False assms by simp
qed

lemma remote_count_put:
  assumes "maps_inv a" "maps_inv a'" "states a' = map_put c v (states a)" "clientID a' = clientID a"
  shows "remote_count a' = (if lookup a c \<noteq> None \<or> c = clientID a then remote_count a else remote_count a + 1)"
proof -
  have k: "lookup a c \<noteq> None \<longleftrightarrow> c \<in> keys (states a)" by (simp add: lookup_def keys_map_of)
  show ?thesis unfolding k remote_count_card[OF assms(1)] remote_count_card[OF assms(2)] assms(3,4)
    using card_put[of "keys (states a)" c "clientID a"] by simp
qed

lemma remote_count_forget:
  assumes "maps_inv a" "maps_inv a'" "states a' = map_del c (states a)" "clientID a' = clientID a" "lookup a c \<noteq> None" "c \<noteq> clientID a"
  shows "remote_count a' = remote_count a - 1" "remote_count a > 0"
proof -
  have c: "c \<in> keys (states a) - {clientID a}" using assms(5,6) by (simp add: lookup_def keys_map_of)
  have "keys (states a) - {c} - {clientID a} = (keys (states a) - {clientID a}) - {c}" by auto
  then show "remote_count a' = remote_count a - 1"
    using c by (simp add: remote_count_card[OF assms(1)] remote_count_card[OF assms(2)] assms(3,4) card_Diff_singleton)
  show "remote_count a > 0" using c by (auto simp: remote_count_card[OF assms(1)] card_gt_0_iff)
qed

lemma store_null_caps:
  assumes "aw_inv a" "caps_inv a" "\<not> at_cap a (e_client e)"
  shows "caps_inv (fst (store_null now e (a, r)))"
proof -
  let ?a = "fst (store_null now e (a, r))"
  have b: "bytes_inv a" "maps_inv a" "maps_inv ?a" using assms(1) store_null_inv[OF assms(1), of now e r] by (simp_all add: aw_inv_def)
  note f = store_null_fields[OF b(1), of now e r]
  have "remote_count ?a = (if lookup a (e_client e) \<noteq> None \<or> e_client e = clientID a then remote_count a else remote_count a + 1)"
    by (rule remote_count_put[OF b(2,3) f(2,1)])
  then show ?thesis using assms(2,3) f by (auto simp: caps_inv_def at_cap_def)
qed

text \<open>The state in which an admitted entry is stored: a slot is free, and the bytes fit.\<close>

definition roomy :: "Awareness \<Rightarrow> u64 \<Rightarrow> nat \<Rightarrow> bool" where
  "roomy a c n \<longleftrightarrow> (maxClients a > 0 \<longrightarrow> lookup a c \<noteq> None \<or> c = clientID a \<or> int (remote_count a) < maxClients a) \<and>
     (maxBytes a > 0 \<longrightarrow> activeBytes a + (int n - int (map_get (wireBytes a) c)) \<le> maxBytes a)"

lemma store_live_caps:
  assumes "aw_inv a" "caps_inv a" "roomy a (e_client e) (length (e_json e))" "e_json e \<noteq> []"
  shows "caps_inv (fst (store_live now e s (a, r)))"
proof -
  let ?a = "fst (store_live now e s (a, r))"
  have b: "maps_inv a" "maps_inv ?a" using assms(1) store_live_inv[OF assms(1,4), of now s r] by (simp_all add: aw_inv_def)
  have f: "states ?a = map_put (e_client e) \<lparr>cs_Clock = e_clock e, cs_State = Some s\<rparr> (states a)" "clientID ?a = clientID a"
      "maxBytes ?a = maxBytes a" "maxClients ?a = maxClients a"
      "activeBytes ?a = activeBytes a + (int (length (e_json e)) - int (map_get (wireBytes a) (e_client e)))"
    by (simp_all add: store_live_def Let_def)
  have "remote_count ?a = (if lookup a (e_client e) \<noteq> None \<or> e_client e = clientID a then remote_count a else remote_count a + 1)"
    by (rule remote_count_put[OF b f(1,2)])
  then show ?thesis using assms(2,3) f by (auto simp: caps_inv_def roomy_def)
qed

lemma reclaim_roomy:
  assumes "aw_inv a" "caps_inv a" "at_cap a c" "tombSeq a \<noteq> []"
    "maxBytes a > 0 \<longrightarrow> activeBytes a + (int n - int (map_get (wireBytes a) c)) \<le> maxBytes a"
  shows "aw_inv (reclaimOldestTombstone a)" "caps_inv (reclaimOldestTombstone a)" "roomy (reclaimOldestTombstone a) c n"
proof -
  obtain d q where d: "d \<noteq> clientID a" "isTomb a d" "reclaimOldestTombstone a = (forgetTombstone d a)\<lparr>tombQ := q\<rparr>"
      "aw_inv (reclaimOldestTombstone a)" using reclaim_correct[OF assms(1,4)] by blast
  show "aw_inv (reclaimOldestTombstone a)" by (rule d(4))
  have l: "lookup a d \<noteq> None" using d(2) by (auto simp: isTomb_def split: option.splits)
  then have "c \<noteq> d" using assms(3) by (auto simp: at_cap_def)
  have r: "remote_count (reclaimOldestTombstone a) = remote_count a - 1" "remote_count a > 0"
    using remote_count_forget[OF _ _ _ _ l d(1), of "reclaimOldestTombstone a"] assms(1) d(3,4) by (simp_all add: aw_inv_def)
  show "caps_inv (reclaimOldestTombstone a)" using assms(2) r d(3) by (auto simp: caps_inv_def)
  show "roomy (reclaimOldestTombstone a) c n"
    using assms(2,3,5) r d(3) \<open>c \<noteq> d\<close> by (auto simp: roomy_def caps_inv_def map_get_def)
qed

lemma protect_self_caps:
  assumes "aw_inv a" "caps_inv a"
  shows "caps_inv (fst (protect_self e (a, r)))"
proof -
  let ?a = "fst (protect_self e (a, r))"
  have m: "maps_inv a" "maps_inv ?a" using assms(1) protect_self_inv[OF assms(1), of e r] by (simp_all add: aw_inv_def)
  have "keys (states ?a) - {clientID ?a} = keys (states a) - {clientID a}" "maxBytes ?a = maxBytes a"
    "maxClients ?a = maxClients a" "activeBytes ?a = activeBytes a"
    by (auto simp: protect_self_def Let_def split: option.splits)
  then show ?thesis using assms(2) by (simp add: caps_inv_def remote_count_card[OF m(1)] remote_count_card[OF m(2)])
qed

lemma decode_state_fits:
  "decode_state unm a e = Some s \<Longrightarrow> maxBytes a > 0 \<longrightarrow> activeBytes a + (int (length (e_json e)) - int (map_get (wireBytes a) (e_client e))) \<le> maxBytes a"
  by (auto simp: decode_state_def split: if_splits option.splits)

lemma apply_entry_caps:
  assumes "aw_inv a" "caps_inv a"
  shows "caps_inv (fst (apply_entry unm opts now e (a, r)))"
proof (cases "decode_state unm a e")
  case None
  then show ?thesis using assms store_null_caps[OF assms] protect_self_caps[OF assms]
    by (auto simp: apply_entry_def Let_def split: option.splits)
next
  case (Some s)
  note j = decode_state_json[OF Some] and f = decode_state_fits[OF Some]
  show ?thesis
  proof (cases "at_cap a (e_client e)")
    case True
    then show ?thesis
      using assms Some protect_self_caps[OF assms] reclaim_roomy[OF assms True _ f] store_live_caps[OF _ _ _ j]
      by (auto simp: apply_entry_def Let_def split: option.splits)
  next
    case False
    then have "roomy a (e_client e) (length (e_json e))" using assms(2) f by (auto simp: roomy_def at_cap_def)
    then show ?thesis using assms Some False protect_self_caps[OF assms] store_live_caps[OF assms _ j]
      by (auto simp: apply_entry_def Let_def split: option.splits)
  qed
qed

lemma apply_entries_caps:
  "aw_inv (fst st) \<Longrightarrow> caps_inv (fst st) \<Longrightarrow> caps_inv (fst (apply_entries unm opts now i es st))"
proof (induction es arbitrary: i st)
  case (Cons e es)
  then show ?case using apply_entry_inv apply_entry_caps by (cases st) auto
qed simp

lemma applyUpdate_caps: "aw_inv a \<Longrightarrow> caps_inv a \<Longrightarrow> caps_inv (snd (snd (applyUpdate unm opts now u a)))"
  using apply_entries_caps[of "(a, empty_tally)"]
  by (auto simp: applyUpdate_def case_prod_unfold Let_def split: sum.splits)

text \<open>Operations that keep the set of remote clients and the limits, and charge no more bytes.\<close>

lemma caps_mono:
  assumes "maps_inv a" "maps_inv a'" "caps_inv a" "clientID a' = clientID a" "keys (states a') \<subseteq> insert (clientID a) (keys (states a))"
    "maxBytes a' = maxBytes a" "maxClients a' = maxClients a" "activeBytes a' \<le> activeBytes a"
  shows "caps_inv a'"
proof -
  have "card (keys (states a') - {clientID a'}) \<le> card (keys (states a) - {clientID a})"
    using assms(4,5) by (intro card_mono) auto
  then show ?thesis using assms by (auto simp: caps_inv_def remote_count_card)
qed

lemma aw_inv_maps: "aw_inv a \<Longrightarrow> maps_inv a"
  by (simp add: aw_inv_def)

lemma SetLocalState_caps:
  assumes "aw_inv a" "caps_inv a"
  shows "caps_inv (snd (SetLocalState now st a))"
  by (rule caps_mono[OF aw_inv_maps[OF assms(1)] aw_inv_maps[OF SetLocalState_inv[OF assms(1)]] assms(2)])
    (cases st; simp add: SetLocalState_def Let_def)+

lemma Heartbeat_caps:
  assumes "aw_inv a" "caps_inv a"
  shows "caps_inv (snd (Heartbeat now a))"
  by (rule caps_mono[OF aw_inv_maps[OF assms(1)] aw_inv_maps[OF Heartbeat_inv[OF assms(1)]] assms(2)])
    (auto simp: Heartbeat_def Let_def split: option.splits)

lemma expire_one_fields:
  "maxBytes (expire_one now c a) = maxBytes a" "maxClients (expire_one now c a) = maxClients a"
  "activeBytes (expire_one now c a) \<le> activeBytes a" "clientID (expire_one now c a) = clientID a"
  "isLive a c \<Longrightarrow> keys (states (expire_one now c a)) = keys (states a)"
  by (auto simp: expire_one_def Let_def isLive_def lookup_def split: option.splits dest!: map_of_SomeD) (force simp: image_iff)+

lemma expire_all_fields:
  "aw_inv a \<Longrightarrow> distinct cs \<Longrightarrow> \<forall>c \<in> set cs. c \<noteq> clientID a \<and> isLive a c \<Longrightarrow>
   maxBytes (fold (expire_one now) cs a) = maxBytes a \<and> maxClients (fold (expire_one now) cs a) = maxClients a \<and>
   activeBytes (fold (expire_one now) cs a) \<le> activeBytes a \<and> clientID (fold (expire_one now) cs a) = clientID a \<and>
   keys (states (fold (expire_one now) cs a)) = keys (states a)"
proof (induction cs arbitrary: a)
  case (Cons c cs)
  note e = expire_one_inv[OF Cons.prems(1), of c now] and f = expire_one_fields[where now = now and c = c and a = a]
  have p: "aw_inv (expire_one now c a)" "distinct cs"
    "\<forall>d \<in> set cs. d \<noteq> clientID (expire_one now c a) \<and> isLive (expire_one now c a) d" using Cons.prems e by auto
  show ?case using Cons.IH[OF p] f Cons.prems(3) by simp
qed simp

lemma RemoveExpired_caps:
  assumes "aw_inv a" "caps_inv a"
  shows "caps_inv (snd (RemoveExpired now timeout a))"
  by (rule caps_mono[OF aw_inv_maps[OF assms(1)] aw_inv_maps[OF RemoveExpired_inv[OF assms(1)]] assms(2)])
    (use expire_all_fields[OF assms(1) expired_live[OF assms(1), of now timeout], where now = now]
      in \<open>auto simp: RemoveExpired_def Let_def\<close>)

lemma forget_all_fields:
  "maxBytes (fold forgetTombstone cs a) = maxBytes a" "maxClients (fold forgetTombstone cs a) = maxClients a"
  "activeBytes (fold forgetTombstone cs a) = activeBytes a" "clientID (fold forgetTombstone cs a) = clientID a"
  "keys (states (fold forgetTombstone cs a)) = keys (states a) - set cs"
  by (induction cs arbitrary: a) auto

lemma PurgeTombstones_caps:
  assumes "aw_inv a" "caps_inv a"
  shows "caps_inv (snd (PurgeTombstones now grace a))"
  by (rule caps_mono[OF aw_inv_maps[OF assms(1)] aw_inv_maps[OF PurgeTombstones_inv[OF assms(1)]] assms(2)])
    (auto simp: PurgeTombstones_def Let_def forget_all_fields)

subsection \<open>Runs\<close>

text \<open>
  Everything that can happen to a tracker after its limits are set: local calls, updates with any bytes
  and options, and the two stages of expiry, in any order and at any time.
\<close>

inductive aw_step :: "Awareness \<Rightarrow> Awareness \<Rightarrow> bool" where
  set_local: "aw_step a (snd (SetLocalState now st a))"
| heartbeat: "aw_step a (snd (Heartbeat now a))"
| remote: "aw_step a (snd (snd (applyUpdate unm opts nows u a)))"
| expire: "aw_step a (snd (RemoveExpired now timeout a))"
| purge: "aw_step a (snd (PurgeTombstones now grace a))"
| observe: "aw_step a (snd (OnChange fn a))"
| observe_update: "aw_step a (snd (OnUpdate fn a))"
| unobserve: "aw_step a (unsubscribe_change h a)"
| unobserve_update: "aw_step a (unsubscribe_update h a)"

definition initial :: "u64 \<Rightarrow> int \<Rightarrow> int \<Rightarrow> int \<Rightarrow> Awareness" where
  "initial cid bytes clients foreign = SetMaxForeignClients foreign (SetMaxClients clients (SetMaxBytes bytes (New cid)))"

lemma inv_cong:
  assumes "clientID a' = clientID a" "states a' = states a" "meta a' = meta a" "wireBytes a' = wireBytes a" "activeBytes a' = activeBytes a"
    "removedAt a' = removedAt a" "tombSeq a' = tombSeq a" "tombQ a' = tombQ a" "maxBytes a' = maxBytes a" "maxClients a' = maxClients a"
  shows "aw_inv a' = aw_inv a" "caps_inv a' = caps_inv a"
  using assms by (simp_all add: inv_defs caps_inv_def isLive_def isTomb_def lookup_def remote_count_def)

lemma aw_step_inv: "aw_step a a' \<Longrightarrow> aw_inv a \<and> caps_inv a \<Longrightarrow> aw_inv a' \<and> caps_inv a'"
proof (induction rule: aw_step.induct)
  case (observe a fn)
  then show ?case using inv_cong[of "snd (OnChange fn a)" a] by (auto simp: OnChange_def split: option.splits)
next
  case (observe_update a fn)
  then show ?case using inv_cong[of "snd (OnUpdate fn a)" a] by (auto simp: OnUpdate_def split: option.splits)
next
  case (unobserve a h)
  then show ?case using inv_cong[of "unsubscribe_change h a" a] by (auto simp: unsubscribe_change_def split: option.splits)
next
  case (unobserve_update a h)
  then show ?case using inv_cong[of "unsubscribe_update h a" a] by (auto simp: unsubscribe_update_def split: option.splits)
qed (simp_all add: SetLocalState_inv SetLocalState_caps Heartbeat_inv Heartbeat_caps applyUpdate_inv applyUpdate_caps
    RemoveExpired_inv RemoveExpired_caps PurgeTombstones_inv PurgeTombstones_caps)

lemma initial_inv: "aw_inv (initial cid b c f) \<and> caps_inv (initial cid b c f)"
proof -
  have "aw_inv (initial cid b c f)"
    using New_inv[of cid] by (simp add: inv_defs initial_def SetMaxForeignClients_def SetMaxClients_def SetMaxBytes_def isLive_def isTomb_def lookup_def)
  then show ?thesis
    by (simp add: caps_inv_def initial_def SetMaxForeignClients_def SetMaxClients_def SetMaxBytes_def New_def remote_count_def lookup_def)
qed

lemma run_inv: "aw_step\<^sup>*\<^sup>* (initial cid b c f) a \<Longrightarrow> aw_inv a \<and> caps_inv a"
  by (induction rule: rtranclp_induct) (auto simp: initial_inv dest: aw_step_inv)

subsection \<open>The clock gate\<close>

lemma reclaim_frame:
  "clientID (reclaim_loop q a) = clientID a \<and> maxBytes (reclaim_loop q a) = maxBytes a \<and> maxClients (reclaim_loop q a) = maxClients a"
  by (induction q a rule: reclaim_loop.induct) auto

lemma apply_entry_frame:
  "clientID (fst (apply_entry unm opts now e (a, r))) = clientID a \<and> maxBytes (fst (apply_entry unm opts now e (a, r))) = maxBytes a \<and>
   maxClients (fst (apply_entry unm opts now e (a, r))) = maxClients a"
  by (auto simp: apply_entry_def Let_def protect_self_def store_null_def store_live_def reclaimOldestTombstone_def reclaim_frame
      split: option.splits)

lemma store_lookup:
  "lookup (fst (store_null now e (a, r))) = (lookup a)(e_client e \<mapsto> \<lparr>cs_Clock = e_clock e, cs_State = None\<rparr>)"
  "lookup (fst (store_live now e s (a, r))) = (lookup a)(e_client e \<mapsto> \<lparr>cs_Clock = e_clock e, cs_State = Some s\<rparr>)"
  by (simp_all add: store_null_def store_live_def Let_def)

lemma protect_self_lookup:
  "lookup (fst (protect_self e (a, r))) = (case lookup a (clientID a) of None \<Rightarrow> lookup a
     | Some cs \<Rightarrow> if cs_State cs = None then lookup a
         else (lookup a)(clientID a \<mapsto> \<lparr>cs_Clock = (if e_clock e \<ge> clock a then e_clock e + 1 else clock a), cs_State = cs_State cs\<rparr>))"
  by (auto simp: protect_self_def Let_def split: option.splits)

text \<open>What an entry that is neither stale nor refused does to the states.\<close>

lemma apply_entry_cases:
  assumes "\<not> at_cap a (e_client e)"
  obtains (keep) "fst (apply_entry unm opts now e (a, r)) = a"
  | (self) "\<not> stale (lookup a (e_client e)) e" "e_client e = clientID a" "isNullEntry e"
      "fst (apply_entry unm opts now e (a, r)) = fst (protect_self e (a, r))"
  | (stored) st where "\<not> stale (lookup a (e_client e)) e" "\<not> (e_client e = clientID a \<and> isNullEntry e)" "st = decode_state unm a e"
      "lookup (fst (apply_entry unm opts now e (a, r))) = (lookup a)(e_client e \<mapsto> \<lparr>cs_Clock = e_clock e, cs_State = st\<rparr>)"
proof (cases "stale (lookup a (e_client e)) e \<or> foreign_full opts a (e_client e) \<and> \<not> (e_client e = clientID a \<and> isNullEntry e)")
  case True
  then show ?thesis using assms by (intro keep) (auto simp: apply_entry_def Let_def)
next
  case False
  show ?thesis
  proof (cases "e_client e = clientID a \<and> isNullEntry e")
    case True
    then show ?thesis using False by (intro self) (auto simp: apply_entry_def Let_def)
  next
    case nself: False
    show ?thesis
    proof (cases "case Admit opts of None \<Rightarrow> False | Some admit \<Rightarrow> \<not> admit \<lparr>ae_ClientID = e_client e, WasLive = isLive a (e_client e),
          Live = (decode_state unm a e \<noteq> None)\<rparr> (isLive a)")
      case True
      then show ?thesis using False nself assms by (intro keep) (auto simp: apply_entry_def Let_def)
    next
      case ok: False
      define r' where "r' = (if decode_state unm a e = None \<and> (\<not> isLive a (e_client e) \<or> e_json e \<noteq> null_json) then r\<lparr>altered := True\<rparr> else r)"
      have "\<not> stale (lookup a (e_client e)) e" "\<not> foreign_full opts a (e_client e)" using False nself by auto
      then have "apply_entry unm opts now e (a, r) =
          (case decode_state unm a e of None \<Rightarrow> store_null now e (a, r') | Some s \<Rightarrow> store_live now e s (a, r'))"
        unfolding apply_entry_def Let_def r'_def using nself assms ok by (simp only: prod.case if_False simp_thms)
      then show ?thesis using False nself by (intro stored[of "decode_state unm a e"]) (auto simp: store_lookup split: option.splits)
    qed
  qed
qed

lemma apply_entry_clock:
  assumes "maxClients a \<le> 0" "unat (e_clock e) < 2 ^ 56" "lookup a c = Some cs"
  shows "\<exists>cs'. lookup (fst (apply_entry unm opts now e (a, r))) c = Some cs' \<and> cs_Clock cs \<le> cs_Clock cs'"
proof -
  have "\<not> at_cap a (e_client e)" using assms(1) by (simp add: at_cap_def)
  then show ?thesis
  proof (cases rule: apply_entry_cases[where unm = unm and opts = opts and now = now and r = r])
    case keep
    then show ?thesis using assms(3) by simp
  next
    case self
    have "e_clock e \<le> e_clock e + 1" using assms(2) by (simp add: word_le_nat_alt unat_add_lem[THEN iffD1])
    then show ?thesis using self assms(3) unfolding self(4) protect_self_lookup
      by (cases "c = clientID a") (auto simp: stale_def not_less split: option.splits)
  next
    case (stored st)
    then show ?thesis using assms(3) by (cases "c = e_client e") (auto simp: stale_def not_less)
  qed
qed

lemma apply_entries_clock:
  "maxClients (fst p) \<le> 0 \<Longrightarrow> \<forall>e \<in> set es. unat (e_clock e) < 2 ^ 56 \<Longrightarrow> lookup (fst p) c = Some cs \<Longrightarrow>
   \<exists>cs'. lookup (fst (apply_entries unm opts now i es p)) c = Some cs' \<and> cs_Clock cs \<le> cs_Clock cs'"
proof (induction es arbitrary: i p cs)
  case (Cons e es)
  obtain a r where p: "p = (a, r)" by (cases p)
  let ?p = "apply_entry unm opts (now i) e (a, r)"
  obtain cs1 where cs1: "lookup (fst ?p) c = Some cs1" "cs_Clock cs \<le> cs_Clock cs1"
    using apply_entry_clock[of a e c cs unm opts "now i" r] Cons.prems p by auto
  have "maxClients (fst ?p) \<le> 0" using apply_entry_frame[of unm opts "now i" e a r] Cons.prems(1) p by simp
  then obtain cs2 where "lookup (fst (apply_entries unm opts now (Suc i) es ?p)) c = Some cs2" "cs_Clock cs1 \<le> cs_Clock cs2"
    using Cons.IH[OF _ _ cs1(1)] Cons.prems(2) by auto
  then show ?case using cs1(2) p by auto
qed simp

lemma read_entries_bound: "read_entries n d = Inr es \<Longrightarrow> \<forall>e \<in> set es. unat (e_clock e) < 2 ^ 56"
proof (induction n d arbitrary: es rule: read_entries.induct)
  case (2 n d)
  have b: "unat v < 72057594037927936" if "ReadVarUint x = (Inr v, y)" for x v y
    using ReadVarUint_bound[OF that] by simp
  show ?case using 2 by (auto split: prod.splits sum.splits if_splits) (rule b)
qed simp

lemma decode_update_bound: "decode_update u = Inr es \<Longrightarrow> \<forall>e \<in> set es. unat (e_clock e) < 2 ^ 56"
  by (auto simp: decode_update_def split: prod.splits sum.splits if_splits dest: read_entries_bound)

subsection \<open>Round trip\<close>

definition wire_of :: "(gomap \<Rightarrow> byte list option) \<Rightarrow> Awareness \<Rightarrow> u64 \<Rightarrow> aw_entry" where
  "wire_of marshal a c = (case lookup a c of
     None \<Rightarrow> \<lparr>e_client = c, e_clock = 0, e_json = null_json\<rparr>
   | Some cs \<Rightarrow> \<lparr>e_client = c, e_clock = cs_Clock cs, e_json = wire_state marshal cs\<rparr>)"

definition entry_bytes :: "aw_entry \<Rightarrow> byte list" where
  "entry_bytes e = WriteVarUint [] (e_client e) @ WriteVarUint [] (e_clock e) @ WriteVarBytes [] (e_json e)"

definition wire_ok :: "aw_entry \<Rightarrow> bool" where
  "wire_ok e \<longleftrightarrow> unat (e_client e) < 2 ^ 56 \<and> unat (e_clock e) < 2 ^ 56 \<and> length (e_json e) \<le> maxAwarenessStateBytes"

lemma null_utf8: "valid_utf8 null_json"
  by (simp add: null_json_def valid_utf8.simps utf8_eval)

lemma wire_entry_bytes: "wire_entry marshal a c e = Inr (e @ entry_bytes (wire_of marshal a c))"
proof -
  have "WriteVarBytes (WriteVarUint (WriteVarUint e c) k) b = e @ WriteVarUint [] c @ WriteVarUint [] k @ WriteVarBytes [] b" for k b
    using varbytes.wr_append[of "WriteVarUint (WriteVarUint e c) k" b] varuint.wr_append[of "WriteVarUint e c" k] varuint.wr_append[of e c]
    by simp
  moreover have "valid_utf8 (wire_state marshal cs)" for cs by (simp add: wire_state_def null_utf8 split: option.splits)
  ultimately show ?thesis
    by (simp add: wire_entry_def wire_of_def entry_bytes_def WriteVarString_bytes null_utf8 split: option.splits)
qed

lemma write_entries: "write_seq (wire_entry marshal a) cs e = Inr (e @ concat (map (entry_bytes \<circ> wire_of marshal a) cs))"
  by (induction cs arbitrary: e) (simp_all add: wire_entry_bytes)

lemma read_entries_bytes:
  "\<forall>e \<in> set es. wire_ok e \<Longrightarrow>
   read_entries (length es) \<lparr>buf = pre @ concat (map entry_bytes es) @ post, pos = length pre\<rparr> = Inr es"
proof (induction es arbitrary: pre)
  case (Cons e es)
  define rest where "rest = concat (map entry_bytes es) @ post"
  have w: "unat (e_client e) < 2 ^ 56" "unat (e_clock e) < 2 ^ 56" "length (e_json e) < 2 ^ 56" "length (e_json e) \<le> maxAwarenessStateBytes"
    using Cons.prems by (auto simp: wire_ok_def)
  let ?b = "\<lambda>p. \<lparr>buf = pre @ entry_bytes e @ rest, pos = length pre + p\<rparr>"
  have 1: "ReadVarUint (?b 0) = (Inr (e_client e), ?b (length (WriteVarUint [] (e_client e))))"
    using readsD[OF varuint.roundtrip[OF w(1)], of pre "WriteVarUint [] (e_clock e) @ WriteVarBytes [] (e_json e) @ rest"]
    by (simp add: entry_bytes_def)
  have 2: "ReadVarUint (?b (length (WriteVarUint [] (e_client e)))) =
      (Inr (e_clock e), ?b (length (WriteVarUint [] (e_client e)) + length (WriteVarUint [] (e_clock e))))"
    using readsD[OF varuint.roundtrip[OF w(2)], of "pre @ WriteVarUint [] (e_client e)" "WriteVarBytes [] (e_json e) @ rest"]
    by (simp add: entry_bytes_def add.assoc)
  have 3: "ReadVarBytes (?b (length (WriteVarUint [] (e_client e)) + length (WriteVarUint [] (e_clock e)))) =
      (Inr (e_json e), ?b (length (entry_bytes e)))"
    using readsD[OF varbytes.roundtrip[OF w(3)], of "pre @ WriteVarUint [] (e_client e) @ WriteVarUint [] (e_clock e)" rest]
    by (simp add: entry_bytes_def add.assoc)
  have "read_entries (length es) (?b (length (entry_bytes e))) = Inr es"
    using Cons.IH[of "pre @ entry_bytes e"] Cons.prems by (simp add: rest_def)
  then show ?case using 1 2 3 w(4) by (simp add: rest_def)
qed simp

lemma encode_decode:
  assumes "\<forall>c \<in> set cs. wire_ok (wire_of marshal a c)" "length cs \<le> 100000"
  shows "\<exists>bs. EncodeUpdate marshal (Some cs) a = Inr bs \<and> decode_update bs = Inr (map (wire_of marshal a) cs)"
proof -
  let ?n = "of_nat (length cs) :: u64"
  have n: "unat ?n = length cs" using assms(2) by (simp add: unat_of_nat)
  then have n2: "unat ?n < 2 ^ 56" "\<not> ?n > maxAwarenessClients" using assms(2) by (simp_all add: word_less_nat_alt)
  define bs where "bs = WriteVarUint [] ?n @ concat (map entry_bytes (map (wire_of marshal a) cs))"
  have "EncodeUpdate marshal (Some cs) a = Inr bs" by (simp add: EncodeUpdate_def write_entries bs_def)
  moreover have "ReadVarUint (NewDecoder bs) = (Inr ?n, \<lparr>buf = bs, pos = length (WriteVarUint [] ?n)\<rparr>)"
    using varuint.read_back[OF n2(1)] by (simp add: bs_def)
  then have "decode_update bs = read_entries (length (map (wire_of marshal a) cs)) \<lparr>buf = bs, pos = length (WriteVarUint [] ?n)\<rparr>"
    using n n2(2) by (simp add: decode_update_def)
  then have "decode_update bs = Inr (map (wire_of marshal a) cs)"
    using read_entries_bytes[of "map (wire_of marshal a) cs" "WriteVarUint [] ?n" "[]"] assms(1) by (simp add: bs_def)
  ultimately show ?thesis by blast
qed

text \<open>Limits that leave room for so many more clients and so many more bytes.\<close>

definition spare_clients :: "Awareness \<Rightarrow> nat \<Rightarrow> bool" where
  "spare_clients a n \<longleftrightarrow> maxClients a \<le> 0 \<or> int (remote_count a) + int n \<le> maxClients a"

definition spare_bytes :: "Awareness \<Rightarrow> nat \<Rightarrow> bool" where
  "spare_bytes a n \<longleftrightarrow> maxBytes a \<le> 0 \<or> activeBytes a + int n \<le> maxBytes a"

abbreviation plain :: "ApplyOptions \<Rightarrow> bool" where
  "plain opts \<equiv> \<not> Foreign opts \<and> Admit opts = None"

lemma length_map_put: "length (map_put k v m) = (if map_of m k = None then Suc (length m) else length m)"
  by (induction k v m rule: map_put.induct) auto

lemma spare_not_cap: "spare_clients a (Suc n) \<Longrightarrow> \<not> at_cap a c"
  by (auto simp: spare_clients_def at_cap_def)

lemma store_states:
  "states (fst (store_null now e (a, r))) = map_put (e_client e) \<lparr>cs_Clock = e_clock e, cs_State = None\<rparr> (states a)"
  "states (fst (store_live now e s (a, r))) = map_put (e_client e) \<lparr>cs_Clock = e_clock e, cs_State = Some s\<rparr> (states a)"
  "activeBytes (fst (store_null now e (a, r))) \<le> activeBytes a"
  "activeBytes (fst (store_live now e s (a, r))) \<le> activeBytes a + int (length (e_json e))"
  by (simp_all add: store_null_def store_live_def Let_def)

text \<open>An entry for another client, under the client limit, is stale or stored.\<close>

lemma apply_entry_plain:
  assumes "plain opts" "spare_clients a (Suc n)" "e_client e \<noteq> clientID a"
  shows "if stale (lookup a (e_client e)) e then fst (apply_entry unm opts now e (a, r)) = a
    else lookup (fst (apply_entry unm opts now e (a, r))) =
      (lookup a)(e_client e \<mapsto> \<lparr>cs_Clock = e_clock e, cs_State = decode_state unm a e\<rparr>)"
  using assms(1,3) spare_not_cap[OF assms(2), of "e_client e"]
  by (auto simp: apply_entry_def Let_def foreign_full_def store_lookup split: option.splits)

lemma apply_entry_spare:
  assumes "plain opts" "spare_clients a (Suc n)" "e_client e \<noteq> clientID a"
  shows "spare_clients (fst (apply_entry unm opts now e (a, r))) n"
    "spare_bytes a (length (e_json e) + m) \<Longrightarrow> spare_bytes (fst (apply_entry unm opts now e (a, r))) m"
proof -
  let ?a = "fst (apply_entry unm opts now e (a, r))"
  note fr = apply_entry_frame[of unm opts now e a r]
  have s: "?a = a \<or> (\<exists>x. states ?a = map_put (e_client e) x (states a)) \<and> activeBytes ?a \<le> activeBytes a + int (length (e_json e))"
    using assms(1,3) spare_not_cap[OF assms(2), of "e_client e"]
    by (auto simp: apply_entry_def Let_def foreign_full_def store_states(1,2) split: option.splits
        intro: order_trans[OF store_states(3)] store_states(4) order_trans[OF store_states(4)])
  then have "remote_count ?a \<le> remote_count a + 1"
    using fr assms(3) by (auto simp: remote_count_def lookup_def length_map_put split: if_splits)
  then show "spare_clients ?a n" using assms(2) fr by (auto simp: spare_clients_def)
  show "spare_bytes ?a m" if "spare_bytes a (length (e_json e) + m)" using s that fr by (auto simp: spare_bytes_def)
qed

text \<open>A peer with room that has none of the clients learns every entry.\<close>

lemma decode_spare: "spare_bytes a (length (e_json e) + m) \<Longrightarrow> decode_state unm a e = decode_state unm (New 0) e"
  by (auto simp: decode_state_def spare_bytes_def New_def split: option.splits)

lemma apply_fresh:
  assumes "distinct (map e_client es)" "\<forall>e \<in> set es. lookup (fst p) (e_client e) = None \<and> e_client e \<noteq> clientID (fst p)"
    "spare_clients (fst p) (length es)" "spare_bytes (fst p) (\<Sum>e\<leftarrow>es. length (e_json e))" "plain opts"
  shows "lookup (fst (apply_entries unm opts now i es p)) =
    (\<lambda>c. case map_of (map (\<lambda>e. (e_client e, \<lparr>cs_Clock = e_clock e, cs_State = decode_state unm (New 0) e\<rparr>)) es) c of
       None \<Rightarrow> lookup (fst p) c | Some cs \<Rightarrow> Some cs)"
  using assms
proof (induction es arbitrary: i p)
  case (Cons e es)
  obtain a r where p: "p = (a, r)" by (cases p)
  have a: "lookup a (e_client e) = None" "e_client e \<noteq> clientID a" "spare_clients a (Suc (length es))"
      "spare_bytes a (length (e_json e) + (\<Sum>e\<leftarrow>es. length (e_json e)))" using Cons.prems p by auto
  let ?p = "apply_entry unm opts (now i) e (a, r)"
  have l: "lookup (fst ?p) = (lookup a)(e_client e \<mapsto> \<lparr>cs_Clock = e_clock e, cs_State = decode_state unm (New 0) e\<rparr>)"
    using apply_entry_plain[OF Cons.prems(5) a(3,2), of unm "now i" r] a(1) unfolding decode_spare[OF a(4)] by (simp add: stale_def)
  note fr = apply_entry_frame[of unm opts "now i" e a r] and sp = apply_entry_spare[OF Cons.prems(5) a(3,2)]
  have ne: "\<forall>x \<in> set es. e_client x \<noteq> e_client e" using Cons.prems(1) by (metis distinct.simps(2) image_eqI list.set_map list.simps(9))
  have "lookup (fst (apply_entries unm opts now (Suc i) es ?p)) =
    (\<lambda>c. case map_of (map (\<lambda>e. (e_client e, \<lparr>cs_Clock = e_clock e, cs_State = decode_state unm (New 0) e\<rparr>)) es) c of
       None \<Rightarrow> lookup (fst ?p) c | Some cs \<Rightarrow> Some cs)"
    using Cons.prems(1,2,5) fr l p ne sp(1) sp(2)[OF a(4)] by (intro Cons.IH) auto
  moreover have "map_of (map (\<lambda>e. (e_client e, \<lparr>cs_Clock = e_clock e, cs_State = decode_state unm (New 0) e\<rparr>)) es) (e_client e) = None"
    using Cons.prems(1) by (simp add: map_of_eq_None_iff image_image)
  ultimately show ?case unfolding p l by (auto simp: fun_eq_iff split: option.splits)
qed simp

subsection \<open>Repeated delivery\<close>

lemma stale_stored: "stale (Some \<lparr>cs_Clock = e_clock e, cs_State = decode_state unm a e\<rparr>) e"
  by (simp add: stale_def decode_state_def)

lemma stale_mono: "stale cs e \<Longrightarrow> \<not> stale cs e' \<Longrightarrow> stale (Some \<lparr>cs_Clock = e_clock e', cs_State = decode_state unm a e'\<rparr>) e"
  by (auto simp: stale_def decode_state_def not_less split: option.splits)

lemma apply_entries_stale:
  "plain opts \<Longrightarrow> spare_clients (fst p) (length es) \<Longrightarrow> \<forall>e \<in> set es. e_client e \<noteq> clientID (fst p) \<Longrightarrow>
   let a' = fst (apply_entries unm opts now i es p) in clientID a' = clientID (fst p) \<and>
   (\<forall>e \<in> set es. stale (lookup a' (e_client e)) e) \<and> (\<forall>e. stale (lookup (fst p) (e_client e)) e \<longrightarrow> stale (lookup a' (e_client e)) e)"
proof (induction es arbitrary: i p)
  case (Cons e es)
  obtain a r where p: "p = (a, r)" by (cases p)
  let ?p = "apply_entry unm opts (now i) e (a, r)"
  note fr = apply_entry_frame[of unm opts "now i" e a r]
  have sp: "spare_clients a (Suc (length es))" "plain opts" "e_client e \<noteq> clientID a" using Cons.prems p by auto
  note st = apply_entry_plain[OF sp(2,1,3), of unm "now i" r] and sp' = apply_entry_spare(1)[OF sp(2,1,3), of unm "now i" r]
  have keep: "stale (lookup (fst ?p) (e_client x)) x" if "stale (lookup a (e_client x)) x" for x
    using st that stale_mono[of "lookup a (e_client e)" x e] Cons.prems p by (auto split: if_splits)
  moreover have "stale (lookup (fst ?p) (e_client e)) e"
    using st Cons.prems p stale_stored by (auto split: if_splits)
  ultimately show ?case using Cons.IH[of ?p "Suc i"] Cons.prems fr p sp' by (simp add: Let_def)
qed (simp add: Let_def)

lemma apply_entries_noop:
  "\<forall>e \<in> set es. stale (lookup (fst p) (e_client e)) e \<Longrightarrow> fst (apply_entries unm opts now i es p) = fst p"
proof (induction es arbitrary: i p)
  case (Cons e es)
  then have "fst (apply_entry unm opts (now i) e p) = fst p" by (cases p) (simp add: apply_entry_def Let_def)
  then show ?case using Cons by simp
qed simp

lemma applyUpdate_state:
  "snd (snd (applyUpdate unm opts now u a)) =
   (case decode_update u of Inl _ \<Rightarrow> a | Inr es \<Rightarrow> fst (apply_entries unm opts now 0 es (a, empty_tally)))"
  by (simp add: applyUpdate_def split: sum.splits prod.splits)

lemma expire_limits:
  "clientID (fold (expire_one now) cs a) = clientID a" "maxBytes (fold (expire_one now) cs a) = maxBytes a"
  "maxClients (fold (expire_one now) cs a) = maxClients a"
  by (induction cs arbitrary: a) (simp_all add: expire_one_fields)

lemma run_limits: "aw_step\<^sup>*\<^sup>* a a' \<Longrightarrow> clientID a' = clientID a \<and> maxBytes a' = maxBytes a \<and> maxClients a' = maxClients a"
proof (induction rule: rtranclp_induct)
  case (step a1 a2)
  have es: "clientID (fst (apply_entries unm opts now i es p)) = clientID (fst p) \<and> maxBytes (fst (apply_entries unm opts now i es p)) = maxBytes (fst p) \<and>
      maxClients (fst (apply_entries unm opts now i es p)) = maxClients (fst p)" for unm opts now i es p
  proof (induction es arbitrary: i p)
    case (Cons e es)
    then show ?case using apply_entry_frame[of unm opts "now i" e "fst p" "snd p"] by simp
  qed simp
  from step(2) have "clientID a2 = clientID a1 \<and> maxBytes a2 = maxBytes a1 \<and> maxClients a2 = maxClients a1"
    by (cases rule: aw_step.cases) (auto simp: applyUpdate_state es SetLocalState_def Heartbeat_def RemoveExpired_def expire_limits
        PurgeTombstones_def forget_all_fields OnChange_def OnUpdate_def unsubscribe_change_def unsubscribe_update_def Let_def
        split: option.splits sum.splits)
  then show ?case using step by simp
qed simp

subsection \<open>Properties\<close>

lemma one_step: "aw_step a b \<Longrightarrow> aw_step\<^sup>*\<^sup>* a b"
  by (rule r_into_rtranclp)

lemma ApplyUpdate_state:
  assumes "decode_update u = Inr es"
  shows "fst (ApplyUpdate unm now u a) = None"
    "snd (snd (ApplyUpdate unm now u a)) = fst (apply_entries unm \<lparr>Foreign = False, Admit = None\<rparr> now 0 es (a, empty_tally))"
  using assms by (cases "apply_entries unm \<lparr>Foreign = False, Admit = None\<rparr> now 0 es (a, empty_tally)",
      simp add: ApplyUpdate_def applyUpdate_def)+

definition json_ok :: "(gomap \<Rightarrow> byte list option) \<Rightarrow> (byte list \<Rightarrow> gomap option) \<Rightarrow> gomap \<Rightarrow> bool" where
  "json_ok marshal unm st = (case marshal st of None \<Rightarrow> False
     | Some b \<Rightarrow> valid_utf8 b \<and> b \<noteq> [] \<and> b \<noteq> null_json \<and> checkJSONDepth b \<and> length b \<le> maxAwarenessStateBytes \<and>
         unm b = Some st \<and> length st \<le> maxStateKeys)"

definition sendable :: "(gomap \<Rightarrow> byte list option) \<Rightarrow> (byte list \<Rightarrow> gomap option) \<Rightarrow> Awareness \<Rightarrow> u64 \<Rightarrow> bool" where
  "sendable marshal unm a c \<longleftrightarrow> unat c < 2 ^ 56 \<and> (case lookup a c of None \<Rightarrow> False
     | Some cs \<Rightarrow> unat (cs_Clock cs) < 2 ^ 56 \<and> (case cs_State cs of None \<Rightarrow> True | Some st \<Rightarrow> json_ok marshal unm st))"

lemma sendable_wire:
  assumes "sendable marshal unm a c"
  shows "wire_ok (wire_of marshal a c)" "e_client (wire_of marshal a c) = c"
    "Some \<lparr>cs_Clock = e_clock (wire_of marshal a c), cs_State = decode_state unm (New 0) (wire_of marshal a c)\<rparr> = lookup a c"
  using assms
  by (auto simp: sendable_def wire_ok_def wire_of_def wire_state_def json_ok_def decode_state_def isNullEntry_def null_json_def New_def
      split: option.splits)

lemma map_of_graph: "map_of (map (\<lambda>c. (c, f c)) cs) = (\<lambda>c. if c \<in> set cs then Some (f c) else None)"
  by (induction cs) auto

definition brackets :: "byte list" where
  "brackets = [0x7B, 0x7D]"

definition peer_state :: Awareness where
  "peer_state = snd (SetLocalState 0 (Some []) (New 1))"

lemma peer_state_lookup: "lookup peer_state c = (if c = 1 then Some \<lparr>cs_Clock = 1, cs_State = Some []\<rparr> else None)"
  by (simp add: peer_state_def SetLocalState_def New_def Let_def lookup_def put_state_def bump_def)

lemma peer_state_sendable: "sendable (\<lambda>_. Some brackets) (\<lambda>_. Some []) peer_state 1"
  by (simp add: sendable_def peer_state_lookup json_ok_def brackets_def null_json_def checkJSONDepth_def valid_utf8.simps utf8_eval)

text \<open>
  C7: in every run of local calls, remote updates with arbitrary bytes, expiry and purging, exactly the
  live clients have an expiry time, exactly the remote tombstones have a removal time and a place in the
  reclaim queue, and the byte count is the sum of what is recorded for the clients.
\<close>

theorem awareness_invariant: "aw_step\<^sup>*\<^sup>* (initial cid b c f) a \<Longrightarrow> aw_inv a"
  using run_inv by blast

theorem awareness_invariant_witness:
  "let a1 = snd (SetLocalState 0 (Some []) (initial 1 0 0 0));
       a2 = snd (snd (applyUpdate (\<lambda>_. Some []) \<lparr>Foreign = False, Admit = None\<rparr> (\<lambda>_. 0) [1, 2, 1, 2, 0x7B, 0x7D] a1));
       a3 = snd (RemoveExpired 5 1 a2)
   in isLive a1 1 \<and> map fst (meta a1) = [1] \<and> aw_inv a3"
proof -
  let ?a1 = "snd (SetLocalState 0 (Some []) (initial 1 0 0 0))"
  let ?a2 = "snd (snd (applyUpdate (\<lambda>_. Some []) \<lparr>Foreign = False, Admit = None\<rparr> (\<lambda>_. 0) [1, 2, 1, 2, 0x7B, 0x7D] ?a1))"
  have "aw_step\<^sup>*\<^sup>* (initial 1 0 0 0) (snd (RemoveExpired 5 1 ?a2))"
    by (rule rtranclp.rtrancl_into_rtrancl[OF rtranclp.rtrancl_into_rtrancl[OF one_step[OF set_local] remote] expire])
  then have "aw_inv (snd (RemoveExpired 5 1 ?a2))" by (rule awareness_invariant)
  moreover have "isLive ?a1 1" "map fst (meta ?a1) = [1]"
    by (simp_all add: SetLocalState_def initial_def SetMaxForeignClients_def SetMaxClients_def SetMaxBytes_def New_def isLive_def lookup_def
        put_state_def Let_def)
  ultimately show ?thesis unfolding Let_def by blast
qed

text \<open>
  C8: the limits hold in every run: with a positive byte limit the recorded states never exceed it, and
  with a positive client limit no more than that many remote clients are kept, live or removed.
\<close>

theorem awareness_bounds:
  assumes "aw_step\<^sup>*\<^sup>* (initial cid b c f) a"
  shows "(b \<le> 0 \<or> map_sum (wireBytes a) \<le> b) \<and> (c \<le> 0 \<or> int (card (keys (states a) - {cid})) \<le> c)"
proof -
  have "clientID a = cid" "maxBytes a = b" "maxClients a = c"
    using run_limits[OF assms] by (simp_all add: initial_def SetMaxForeignClients_def SetMaxClients_def SetMaxBytes_def New_def)
  then show ?thesis using run_inv[OF assms] remote_count_card[of a] by (auto simp: aw_inv_def caps_inv_def bytes_inv_def)
qed

theorem awareness_bounds_witness:
  "map_sum (wireBytes (snd (snd (applyUpdate (\<lambda>_. Some []) \<lparr>Foreign = True, Admit = None\<rparr> (\<lambda>_. 0) [1, 2, 1, 2, 0x7B, 0x7D] (initial 1 1 2 3))))) \<le> 1"
  using awareness_bounds[OF one_step, OF remote, where b = 1 and cid = 1 and c = 2 and f = 3] by (metis not_one_le_zero)

text \<open>
  C20: without a client limit, applying an update, whatever its bytes, never forgets a client and
  never lowers a clock.
\<close>

theorem awareness_clock_monotone:
  assumes "maxClients a \<le> 0" "lookup a c = Some cs"
  shows "\<exists>cs'. lookup (snd (snd (applyUpdate unm opts now u a))) c = Some cs' \<and> cs_Clock cs \<le> cs_Clock cs'"
  using apply_entries_clock[of "(a, empty_tally)"] decode_update_bound assms
  by (auto simp: applyUpdate_state split: sum.splits)

theorem awareness_clock_monotone_witness:
  "\<exists>cs'. lookup (snd (snd (applyUpdate (\<lambda>_. None) \<lparr>Foreign = True, Admit = None\<rparr> (\<lambda>_. 0) [1, 1, 9, 0] peer_state))) 1 = Some cs' \<and> 1 \<le> cs_Clock cs'"
  using awareness_clock_monotone[of peer_state 1 "\<lparr>cs_Clock = 1, cs_State = Some []\<rparr>"]
  by (simp add: peer_state_lookup) (simp add: peer_state_def SetLocalState_def New_def Let_def)

text \<open>
  C19: an update that decodes and names only other clients may be delivered twice: if the client limit, when there is one,
  leaves room for as many new clients as the update has entries, then a second application, at any later time, leaves the
  tracker exactly as the first did.
\<close>

theorem awareness_update_idempotent:
  assumes "spare_clients a (length es)" "decode_update u = Inr es" "clientID a \<notin> e_client ` set es"
  shows "let a' = snd (snd (ApplyUpdate unm now u a)) in snd (snd (ApplyUpdate unm now' u a')) = a'"
proof -
  let ?o = "\<lparr>Foreign = False, Admit = None\<rparr>"
  note p = ApplyUpdate_state(2)[OF assms(2)]
  have "\<forall>e \<in> set es. stale (lookup (fst (apply_entries unm ?o now 0 es (a, empty_tally))) (e_client e)) e"
    using apply_entries_stale[of ?o "(a, empty_tally)" es unm now 0] assms(1,3) by (force simp: Let_def)
  then show ?thesis unfolding p Let_def by (subst apply_entries_noop) auto
qed

text \<open>A peer that may keep one remote client and two bytes of state.\<close>

lemma small_peer:
  "clientID (initial 2 2 1 0) = 2" "lookup (initial 2 2 1 0) c = None" "spare_clients (initial 2 2 1 0) 1" "spare_bytes (initial 2 2 1 0) 2"
  by (simp_all add: initial_def New_def SetMaxForeignClients_def SetMaxClients_def SetMaxBytes_def lookup_def spare_clients_def spare_bytes_def
      remote_count_def)

theorem awareness_update_idempotent_witness:
  "\<exists>bs. EncodeUpdate (\<lambda>_. Some brackets) (Some [1]) peer_state = Inr bs \<and>
     (let a' = snd (snd (ApplyUpdate (\<lambda>_. Some []) (\<lambda>_. 0) bs (initial 2 2 1 0)))
      in snd (snd (ApplyUpdate (\<lambda>_. Some []) (\<lambda>_. 8) bs a')) = a')"
proof -
  note w = sendable_wire(1,2)[OF peer_state_sendable]
  have "\<exists>bs. EncodeUpdate (\<lambda>_. Some brackets) (Some [1]) peer_state = Inr bs \<and>
      decode_update bs = Inr (map (wire_of (\<lambda>_. Some brackets) peer_state) [1])"
    by (rule encode_decode) (simp_all add: w)
  then obtain bs where bs: "EncodeUpdate (\<lambda>_. Some brackets) (Some [1]) peer_state = Inr bs"
    "decode_update bs = Inr (map (wire_of (\<lambda>_. Some brackets) peer_state) [1])" by (elim exE conjE)
  have "clientID (initial 2 2 1 0) \<notin> e_client ` set (map (wire_of (\<lambda>_. Some brackets) peer_state) [1])"
    "spare_clients (initial 2 2 1 0) (length (map (wire_of (\<lambda>_. Some brackets) peer_state) [1]))"
    using small_peer(1,3) by (simp_all add: w)
  then have "let a' = snd (snd (ApplyUpdate (\<lambda>_. Some []) (\<lambda>_. 0) bs (initial 2 2 1 0)))
      in snd (snd (ApplyUpdate (\<lambda>_. Some []) (\<lambda>_. 8) bs a')) = a'"
    using bs(2) by (intro awareness_update_idempotent)
  with bs(1) show ?thesis by (intro exI conjI)
qed

text \<open>
  C9: a peer that knows none of the given clients learns exactly their clocks and states from the encoded update,
  and nothing else changes for it.  Its limits on clients and on bytes, when it has any, leave room for them; the clients
  are at most 100000, known to the sender and different from the peer; identifiers and clocks are below 2^56, and
  the JSON codec gives each live state back from a text within the limits on size, depth and keys.
\<close>

theorem awareness_fresh_peer_learns:
  assumes "distinct cs" "length cs \<le> 100000" "\<forall>c \<in> set cs. sendable marshal unm a c"
    "\<forall>c \<in> set cs. lookup p c = None" "clientID p \<notin> set cs"
    "spare_clients p (length cs)" "spare_bytes p (\<Sum>c\<leftarrow>cs. length (e_json (wire_of marshal a c)))"
  shows "\<exists>bs. EncodeUpdate marshal (Some cs) a = Inr bs \<and> fst (ApplyUpdate unm now bs p) = None \<and>
    lookup (snd (snd (ApplyUpdate unm now bs p))) = (\<lambda>c. if c \<in> set cs then lookup a c else lookup p c)"
proof -
  let ?o = "\<lparr>Foreign = False, Admit = None\<rparr>" and ?w = "wire_of marshal a"
  note w = sendable_wire[where marshal = marshal and unm = unm and a = a]
  obtain bs where bs: "EncodeUpdate marshal (Some cs) a = Inr bs" "decode_update bs = Inr (map ?w cs)"
    using encode_decode[of cs marshal a] assms(2,3) w(1) by blast
  have cl: "map (\<lambda>x. e_client (?w x)) cs = cs" using assms(3) w(2) by (simp add: map_idI)
  have e: "fst (ApplyUpdate unm now bs p) = None"
    "snd (snd (ApplyUpdate unm now bs p)) = fst (apply_entries unm ?o now 0 (map ?w cs) (p, empty_tally))"
    using ApplyUpdate_state[OF bs(2)] by simp_all
  let ?f = "\<lambda>c. \<lparr>cs_Clock = e_clock (?w c), cs_State = decode_state unm (New 0) (?w c)\<rparr>"
  have m: "map_of (map (\<lambda>e. (e_client e, \<lparr>cs_Clock = e_clock e, cs_State = decode_state unm (New 0) e\<rparr>)) (map ?w cs)) =
      (\<lambda>c. if c \<in> set cs then Some (?f c) else None)"
    using assms(3) w(2) unfolding map_of_graph[symmetric] by (intro arg_cong[where f = map_of]) simp
  have "lookup (fst (apply_entries unm ?o now 0 (map ?w cs) (p, empty_tally))) = (\<lambda>c. if c \<in> set cs then lookup a c else lookup p c)"
    by (subst apply_fresh, unfold m) (use assms w in \<open>auto simp: cl fun_eq_iff comp_def split: option.splits\<close>)
  then show ?thesis using bs(1) e by simp
qed

theorem awareness_fresh_peer_learns_witness:
  "\<exists>bs. EncodeUpdate (\<lambda>_. Some brackets) (Some [1]) peer_state = Inr bs \<and>
    lookup (snd (snd (ApplyUpdate (\<lambda>_. Some []) (\<lambda>_. 7) bs (initial 2 2 1 0)))) 1 = Some \<lparr>cs_Clock = 1, cs_State = Some []\<rparr>"
proof -
  let ?p = "initial 2 2 1 0"
  have j: "length (e_json (wire_of (\<lambda>_. Some brackets) peer_state 1)) = 2"
    by (simp add: wire_of_def wire_state_def peer_state_lookup brackets_def valid_utf8.simps utf8_eval)
  have "\<exists>bs. EncodeUpdate (\<lambda>_. Some brackets) (Some [1]) peer_state = Inr bs \<and> fst (ApplyUpdate (\<lambda>_. Some []) (\<lambda>_. 7) bs ?p) = None \<and>
    lookup (snd (snd (ApplyUpdate (\<lambda>_. Some []) (\<lambda>_. 7) bs ?p))) = (\<lambda>c. if c \<in> set [1] then lookup peer_state c else lookup ?p c)"
    by (rule awareness_fresh_peer_learns) (use peer_state_sendable small_peer in \<open>simp_all add: j\<close>)
  then obtain bs where bs: "EncodeUpdate (\<lambda>_. Some brackets) (Some [1]) peer_state = Inr bs"
    "lookup (snd (snd (ApplyUpdate (\<lambda>_. Some []) (\<lambda>_. 7) bs ?p))) = (\<lambda>c. if c \<in> set [1] then lookup peer_state c else lookup ?p c)"
    by (elim exE conjE)
  have "lookup (snd (snd (ApplyUpdate (\<lambda>_. Some []) (\<lambda>_. 7) bs ?p))) 1 = Some \<lparr>cs_Clock = 1, cs_State = Some []\<rparr>"
    unfolding bs(2) by (simp add: peer_state_lookup)
  with bs(1) show ?thesis by (intro exI conjI)
qed

end
