(* ===== verification/Content.thy ===== *)
theory Content
  imports Any_Codec Id_Range
begin

text \<open>
  The payloads of items: \<^verbatim>\<open>src/crdt/content.go\<close>.  Nested types and subdocuments are references, given as
  addresses into the heaps of the document state.  A length is a Go \<open>int\<close>; the length of a text is counted in
  UTF-16 units and cached beside it.  \<open>Splice\<close> returns both halves, where the source overwrites the receiver with the
  left one.
\<close>

type_synonym iaddr = nat
type_synonym taddr = nat
type_synonym daddr = nat

datatype content =
    ContentDeleted int
  | ContentString gostring int
  | ContentBinary "byte list"
  | ContentAny "goany list"
  | ContentJSON "goany list"
  | ContentEmbed goany
  | ContentFormat gostring goany
  | ContentType "taddr option"
  | ContentDoc "daddr option"
  | ContentMove "ID option" int
  | contentSkip int

datatype fault = NotSplittable | SliceBounds | NilDereference | SubdocAlreadyIntegrated | NoReturn

definition NewContentString :: "gostring \<Rightarrow> content" where
  "NewContentString s = ContentString s (int (utf16Len s))"

definition normalizeAnyScalar :: "goany \<Rightarrow> goany" where
  "normalizeAnyScalar v = (case v of AInt n \<Rightarrow> AInt64 n | _ \<Rightarrow> v)"

definition NewContentAny :: "goany list \<Rightarrow> content" where
  "NewContentAny vals = ContentAny (map normalizeAnyScalar vals)"

fun ContentLen :: "content \<Rightarrow> int" where
  "ContentLen (ContentDeleted n) = n"
| "ContentLen (ContentString s n) = n"
| "ContentLen (ContentAny vs) = int (length vs)"
| "ContentLen (ContentJSON vs) = int (length vs)"
| "ContentLen (contentSkip n) = n"
| "ContentLen _ = 1"

fun IsCountable :: "content \<Rightarrow> bool" where
  "IsCountable (ContentDeleted _) = False"
| "IsCountable (ContentFormat _ _) = False"
| "IsCountable (ContentMove _ _) = False"
| "IsCountable (contentSkip _) = False"
| "IsCountable _ = True"

fun Splice :: "nat \<Rightarrow> content \<Rightarrow> fault + (content \<times> content)" where
  "Splice offset (ContentDeleted n) = Inr (ContentDeleted (int offset), ContentDeleted (n - int offset))"
| "Splice offset (ContentString s n) =
     (let (left, right) = splitUTF16 s offset
      in Inr (ContentString left (int offset), ContentString right (n - int offset)))"
| "Splice offset (ContentAny vs) =
     (if offset > length vs then Inl SliceBounds else Inr (ContentAny (take offset vs), ContentAny (drop offset vs)))"
| "Splice offset (ContentJSON vs) =
     (if offset > length vs then Inl SliceBounds else Inr (ContentJSON (take offset vs), ContentJSON (drop offset vs)))"
| "Splice offset _ = Inl NotSplittable"

definition plainVals :: "content \<Rightarrow> goany list option" where
  "plainVals c = (case c of ContentAny vs \<Rightarrow> Some vs | ContentJSON vs \<Rightarrow> Some vs | _ \<Rightarrow> None)"

definition lastPlainVal :: "content \<Rightarrow> goany option" where
  "lastPlainVal c = (case plainVals c of None \<Rightarrow> None | Some vs \<Rightarrow> if vs = [] then None else Some (last vs))"

text \<open>The in-place extension of the left content in \<open>tryMergeWithLeft\<close>; \<open>None\<close> when the kinds do not match.\<close>

fun mergeContent :: "content \<Rightarrow> content \<Rightarrow> content option" where
  "mergeContent (ContentString s n) (ContentString t m) = Some (ContentString (s @ t) (n + m))"
| "mergeContent (ContentAny vs) (ContentAny ws) = Some (ContentAny (vs @ ws))"
| "mergeContent (ContentJSON vs) (ContentJSON ws) = Some (ContentJSON (vs @ ws))"
| "mergeContent (ContentDeleted n) (ContentDeleted m) = Some (ContentDeleted (n + m))"
| "mergeContent _ _ = None"

subsection \<open>Subdocuments\<close>

record subdoc =
  guid :: gostring
  gc :: bool
  autoLoad :: bool
  shouldLoad :: bool
  collectionID :: gostring
  d_item :: "iaddr option"

abbreviation key_gc :: gostring where "key_gc \<equiv> [0x67, 0x63]"
abbreviation key_autoLoad :: gostring where "key_autoLoad \<equiv> [0x61, 0x75, 0x74, 0x6F, 0x4C, 0x6F, 0x61, 0x64]"
abbreviation key_collectionId :: gostring where
  "key_collectionId \<equiv> [0x63, 0x6F, 0x6C, 0x6C, 0x65, 0x63, 0x74, 0x69, 0x6F, 0x6E, 0x49, 0x64]"

definition subdocOpts :: "subdoc option \<Rightarrow> (gostring \<times> goany) list" where
  "subdocOpts d = (case d of None \<Rightarrow> [(key_gc, ABool True)]
     | Some d \<Rightarrow>
        (let m = [(key_gc, ABool (gc d))];
             m = (if autoLoad d then map_put key_autoLoad (ABool True) m else m)
         in if collectionID d \<noteq> [] then map_put key_collectionId (AString (collectionID d)) m else m))"

definition newSubdocFromOpts :: "gostring \<Rightarrow> goany \<Rightarrow> subdoc" where
  "newSubdocFromOpts g optsAny =
     (let m = (case optsAny of AMap kvs \<Rightarrow> map_of kvs | _ \<Rightarrow> Map.empty);
          b = (case m key_gc of Some (ABool v) \<Rightarrow> v | _ \<Rightarrow> True);
          al = (case m key_autoLoad of Some (ABool v) \<Rightarrow> v | _ \<Rightarrow> False);
          ci = (case m key_collectionId of Some (AString v) \<Rightarrow> v | _ \<Rightarrow> [])
      in \<lparr>guid = g, gc = b, autoLoad = al, shouldLoad = al, collectionID = ci, d_item = None\<rparr>)"

subsection \<open>Properties of contents\<close>

text \<open>The cached length of a text is that of the text.\<close>

fun content_ok :: "content \<Rightarrow> bool" where
  "content_ok (ContentDeleted n) \<longleftrightarrow> n \<ge> 0"
| "content_ok (ContentString s n) \<longleftrightarrow> valid_utf8 s \<and> n = int (utf16Len s)"
| "content_ok (contentSkip n) \<longleftrightarrow> n \<ge> 0"
| "content_ok _ \<longleftrightarrow> True"

fun splittable :: "content \<Rightarrow> bool" where
  "splittable (ContentDeleted _) = True"
| "splittable (ContentString _ _) = True"
| "splittable (ContentAny _) = True"
| "splittable (ContentJSON _) = True"
| "splittable _ = False"

lemma ContentLen_nonneg [simp]: "content_ok c \<Longrightarrow> 0 \<le> ContentLen c"
  by (cases c) auto

lemma content_ok_new [simp]: "valid_utf8 s \<Longrightarrow> content_ok (NewContentString s)" "content_ok (NewContentAny vs)"
  by (simp_all add: NewContentString_def NewContentAny_def)

lemma Splice_result:
  assumes "content_ok c" "splittable c" "int k \<le> ContentLen c"
  obtains l r where "Splice k c = Inr (l, r)" "content_ok l" "content_ok r" "splittable l" "splittable r"
    "ContentLen l = int k" "ContentLen r = ContentLen c - int k" "IsCountable l = IsCountable c" "IsCountable r = IsCountable c"
proof (cases c)
  case (ContentString s n)
  obtain l r where s: "splitUTF16 s k = (l, r)" by (cases "splitUTF16 s k")
  have "valid_utf8 s" "k \<le> utf16Len s" using assms ContentString by auto
  note p = splitUTF16_correct[OF this s]
  show ?thesis using assms ContentString p s by (intro that) auto
qed (use assms that in auto)

lemma splittable_Splice: "Splice k c = Inr (l, r) \<Longrightarrow> splittable c"
  by (cases c) auto

lemma splittable_long: "ContentLen c > 1 \<Longrightarrow> (\<forall>n. c \<noteq> contentSkip n) \<Longrightarrow> splittable c"
  by (cases c) auto

text \<open>
  A split undone by merging the halves gives the content back, unless it cuts a text inside a surrogate pair.
\<close>

definition cuts_pair :: "nat \<Rightarrow> content \<Rightarrow> bool" where
  "cuts_pair k c = (case c of ContentString s n \<Rightarrow> fst (splitUTF16 s k) @ snd (splitUTF16 s k) \<noteq> s | _ \<Rightarrow> False)"

lemma split_runes_append: "split_runes (xs @ ys) (total_units xs) = (xs, ys)"
proof (induction xs)
  case Nil
  show ?case by (cases ys) auto
next
  case (Cons x xs)
  have "units x > 0" by (simp add: units_def)
  then show ?case using Cons by simp
qed

lemma cuts_pair_boundary:
  assumes "valid_utf8 s" "valid_utf8 t"
  shows "\<not> cuts_pair (utf16Len s) (ContentString (s @ t) n)"
proof -
  obtain xs where xs: "s = encode_runes xs" "list_all scalar xs" by (rule valid_utf8_runes[OF assms(1)])
  obtain ys where ys: "t = encode_runes ys" "list_all scalar ys" by (rule valid_utf8_runes[OF assms(2)])
  have "splitUTF16 (s @ t) (utf16Len s) = (s, t)"
    using splitUTF16_runes[of "xs @ ys" "utf16Len s"] xs ys split_runes_append[of xs ys] by (simp add: utf16Len_runes)
  then show ?thesis by (simp add: cuts_pair_def)
qed

lemma Splice_merge: "Splice k c = Inr (l, r) \<Longrightarrow> \<not> cuts_pair k c \<Longrightarrow> mergeContent l r = Some c"
  by (cases c) (auto simp: cuts_pair_def split: if_splits prod.splits)

lemma mergeContent_len: "mergeContent l r = Some c \<Longrightarrow> ContentLen c = ContentLen l + ContentLen r"
  by (cases "(l, r)" rule: mergeContent.cases) auto

lemma mergeContent_ok: "mergeContent l r = Some c \<Longrightarrow> content_ok l \<Longrightarrow> content_ok r \<Longrightarrow> content_ok c"
proof (cases "(l, r)" rule: mergeContent.cases)
  case (1 s n t m)
  assume m: "mergeContent l r = Some c" "content_ok l" "content_ok r"
  obtain xs where xs: "s = encode_runes xs" "list_all scalar xs" using m 1 valid_utf8_runes by (metis Pair_inject content_ok.simps(2))
  obtain ys where ys: "t = encode_runes ys" "list_all scalar ys" using m 1 valid_utf8_runes by (metis Pair_inject content_ok.simps(2))
  show ?thesis using m 1 xs ys utf16Len_runes[of "xs @ ys"] utf16Len_runes[of xs] utf16Len_runes[of ys] valid_utf8_encode[of "xs @ ys"] by auto
qed auto

lemma subdoc_opts_roundtrip:
  "shouldLoad d = autoLoad d \<Longrightarrow> newSubdocFromOpts (guid d) (AMap (subdocOpts (Some d))) = d\<lparr>d_item := None\<rparr>"
  by (auto simp: newSubdocFromOpts_def subdocOpts_def Let_def split: if_splits)

end
