(* ===== verification/Struct_Store.thy ===== *)
theory Struct_Store
  imports Content Delete_Set
begin

text \<open>
  The state of a document inside a transaction, and its struct store: \<^verbatim>\<open>src/crdt/store.go\<close> with \<open>splitItem\<close> and
  the helpers on moves of \<^verbatim>\<open>src/crdt/item.go\<close>.  Items, shared types and subdocuments live in three heaps, lists that
  only grow; a pointer is an index, and a nil pointer is \<open>None\<close>.  The record \<open>St\<close> holds what the source reaches from
  a \<^verbatim>\<open>*Transaction\<close>: the heaps, the struct store and the bookkeeping of the transaction.  A type with staged
  (prelim) content is not a value of the model: \<open>abstractType\<close> is a type whose staged content is empty.
\<close>

subsection \<open>Binary search\<close>

text \<open>\<^verbatim>\<open>sort.Search\<close>: the smallest index in the range at which a monotone predicate holds, or the end of it.\<close>

function search_from :: "(nat \<Rightarrow> bool) \<Rightarrow> nat \<Rightarrow> nat \<Rightarrow> nat" where
  "search_from f i j = (if i < j then let h = (i + j) div 2 in if \<not> f h then search_from f (h + 1) j else search_from f i h else i)"
  by pat_completeness auto
termination by (relation "measure (\<lambda>(f, i, j). j - i)") (auto simp: Let_def)

declare search_from.simps [simp del]

definition sort_Search :: "nat \<Rightarrow> (nat \<Rightarrow> bool) \<Rightarrow> nat" where
  "sort_Search n f = search_from f 0 n"

lemma search_from_step:
  "i < j \<Longrightarrow> search_from f i j = (if f ((i + j) div 2) then search_from f i ((i + j) div 2) else search_from f ((i + j) div 2 + 1) j)"
  by (simp add: search_from.simps[of f i j] Let_def)

lemma search_from_stop: "\<not> i < j \<Longrightarrow> search_from f i j = i"
  by (simp add: search_from.simps[of f i j])

lemma search_from_range: "i \<le> j \<Longrightarrow> i \<le> search_from f i j \<and> search_from f i j \<le> j"
proof (induction f i j rule: search_from.induct)
  case (1 f i j)
  show ?case
  proof (cases "i < j")
    case True
    then have "i \<le> (i + j) div 2" "(i + j) div 2 + 1 \<le> j" by auto
    then show ?thesis using 1 True by (fastforce simp: search_from_step[OF True])
  qed (use 1 in \<open>simp add: search_from_stop\<close>)
qed

definition upward :: "(nat \<Rightarrow> bool) \<Rightarrow> nat \<Rightarrow> nat \<Rightarrow> bool" where
  "upward f i j \<longleftrightarrow> (\<forall>x y. i \<le> x \<longrightarrow> x \<le> y \<longrightarrow> y < j \<longrightarrow> f x \<longrightarrow> f y)"

lemma upwardD: "upward f i j \<Longrightarrow> i \<le> x \<Longrightarrow> x \<le> y \<Longrightarrow> y < j \<Longrightarrow> f x \<Longrightarrow> f y"
  unfolding upward_def by blast

lemma upward_sub: "upward f i j \<Longrightarrow> i \<le> i' \<Longrightarrow> j' \<le> j \<Longrightarrow> upward f i' j'"
  unfolding upward_def by (meson le_trans order_less_le_trans)

lemma search_from_below: "upward f i j \<Longrightarrow> i \<le> k \<Longrightarrow> k < search_from f i j \<Longrightarrow> \<not> f k"
proof (induction f i j rule: search_from.induct)
  case (1 f i j)
  show ?case
  proof (cases "i < j")
    case True
    let ?h = "(i + j) div 2"
    have h: "i \<le> ?h" "?h < j" using True by auto
    show ?thesis
    proof (cases "f ?h")
      case t: True
      then have "k < search_from f i ?h" using "1.prems"(3) by (simp add: search_from_step[OF True])
      with "1.IH"(2)[OF True refl _ upward_sub[OF "1.prems"(1)] "1.prems"(2)] t h show ?thesis by simp
    next
      case fl: False
      then have k: "k < search_from f (?h + 1) j" using "1.prems"(3) by (simp add: search_from_step[OF True])
      show ?thesis
      proof (cases "k \<le> ?h")
        case le: True
        then show ?thesis using upwardD[OF "1.prems"(1,2) le h(2)] fl by blast
      next
        case False
        with "1.IH"(1)[OF True refl fl upward_sub[OF "1.prems"(1)] _ k] h show ?thesis by simp
      qed
    qed
  qed (use 1 in \<open>simp add: search_from_stop\<close>)
qed

lemma search_from_above: "upward f i j \<Longrightarrow> search_from f i j \<le> k \<Longrightarrow> k < j \<Longrightarrow> f k"
proof (induction f i j rule: search_from.induct)
  case (1 f i j)
  show ?case
  proof (cases "i < j")
    case True
    let ?h = "(i + j) div 2"
    have h: "i \<le> ?h" "?h < j" using True by auto
    show ?thesis
    proof (cases "f ?h")
      case t: True
      then have k: "search_from f i ?h \<le> k" using "1.prems"(2) by (simp add: search_from_step[OF True])
      show ?thesis
      proof (cases "?h \<le> k")
        case le: True
        then show ?thesis using upwardD[OF "1.prems"(1) h(1) le "1.prems"(3) t] by blast
      next
        case False
        with "1.IH"(2)[OF True refl _ upward_sub[OF "1.prems"(1)] k] t h show ?thesis by simp
      qed
    next
      case fl: False
      then have "search_from f (?h + 1) j \<le> k" using "1.prems"(2) by (simp add: search_from_step[OF True])
      with "1.IH"(1)[OF True refl fl upward_sub[OF "1.prems"(1)] _ "1.prems"(3)] h show ?thesis by simp
    qed
  qed (use 1 in \<open>simp add: search_from_stop\<close>)
qed

lemma sort_Search_spec:
  assumes "upward f 0 n"
  shows "sort_Search n f \<le> n" "k < sort_Search n f \<Longrightarrow> \<not> f k" "sort_Search n f \<le> k \<Longrightarrow> k < n \<Longrightarrow> f k"
  using search_from_range[of 0 n f] search_from_below[OF assms, of k] search_from_above[OF assms, of k] by (simp_all add: sort_Search_def)

lemma search_from_cong: "(\<forall>k. i \<le> k \<longrightarrow> k < j \<longrightarrow> f k = g k) \<Longrightarrow> search_from f i j = search_from g i j"
proof (induction f i j rule: search_from.induct)
  case (1 f i j)
  show ?case
  proof (cases "i < j")
    case True
    let ?h = "(i + j) div 2"
    have h: "i \<le> ?h" "?h < j" using True by auto
    then have "f ?h = g ?h" using "1.prems" by blast
    then show ?thesis using "1.IH"[OF True refl] "1.prems" h by (simp add: search_from_step[OF True])
  qed (simp add: search_from_stop)
qed

lemma sort_Search_cong: "(\<forall>k < n. f k = g k) \<Longrightarrow> sort_Search n f = sort_Search n g"
  unfolding sort_Search_def by (rule search_from_cong) simp

subsection \<open>State\<close>

record Item =
  ItemID :: ID
  Origin :: "ID option"
  OriginRight :: "ID option"
  Left :: "iaddr option"
  Right :: "iaddr option"
  Parent :: "taddr option"
  ParentSub :: "gostring option"
  ItemContent :: content
  Deleted :: bool
  parentID :: "ID option"
  MovedBy :: "iaddr option"
  redone :: "ID option"

record searchMarker =
  m_item :: iaddr
  m_index :: int
  m_timestamp :: u64

text \<open>The concrete type that embeds an \<open>abstractType\<close>.\<close>

datatype typeKind = YArray | YMap | YText | YXmlElement gostring | YXmlFragment | YXmlText | rawType

record abstractType =
  kind :: typeKind
  t_start :: "iaddr option"
  itemMap :: "(gostring \<times> iaddr) list"
  t_length :: int
  t_item :: "iaddr option"
  t_name :: gostring
  insertHint :: int
  firstLiveCache :: "iaddr option"
  hasFormatting :: bool
  cleanFormatting :: bool
  fmtGen :: u64
  markers :: "searchMarker list"
  markerTimestamp :: u64

record pendingUpdate =
  pu_items :: "iaddr list"
  missing :: StateVector

record St =
  heap :: "Item list"
  types :: "abstractType list"
  docs :: "subdoc list"
  clients :: "(ClientID \<times> iaddr list) list"
  pending :: "pendingUpdate option"
  pendingDs :: DeleteSet
  pendingMoves :: "(ClientID \<times> iaddr list) list"
  Local :: bool
  deleteSet :: DeleteSet
  changed :: "(taddr \<times> gostring) set"
  newItems :: "iaddr list"
  mergeStructs :: "iaddr list"
  rearbitrate :: "(taddr \<times> iaddr list) list"
  movedBefore :: "(iaddr \<times> iaddr option) list"
  subdocsAdded :: "daddr set"
  subdocsRemoved :: "daddr set"
  subdocsLoaded :: "daddr set"

abbreviation itm :: "St \<Rightarrow> iaddr \<Rightarrow> Item" where
  "itm s a \<equiv> heap s ! a"

abbreviation ty :: "St \<Rightarrow> taddr \<Rightarrow> abstractType" where
  "ty s t \<equiv> types s ! t"

definition upd :: "iaddr \<Rightarrow> (Item \<Rightarrow> Item) \<Rightarrow> St \<Rightarrow> St" where
  "upd a f s = s\<lparr>heap := (heap s)[a := f (heap s ! a)]\<rparr>"

definition updt :: "taddr \<Rightarrow> (abstractType \<Rightarrow> abstractType) \<Rightarrow> St \<Rightarrow> St" where
  "updt t f s = s\<lparr>types := (types s)[t := f (types s ! t)]\<rparr>"

definition when_some :: "'a option \<Rightarrow> ('a \<Rightarrow> 's \<Rightarrow> 's) \<Rightarrow> 's \<Rightarrow> 's" where
  "when_some p f s = (case p of None \<Rightarrow> s | Some x \<Rightarrow> f x s)"

abbreviation iclock :: "Item \<Rightarrow> u64" where "iclock it \<equiv> IdClock (ItemID it)"
abbreviation iclient :: "Item \<Rightarrow> ClientID" where "iclient it \<equiv> Client (ItemID it)"

definition ilen :: "Item \<Rightarrow> u64" where
  "ilen it = word_of_int (ContentLen (ItemContent it))"

definition map_list :: "('k \<times> 'v list) list \<Rightarrow> 'k \<Rightarrow> 'v list" where
  "map_list m k = (case map_of m k of None \<Rightarrow> [] | Some l \<Rightarrow> l)"

abbreviation items_of :: "St \<Rightarrow> ClientID \<Rightarrow> iaddr list" where
  "items_of s c \<equiv> map_list (clients s) c"

text \<open>A fresh type of the same kind, as \<open>ContentType.Copy\<close> makes it.\<close>

definition new_type :: "typeKind \<Rightarrow> abstractType" where
  "new_type k = \<lparr>kind = k, t_start = None, itemMap = [], t_length = 0, t_item = None, t_name = [], insertHint = 0,
     firstLiveCache = None, hasFormatting = False, cleanFormatting = False, fmtGen = 0, markers = [], markerTimestamp = 0\<rparr>"

definition emptyCopy :: "abstractType \<Rightarrow> abstractType" where
  "emptyCopy t = new_type (kind t)"

fun Copy :: "content \<Rightarrow> St \<Rightarrow> fault + (content \<times> St)" where
  "Copy (ContentType (Some t)) s = Inr (ContentType (Some (length (types s))), s\<lparr>types := types s @ [emptyCopy (ty s t)]\<rparr>)"
| "Copy (ContentDoc (Some d)) s =
     Inr (ContentDoc (Some (length (docs s))), s\<lparr>docs := docs s @ [(docs s ! d)\<lparr>d_item := None\<rparr>]\<rparr>)"
| "Copy (ContentMove None n) s = Inl NilDereference"
| "Copy c s = Inr (c, s)"

subsection \<open>The store\<close>

definition Append :: "iaddr \<Rightarrow> St \<Rightarrow> St" where
  "Append a s = (let c = iclient (itm s a) in s\<lparr>clients := map_put c (items_of s c @ [a]) (clients s)\<rparr>)"

definition Find :: "St \<Rightarrow> ID \<Rightarrow> iaddr option" where
  "Find s i =
     (let items = items_of s (Client i); n = length items in
      if n = 0 then None
      else let idx = sort_Search n (\<lambda>k. iclock (itm s (items ! k)) > IdClock i) in
        if idx = 0 then None
        else let a = items ! (idx - 1) in
          if iclock (itm s a) + ilen (itm s a) > IdClock i then Some a else None)"

definition StateVector_of :: "St \<Rightarrow> StateVector" where
  "StateVector_of s = map (\<lambda>(c, as). (c, iclock (itm s (last as)) + ilen (itm s (last as)))) (filter (\<lambda>(c, as). as \<noteq> []) (clients s))"

definition NextClock :: "St \<Rightarrow> ClientID \<Rightarrow> u64" where
  "NextClock s c = (let items = items_of s c in if items = [] then 0 else iclock (itm s (last items)) + ilen (itm s (last items)))"

definition insertItem :: "iaddr \<Rightarrow> St \<Rightarrow> St" where
  "insertItem a s =
     (let c = iclient (itm s a); items = items_of s c;
          p = sort_Search (length items) (\<lambda>k. iclock (itm s (items ! k)) \<ge> iclock (itm s a))
      in s\<lparr>clients := map_put c (take p items @ a # drop p items) (clients s)\<rparr>)"

definition IterateFrom :: "StateVector \<Rightarrow> St \<Rightarrow> iaddr list" where
  "IterateFrom sv s = concat (map (\<lambda>(c, as). filter (\<lambda>a. iclock (itm s a) \<ge> StateVector_Clock sv c) as) (clients s))"

definition retryable :: "St \<Rightarrow> StateVector \<Rightarrow> bool" where
  "retryable s m = list_ex (\<lambda>(c, parkedAt). NextClock s c > parkedAt) m"

definition mergePendingMissing :: "StateVector \<Rightarrow> ClientID \<Rightarrow> u64 \<Rightarrow> StateVector" where
  "mergePendingMissing m c clk = (case map_of m c of
     Some existing \<Rightarrow> if existing \<le> clk then m else map_put c clk m
   | None \<Rightarrow> map_put c clk m)"

definition clearMarkers :: "taddr \<Rightarrow> St \<Rightarrow> St" where
  "clearMarkers t s = updt t (\<lambda>t. t\<lparr>markers := []\<rparr>) s"

definition right_half :: "Item \<Rightarrow> iaddr \<Rightarrow> nat \<Rightarrow> content \<Rightarrow> Item" where
  "right_half it a offset r =
     \<lparr>ItemID = \<lparr>Client = iclient it, IdClock = iclock it + of_nat offset\<rparr>,
      Origin = Some \<lparr>Client = iclient it, IdClock = iclock it + of_nat offset - 1\<rparr>,
      OriginRight = OriginRight it, Left = Some a, Right = Right it, Parent = Parent it, ParentSub = ParentSub it,
      ItemContent = r, Deleted = Deleted it, parentID = None, MovedBy = None,
      redone = map_option (\<lambda>i. \<lparr>Client = Client i, IdClock = IdClock i + of_nat offset\<rparr>) (redone it)\<rparr>"

text \<open>Moving the map entry of a key from one item to another.\<close>

definition rekey :: "Item \<Rightarrow> iaddr \<Rightarrow> iaddr \<Rightarrow> St \<Rightarrow> St" where
  "rekey it a b s = (case (ParentSub it, Parent it) of
     (Some k, Some t) \<Rightarrow> if map_of (itemMap (ty s t)) k = Some a then updt t (\<lambda>y. y\<lparr>itemMap := map_put k b (itemMap y)\<rparr>) s else s
   | _ \<Rightarrow> s)"

definition splitItem :: "iaddr \<Rightarrow> nat \<Rightarrow> St \<Rightarrow> fault + (iaddr \<times> St)" where
  "splitItem a offset s =
     (case Splice offset (ItemContent (itm s a)) of Inl e \<Rightarrow> Inl e
      | Inr (l, r) \<Rightarrow>
         (let it = itm s a; b = length (heap s);
              s = upd a (\<lambda>i. i\<lparr>ItemContent := l\<rparr>) s;
              s = s\<lparr>heap := heap s @ [right_half it a offset r]\<rparr>;
              s = when_some (Right it) (\<lambda>x. upd x (\<lambda>i. i\<lparr>Left := Some b\<rparr>)) s;
              s = upd a (\<lambda>i. i\<lparr>Right := Some b\<rparr>) s;
              s = insertItem b s;
              s = rekey it a b s;
              s = when_some (Parent it) clearMarkers s
          in Inr (b, s\<lparr>mergeStructs := mergeStructs s @ [b]\<rparr>)))"

definition getItemCleanEnd :: "ClientID \<Rightarrow> u64 \<Rightarrow> St \<Rightarrow> fault + (iaddr option \<times> St)" where
  "getItemCleanEnd c clk s =
     (case Find s \<lparr>Client = c, IdClock = clk\<rparr> of None \<Rightarrow> Inr (None, s)
      | Some a \<Rightarrow>
         if iclock (itm s a) + ilen (itm s a) - 1 = clk then Inr (Some a, s)
         else if clk < iclock (itm s a) then Inr (Some a, s)
         else ebind (splitItem a (unat (clk - iclock (itm s a) + 1)) s) (\<lambda>(_, s). Inr (Some a, s)))"

definition getItemCleanStart :: "ID \<Rightarrow> St \<Rightarrow> fault + (iaddr option \<times> St)" where
  "getItemCleanStart i s =
     (case Find s i of None \<Rightarrow> Inr (None, s)
      | Some a \<Rightarrow>
         if iclock (itm s a) = IdClock i then Inr (Some a, s)
         else if IdClock i < iclock (itm s a) then Inr (Some a, s)
         else ebind (splitItem a (unat (IdClock i - iclock (itm s a))) s) (\<lambda>(b, s). Inr (Some b, s)))"

subsection \<open>Moves\<close>

definition addPendingMove :: "ClientID \<Rightarrow> iaddr \<Rightarrow> St \<Rightarrow> St" where
  "addPendingMove c mv s = s\<lparr>pendingMoves := map_put c (map_list (pendingMoves s) c @ [mv]) (pendingMoves s)\<rparr>"

definition moveBeats :: "St \<Rightarrow> iaddr \<Rightarrow> iaddr option \<Rightarrow> bool" where
  "moveBeats s m w = (case w of None \<Rightarrow> True
     | Some w \<Rightarrow> if iclient (itm s m) \<noteq> iclient (itm s w) then iclient (itm s m) < iclient (itm s w)
         else iclock (itm s m) > iclock (itm s w))"

definition setMovedBy :: "iaddr \<Rightarrow> iaddr option \<Rightarrow> St \<Rightarrow> St" where
  "setMovedBy target move s =
     (let s = (if map_of (movedBefore s) target = None
               then s\<lparr>movedBefore := map_put target (MovedBy (itm s target)) (movedBefore s)\<rparr> else s)
      in upd target (\<lambda>i. i\<lparr>MovedBy := move\<rparr>) s)"

definition resolveMovedItem :: "ID \<Rightarrow> int \<Rightarrow> St \<Rightarrow> fault + (iaddr option \<times> St)" where
  "resolveMovedItem targetID targetLen s =
     (case Find s targetID of None \<Rightarrow> Inr (None, s)
      | Some si \<Rightarrow>
         ebind (if iclock (itm s si) < IdClock targetID
                then splitItem si (unat (IdClock targetID - iclock (itm s si))) s else Inr (si, s)) (\<lambda>(si, s).
         if targetLen > 0 \<and> ContentLen (ItemContent (itm s si)) > targetLen
         then ebind (splitItem si (nat targetLen) s) (\<lambda>(_, s). Inr (Some si, s))
         else Inr (Some si, s)))"

text \<open>The loop over the deferred moves; the moves that still wait are collected.\<close>

fun resolve_moves :: "iaddr list \<Rightarrow> iaddr list \<Rightarrow> St \<Rightarrow> fault + (iaddr list \<times> St)" where
  "resolve_moves [] remaining s = Inr (remaining, s)"
| "resolve_moves (mv # mvs) remaining s =
     (case ItemContent (itm s mv) of
        ContentMove (Some target) n \<Rightarrow>
         if Deleted (itm s mv) then resolve_moves mvs remaining s
         else ebind (resolveMovedItem target n s) (\<lambda>(tg, s).
           case tg of None \<Rightarrow> resolve_moves mvs (remaining @ [mv]) s
           | Some tg \<Rightarrow>
              if moveBeats s mv (MovedBy (itm s tg))
              then resolve_moves mvs remaining (when_some (Parent (itm s mv)) clearMarkers (setMovedBy tg (Some mv) s))
              else resolve_moves mvs remaining s)
      | _ \<Rightarrow> resolve_moves mvs remaining s)"

definition resolvePendingMoves :: "ClientID \<Rightarrow> St \<Rightarrow> fault + St" where
  "resolvePendingMoves c s =
     (let moves = map_list (pendingMoves s) c in
      if moves = [] then Inr s
      else ebind (resolve_moves moves [] s) (\<lambda>(remaining, s).
        Inr (if remaining = [] then s\<lparr>pendingMoves := filter (\<lambda>kv. fst kv \<noteq> c) (pendingMoves s)\<rparr>
             else s\<lparr>pendingMoves := map_put c remaining (pendingMoves s)\<rparr>)))"

end
