(* ===== verification/Store_Facts.thy ===== *)
theory Store_Facts
  imports Struct_Store
begin

text \<open>
  Well-formed document states, and what the operations of the struct store do to them.  The items of a client form a
  contiguous run of clocks from 0; the items of a shared type form a doubly linked list.
\<close>

subsection \<open>Runs of items\<close>

definition isize :: "Item \<Rightarrow> nat" where
  "isize it = nat (ContentLen (ItemContent it))"

definition good :: "Item \<Rightarrow> bool" where
  "good it \<longleftrightarrow> content_ok (ItemContent it) \<and> 0 < ContentLen (ItemContent it) \<and> (\<forall>n. ItemContent it \<noteq> contentSkip n)"

abbreviation istart :: "Item \<Rightarrow> nat" where
  "istart it \<equiv> unat (iclock it)"

abbreviation istop :: "Item \<Rightarrow> nat" where
  "istop it \<equiv> istart it + isize it"

fun run :: "Item list \<Rightarrow> ClientID \<Rightarrow> nat \<Rightarrow> iaddr list \<Rightarrow> bool" where
  "run h c k [] \<longleftrightarrow> True"
| "run h c k (a # as) \<longleftrightarrow> a < length h \<and> iclient (h ! a) = c \<and> istart (h ! a) = k \<and> good (h ! a) \<and> run h c (k + isize (h ! a)) as"

definition run_end :: "Item list \<Rightarrow> nat \<Rightarrow> iaddr list \<Rightarrow> nat" where
  "run_end h k as = k + sum_list (map (\<lambda>a. isize (h ! a)) as)"

lemma run_end_simps [simp]:
  "run_end h k [] = k" "run_end h k (a # as) = run_end h (k + isize (h ! a)) as"
  "run_end h k (as @ bs) = run_end h (run_end h k as) bs"
  by (simp_all add: run_end_def add.assoc)

lemma run_append [simp]: "run h c k (as @ bs) \<longleftrightarrow> run h c k as \<and> run h c (run_end h k as) bs"
  by (induction as arbitrary: k) auto

lemma run_end_ge: "k \<le> run_end h k as"
  by (simp add: run_end_def)

lemma good_size: "good it \<Longrightarrow> 0 < isize it"
  by (simp add: good_def isize_def)

lemma unat_ilen: "good it \<Longrightarrow> isize it < 2 ^ 64 \<Longrightarrow> unat (ilen it) = isize it"
  by (simp add: ilen_def isize_def good_def unat_eq_nat_uint uint_word_of_int nat_less_iff)

lemma run_member:
  assumes "run h c k as" "a \<in> set as"
  shows "a < length h" "iclient (h ! a) = c" "good (h ! a)" "k \<le> istart (h ! a)" "istop (h ! a) \<le> run_end h k as"
proof -
  obtain us vs where as: "as = us @ a # vs" using assms(2) by (meson split_list)
  show "a < length h" "iclient (h ! a) = c" "good (h ! a)" "k \<le> istart (h ! a)" "istop (h ! a) \<le> run_end h k as"
    using assms(1) run_end_ge[of k h us] run_end_ge[of "run_end h k us + isize (h ! a)" h vs] unfolding as by auto
qed

lemma run_cong:
  assumes "\<And>a. a \<in> set as \<Longrightarrow> a < length h \<Longrightarrow> a < length h' \<and> ItemID (h' ! a) = ItemID (h ! a) \<and> ItemContent (h' ! a) = ItemContent (h ! a)"
  shows "run h c k as \<Longrightarrow> run h' c k as" "run h c k as \<Longrightarrow> run_end h' k as = run_end h k as"
  using assms by (induction as arbitrary: k) (auto simp: good_def isize_def)

lemma run_sorted:
  assumes "run h c k as" "i < j" "j < length as"
  shows "istop (h ! (as ! i)) \<le> istart (h ! (as ! j))"
proof -
  have i: "as = take i as @ as ! i # drop (Suc i) as" using assms by (simp add: id_take_nth_drop)
  have "as ! j \<in> set (drop (Suc i) as)" using assms by (auto simp: in_set_conv_nth intro!: exI[of _ "j - Suc i"])
  moreover have "run h c (run_end h k (take i as)) (as ! i # drop (Suc i) as)" using assms(1) i run_append by metis
  ultimately show ?thesis using run_member(4) by fastforce
qed

lemma run_distinct: "run h c k as \<Longrightarrow> distinct as"
proof (induction as arbitrary: k)
  case (Cons a as)
  then have "a \<notin> set as" using run_member(4)[of h c "k + isize (h ! a)" as a] good_size[of "h ! a"] by auto
  then show ?case using Cons by auto
qed simp

subsection \<open>The store\<close>

definition store_ok :: "St \<Rightarrow> bool" where
  "store_ok s \<longleftrightarrow> distinct (map fst (clients s)) \<and> (\<forall>c. run (heap s) c 0 (items_of s c) \<and> run_end (heap s) 0 (items_of s c) < 2 ^ 64)"

definition stored :: "St \<Rightarrow> iaddr set" where
  "stored s = (\<Union>c. set (items_of s c))"

lemma store_okD:
  assumes "store_ok s"
  shows "run (heap s) c 0 (items_of s c)" "run_end (heap s) 0 (items_of s c) < 2 ^ 64"
  using assms by (simp_all add: store_ok_def)

lemma store_member:
  assumes "store_ok s" "a \<in> set (items_of s c)"
  shows "a < length (heap s)" "iclient (itm s a) = c" "good (itm s a)" "istop (itm s a) \<le> run_end (heap s) 0 (items_of s c)"
    "istop (itm s a) < 2 ^ 64" "unat (ilen (itm s a)) = isize (itm s a)" "unat (iclock (itm s a) + ilen (itm s a)) = istop (itm s a)"
proof -
  note m = run_member[OF store_okD(1)[OF assms(1)] assms(2)]
  show "a < length (heap s)" "iclient (itm s a) = c" "good (itm s a)" "istop (itm s a) \<le> run_end (heap s) 0 (items_of s c)" using m by auto
  show l: "istop (itm s a) < 2 ^ 64" using m(5) store_okD(2)[OF assms(1), of c] by linarith
  show u: "unat (ilen (itm s a)) = isize (itm s a)" using l by (intro unat_ilen m(3)) linarith
  show "unat (iclock (itm s a) + ilen (itm s a)) = istop (itm s a)" using l u by (subst unat_add_fits) simp_all
qed

lemma stored_client: "store_ok s \<Longrightarrow> a \<in> stored s \<longleftrightarrow> a \<in> set (items_of s (iclient (itm s a)))"
  using store_member(2) by (auto simp: stored_def)

definition holds :: "St \<Rightarrow> ID \<Rightarrow> iaddr \<Rightarrow> bool" where
  "holds s i a \<longleftrightarrow> a \<in> set (items_of s (Client i)) \<and> istart (itm s a) \<le> unat (IdClock i) \<and> unat (IdClock i) < istop (itm s a)"

lemma Find_correct:
  assumes "store_ok s"
  shows "Find s i = Some a \<longleftrightarrow> holds s i a"
proof -
  define items where "items = items_of s (Client i)"
  define f where "f = (\<lambda>k. iclock (itm s (items ! k)) > IdClock i)"
  define idx where "idx = sort_Search (length items) f"
  have r: "run (heap s) (Client i) 0 items" unfolding items_def by (rule store_okD(1)[OF assms])
  have sorted: "x < y \<Longrightarrow> y < length items \<Longrightarrow> istop (itm s (items ! x)) \<le> istart (itm s (items ! y))" for x y
    by (rule run_sorted[OF r])
  have up: "upward f 0 (length items)"
    unfolding upward_def f_def
  proof (intro allI impI)
    fix x y assume xy: "0 \<le> x" "x \<le> y" "y < length items" "IdClock i < iclock (itm s (items ! x))"
    then have "istart (itm s (items ! x)) \<le> istart (itm s (items ! y))" using sorted[of x y] by (cases "x = y") auto
    then show "IdClock i < iclock (itm s (items ! y))" using xy(4) by (simp add: word_less_nat_alt)
  qed
  note sp = sort_Search_spec[OF up, folded idx_def]
  have mem: "items ! k \<in> set (items_of s (Client i))" if "k < length items" for k using that by (simp add: items_def)
  note sm = store_member[OF assms]
  have F: "Find s i = (if items = [] then None else if idx = 0 then None else
      if iclock (itm s (items ! (idx - 1))) + ilen (itm s (items ! (idx - 1))) > IdClock i then Some (items ! (idx - 1)) else None)"
    by (simp add: Find_def items_def idx_def f_def Let_def)
  have Find: "Find s i = (if idx = 0 then None else if istop (itm s (items ! (idx - 1))) > unat (IdClock i) then Some (items ! (idx - 1)) else None)"
  proof (cases "idx = 0")
    case False
    have "items \<noteq> []" using False sp(1) by auto
    moreover have "items ! (idx - 1) \<in> set (items_of s (Client i))" using False sp(1) by (intro mem) linarith
    ultimately show ?thesis using False sm(7)[of "items ! (idx - 1)" "Client i"] by (simp add: F word_less_nat_alt)
  qed (simp add: F)
  have only: "k = idx - 1 \<and> idx \<noteq> 0" if k: "k < length items" "istart (itm s (items ! k)) \<le> unat (IdClock i)" "unat (IdClock i) < istop (itm s (items ! k))" for k
  proof -
    have "\<not> f k" using k(2) by (simp add: f_def word_less_nat_alt)
    then have lt: "k < idx" using sp(3)[of k] k(1) by linarith
    moreover have "\<not> k < idx - 1"
    proof
      assume "k < idx - 1"
      moreover have "idx - 1 < length items" using sp(1) lt by linarith
      ultimately have "istop (itm s (items ! k)) \<le> istart (itm s (items ! (idx - 1)))" by (rule sorted)
      moreover have "\<not> f (idx - 1)" using sp(2) lt by simp
      ultimately show False using k(3) by (simp add: f_def word_less_nat_alt)
    qed
    ultimately show ?thesis by linarith
  qed
  show ?thesis
  proof
    assume "Find s i = Some a"
    then have a: "idx \<noteq> 0" "a = items ! (idx - 1)" "istop (itm s a) > unat (IdClock i)" by (auto simp: Find split: if_splits)
    have "\<not> f (idx - 1)" using sp(2) a(1) by simp
    then show "holds s i a" using a mem[of "idx - 1"] sp(1) by (auto simp: holds_def f_def word_less_nat_alt)
  next
    assume h: "holds s i a"
    then obtain k where k: "k < length items" "items ! k = a" by (auto simp: holds_def items_def in_set_conv_nth)
    have "k = idx - 1 \<and> idx \<noteq> 0" using only[OF k(1)] h k(2) by (simp add: holds_def)
    then show "Find s i = Some a" using h k by (auto simp: Find holds_def)
  qed
qed

lemma run_stop_bound: "run h c k as \<Longrightarrow> run_end h k as < 2 ^ 64 \<Longrightarrow> as \<noteq> [] \<Longrightarrow>
   unat (iclock (h ! last as) + ilen (h ! last as)) = run_end h k as"
proof -
  assume r: "run h c k as" "run_end h k as < 2 ^ 64" "as \<noteq> []"
  obtain bs a where as: "as = bs @ [a]" using r(3) by (metis append_butlast_last_id)
  have "istart (h ! a) = run_end h k bs" "good (h ! a)" "istop (h ! a) < 2 ^ 64" using r as by auto
  moreover have "unat (ilen (h ! a)) = isize (h ! a)" using calculation by (intro unat_ilen) linarith+
  ultimately show ?thesis using as by (simp add: unat_add_fits)
qed

lemma NextClock_correct: "store_ok s \<Longrightarrow> unat (NextClock s c) = run_end (heap s) 0 (items_of s c)"
  using run_stop_bound[OF store_okD[of s c]] by (auto simp: NextClock_def Let_def)

lemma run_covers: "run h c k as \<Longrightarrow> k \<le> n \<Longrightarrow> n < run_end h k as \<Longrightarrow> \<exists>a \<in> set as. istart (h ! a) \<le> n \<and> n < istop (h ! a)"
proof (induction as arbitrary: k)
  case (Cons a as)
  show ?case
  proof (cases "n < istop (h ! a)")
    case False
    then show ?thesis using Cons.IH[of "k + isize (h ! a)"] Cons.prems by auto
  qed (use Cons.prems in auto)
qed simp

lemma Find_iff_known: "store_ok s \<Longrightarrow> Find s i \<noteq> None \<longleftrightarrow> IdClock i < NextClock s (Client i)"
proof
  assume s: "store_ok s" and "Find s i \<noteq> None"
  then obtain a where "holds s i a" using Find_correct by fastforce
  then show "IdClock i < NextClock s (Client i)"
    using store_member(4)[OF s, of a "Client i"] NextClock_correct[OF s, of "Client i"] by (auto simp: holds_def word_less_nat_alt)
next
  assume s: "store_ok s" and "IdClock i < NextClock s (Client i)"
  then have "unat (IdClock i) < run_end (heap s) 0 (items_of s (Client i))" using NextClock_correct[OF s] by (simp add: word_less_nat_alt)
  then obtain a where "holds s i a" using run_covers[OF store_okD(1)[OF s]] by (auto simp: holds_def)
  then show "Find s i \<noteq> None" using Find_correct[OF s] by fastforce
qed

subsection \<open>Linked lists\<close>

text \<open>A segment of a list: it is entered through \<open>p\<close> from \<open>prev\<close>, and left through \<open>nxt\<close> from \<open>lst\<close>.\<close>

fun seg :: "Item list \<Rightarrow> iaddr option \<Rightarrow> iaddr option \<Rightarrow> iaddr list \<Rightarrow> iaddr option \<Rightarrow> iaddr option \<Rightarrow> bool" where
  "seg h prev p [] nxt lst \<longleftrightarrow> p = nxt \<and> prev = lst"
| "seg h prev p (a # xs) nxt lst \<longleftrightarrow> p = Some a \<and> a < length h \<and> Left (h ! a) = prev \<and> seg h (Some a) (Right (h ! a)) xs nxt lst"

lemma seg_append: "seg h prev p (xs @ ys) nxt lst \<longleftrightarrow> (\<exists>q m. seg h prev p xs q m \<and> seg h m q ys nxt lst)"
  by (induction xs arbitrary: prev p) auto

lemma seg_cong:
  assumes "\<And>a. a \<in> set xs \<Longrightarrow> a < length h \<Longrightarrow> a < length h' \<and> Left (h' ! a) = Left (h ! a) \<and> Right (h' ! a) = Right (h ! a)"
  shows "seg h prev p xs nxt lst \<Longrightarrow> seg h' prev p xs nxt lst"
  using assms by (induction xs arbitrary: prev p) auto

lemma seg_bounds: "seg h prev p xs nxt lst \<Longrightarrow> set xs \<subseteq> {..<length h}"
  by (induction xs arbitrary: prev p) auto

lemma seg_ends: "seg h prev p xs nxt lst \<Longrightarrow> lst = (if xs = [] then prev else Some (last xs)) \<and> p = (if xs = [] then nxt else Some (hd xs))"
  by (induction xs arbitrary: prev p) (auto split: if_splits)

lemma seg_det: "seg h prev p xs None lst \<Longrightarrow> seg h prev' p ys None lst' \<Longrightarrow> xs = ys"
proof (induction xs arbitrary: prev prev' p ys)
  case Nil
  then show ?case by (cases ys) auto
next
  case (Cons a xs)
  then show ?case by (cases ys) auto
qed

lemma seg_distinct: "seg h prev p xs None lst \<Longrightarrow> distinct xs"
proof (induction xs arbitrary: prev p)
  case (Cons a xs)
  have "a \<notin> set xs"
  proof
    assume "a \<in> set xs"
    then obtain us vs where xs: "xs = us @ a # vs" by (meson split_list)
    have r: "seg h (Some a) (Right (h ! a)) xs None lst" using Cons.prems by simp
    then obtain q m where "seg h m q (a # vs) None lst" unfolding xs seg_append by blast
    then have "seg h (Some a) (Right (h ! a)) vs None lst" by simp
    from seg_det[OF r this] show False using xs by simp
  qed
  then show ?case using Cons by auto
qed simp

fun rights :: "Item list \<Rightarrow> nat \<Rightarrow> iaddr option \<Rightarrow> iaddr list" where
  "rights h 0 p = []"
| "rights h (Suc n) p = (case p of None \<Rightarrow> [] | Some a \<Rightarrow> a # rights h n (Right (h ! a)))"

lemma rights_seg: "seg h prev p xs None lst \<Longrightarrow> length xs \<le> n \<Longrightarrow> rights h n p = xs"
proof (induction xs arbitrary: prev p n)
  case Nil
  then show ?case by (cases n) auto
next
  case (Cons a xs)
  then show ?case by (cases n) auto
qed

lemma seg_length: "seg h prev p xs None lst \<Longrightarrow> length xs \<le> length h"
  using seg_distinct[of h prev p xs lst] seg_bounds[of h prev p xs None lst]
  by (metis card_lessThan card_mono distinct_card finite_lessThan)

text \<open>The items of a type, from left to right.\<close>

definition listing :: "St \<Rightarrow> taddr \<Rightarrow> iaddr list" where
  "listing s t = rights (heap s) (length (heap s)) (t_start (ty s t))"

definition dll :: "St \<Rightarrow> taddr \<Rightarrow> iaddr list \<Rightarrow> bool" where
  "dll s t xs \<longleftrightarrow> (\<exists>lst. seg (heap s) None (t_start (ty s t)) xs None lst)"

lemma dll_distinct: "dll s t xs \<Longrightarrow> distinct xs"
  unfolding dll_def using seg_distinct by blast

lemma dll_bounds: "dll s t xs \<Longrightarrow> set xs \<subseteq> {..<length (heap s)}"
  unfolding dll_def using seg_bounds by blast

lemma dll_listing: "dll s t xs \<Longrightarrow> listing s t = xs"
  unfolding listing_def dll_def by (auto intro: rights_seg seg_length)

lemma dll_cong:
  "dll s t xs \<Longrightarrow> t_start (ty s' t') = t_start (ty s t) \<Longrightarrow>
   (\<And>a. a \<in> set xs \<Longrightarrow> a < length (heap s) \<Longrightarrow> a < length (heap s') \<and> Left (itm s' a) = Left (itm s a) \<and> Right (itm s' a) = Right (itm s a)) \<Longrightarrow>
   dll s' t' xs"
  unfolding dll_def using seg_cong[of xs "heap s" "heap s'"] by metis

definition lists_ok :: "St \<Rightarrow> bool" where
  "lists_ok s \<longleftrightarrow> (\<forall>t < length (types s). dll s t (listing s t) \<and> set (listing s t) = {a \<in> stored s. Parent (itm s a) = Some t}) \<and>
     (\<forall>a \<in> stored s. \<forall>t. Parent (itm s a) = Some t \<longrightarrow> t < length (types s))"

definition links_ok :: "St \<Rightarrow> bool" where
  "links_ok s \<longleftrightarrow> (\<forall>a \<in> stored s. \<forall>x. Right (itm s a) = Some x \<longrightarrow> x \<in> stored s \<and> x \<noteq> a \<and> Parent (itm s x) = Parent (itm s a))"

text \<open>The length of a type is what its live countable items occupy.\<close>

definition visible_len :: "Item \<Rightarrow> int" where
  "visible_len it = (if Deleted it \<or> \<not> IsCountable (ItemContent it) then 0 else ContentLen (ItemContent it))"

definition counts_ok :: "St \<Rightarrow> bool" where
  "counts_ok s \<longleftrightarrow> (\<forall>t < length (types s). t_length (ty s t) = (\<Sum>a\<leftarrow>listing s t. visible_len (itm s a)))"

text \<open>
  Types are nested without cycles: the container of an item is the item that holds the type it is in.  The entries of
  the map of a type are stored items.
\<close>

definition container :: "St \<Rightarrow> iaddr \<Rightarrow> iaddr option" where
  "container s a = (case Parent (itm s a) of None \<Rightarrow> None | Some t \<Rightarrow> t_item (ty s t))"

definition up :: "St \<Rightarrow> (iaddr \<times> iaddr) set" where
  "up s = {(a, b). a \<in> stored s \<and> container s a = Some b}"

definition nest_ok :: "St \<Rightarrow> bool" where
  "nest_ok s \<longleftrightarrow> (\<forall>a \<in> stored s. \<forall>t. ItemContent (itm s a) = ContentType (Some t) \<longrightarrow> t < length (types s)) \<and>
     (\<forall>t < length (types s). \<forall>a. t_item (ty s t) = Some a \<longrightarrow> a \<in> stored s \<and> ItemContent (itm s a) = ContentType (Some t)) \<and> acyclic (up s)"

definition entries_ok :: "St \<Rightarrow> bool" where
  "entries_ok s \<longleftrightarrow> (\<forall>t < length (types s). \<forall>k x. map_of (itemMap (ty s t)) k = Some x \<longrightarrow> x \<in> stored s)"

definition doc_ok :: "St \<Rightarrow> bool" where
  "doc_ok s \<longleftrightarrow> store_ok s \<and> lists_ok s \<and> links_ok s \<and> counts_ok s \<and> nest_ok s \<and> entries_ok s"

subsection \<open>Splitting\<close>

lemma upd_simps [simp]:
  "heap (upd a f s) = (heap s)[a := f (heap s ! a)]" "types (upd a f s) = types s" "clients (upd a f s) = clients s"
  "heap (updt t g s) = heap s" "types (updt t g s) = (types s)[t := g (types s ! t)]" "clients (updt t g s) = clients s"
  by (simp_all add: upd_def updt_def)

lemma when_some_simps [simp]: "when_some None f s = s" "when_some (Some x) f s = f x s"
  by (simp_all add: when_some_def)

text \<open>The types are only changed in their markers and map entries.\<close>

definition same_shape :: "St \<Rightarrow> St \<Rightarrow> bool" where
  "same_shape s s' \<longleftrightarrow> length (types s') = length (types s) \<and>
     (\<forall>t < length (types s). t_start (ty s' t) = t_start (ty s t) \<and> t_item (ty s' t) = t_item (ty s t) \<and>
        t_length (ty s' t) = t_length (ty s t) \<and> kind (ty s' t) = kind (ty s t) \<and> t_name (ty s' t) = t_name (ty s t))"

lemma map_list_put [simp]: "map_list (map_put k v m) = (map_list m)(k := v)"
  by (auto simp: map_list_def fun_eq_iff)

lemma insert_position:
  assumes r: "run h c k (us @ a # vs)" and e: "run_end h k (us @ a # vs) < 2 ^ 64"
    and n: "istart (h ! a) < unat n" "unat n \<le> istop (h ! a)"
  shows "sort_Search (length (us @ a # vs)) (\<lambda>j. iclock (h ! ((us @ a # vs) ! j)) \<ge> n) = Suc (length us)"
proof -
  let ?as = "us @ a # vs" and ?f = "\<lambda>j. iclock (h ! ((us @ a # vs) ! j)) \<ge> n"
  have up: "upward ?f 0 (length ?as)"
    unfolding upward_def
  proof (intro allI impI)
    fix x y assume xy: "0 \<le> x" "x \<le> y" "y < length ?as" "n \<le> iclock (h ! (?as ! x))"
    then show "n \<le> iclock (h ! (?as ! y))" using run_sorted[OF r, of x y] by (cases "x = y") (auto simp: word_le_nat_alt)
  qed
  note sp = sort_Search_spec[OF up]
  have at: "?as ! length us = a" by simp
  have 1: "\<not> ?f (length us)" using n(1) unfolding at by (simp add: word_le_nat_alt)
  have 2: "?f (Suc (length us))" if "vs \<noteq> []"
    using run_sorted[OF r, of "length us" "Suc (length us)"] that n(2) unfolding at by (simp add: word_le_nat_alt)
  let ?p = "sort_Search (length ?as) ?f"
  have "length us < ?p" using sp(3)[of "length us"] 1 by fastforce
  moreover have "?p \<le> Suc (length us)"
  proof (cases "vs = []")
    case True
    then show ?thesis using sp(1) by simp
  next
    case False
    then show ?thesis using sp(2)[of "Suc (length us)"] 2 by linarith
  qed
  ultimately show ?thesis by linarith
qed

text \<open>What a split leaves of the state.\<close>

definition split_of :: "St \<Rightarrow> iaddr \<Rightarrow> nat \<Rightarrow> St \<Rightarrow> bool" where
  "split_of s a k s' \<longleftrightarrow> (\<exists>l r us vs.
     Splice k (ItemContent (itm s a)) = Inr (l, r) \<and> length (heap s') = Suc (length (heap s)) \<and>
     itm s' a = (itm s a)\<lparr>ItemContent := l, Right := Some (length (heap s))\<rparr> \<and>
     itm s' (length (heap s)) = right_half (itm s a) a k r \<and>
     (\<forall>x < length (heap s). x \<noteq> a \<longrightarrow> itm s' x = (if Right (itm s a) = Some x then (itm s x)\<lparr>Left := Some (length (heap s))\<rparr> else itm s x)) \<and>
     items_of s (iclient (itm s a)) = us @ a # vs \<and>
     items_of s' = (items_of s)(iclient (itm s a) := us @ a # length (heap s) # vs) \<and>
     distinct (map fst (clients s')) \<and> same_shape s s' \<and>
     (\<forall>t < length (types s). \<forall>k. map_of (itemMap (ty s' t)) k =
        (if Parent (itm s a) = Some t \<and> ParentSub (itm s a) = Some k \<and> map_of (itemMap (ty s t)) k = Some a
         then Some (length (heap s)) else map_of (itemMap (ty s t)) k)))"

lemma same_shape_updt:
  "(\<And>y. t_start (f y) = t_start y \<and> t_item (f y) = t_item y \<and> t_length (f y) = t_length y \<and> kind (f y) = kind y \<and> t_name (f y) = t_name y) \<Longrightarrow>
   types s' = (types s)[t := f (ty s t)] \<Longrightarrow> same_shape s s'"
  by (cases "t < length (types s)") (simp_all add: same_shape_def nth_list_update list_update_beyond)

lemma same_shape_refl [simp]: "types s' = types s \<Longrightarrow> same_shape s s'"
  by (simp add: same_shape_def)

lemma same_shape_trans: "same_shape s s' \<Longrightarrow> same_shape s' s'' \<Longrightarrow> same_shape s s''"
  by (simp add: same_shape_def)

lemma clearMarkers_fields [simp]: "heap (clearMarkers t s) = heap s" "clients (clearMarkers t s) = clients s"
  by (simp_all add: clearMarkers_def)

lemma clearMarkers_shape [simp]: "same_shape s (clearMarkers t s)"
  unfolding clearMarkers_def by (rule same_shape_updt[where f = "\<lambda>y. y\<lparr>markers := []\<rparr>"]) simp_all

lemma rekey_fields [simp]: "heap (rekey it a b s) = heap s" "clients (rekey it a b s) = clients s"
  by (simp_all add: rekey_def split: option.splits)

lemma rekey_shape [simp]: "same_shape s (rekey it a b s)"
proof -
  have "same_shape s (updt t (\<lambda>y. y\<lparr>itemMap := map_put k b (itemMap y)\<rparr>) s)" for t k
    by (rule same_shape_updt[where f = "\<lambda>y. y\<lparr>itemMap := map_put k b (itemMap y)\<rparr>"]) simp_all
  then show ?thesis by (simp add: rekey_def split: option.splits)
qed

lemma nth_update_if: "xs[i := v] ! j = (if i = j \<and> j < length xs then v else xs ! j)"
  by (cases "i < length xs") (auto simp: nth_list_update list_update_beyond)

lemma rekey_map:
  "t < length (types s) \<Longrightarrow> map_of (itemMap (ty (rekey it a b s) t)) k =
     (if Parent it = Some t \<and> ParentSub it = Some k \<and> map_of (itemMap (ty s t)) k = Some a then Some b else map_of (itemMap (ty s t)) k)"
  by (auto simp: rekey_def nth_update_if split: option.splits)

lemma clearMarkers_map: "t < length (types s) \<Longrightarrow> itemMap (ty (clearMarkers p s) t) = itemMap (ty s t)"
  by (simp add: clearMarkers_def nth_update_if)

lemma good_splits:
  assumes "good it" "0 < k" "k < isize it"
  obtains l r where "Splice k (ItemContent it) = Inr (l, r)" "good (it\<lparr>ItemContent := l\<rparr>)" "good (it\<lparr>ItemContent := r\<rparr>)"
    "ContentLen l = int k" "ContentLen r = ContentLen (ItemContent it) - int k"
    "IsCountable l = IsCountable (ItemContent it)" "IsCountable r = IsCountable (ItemContent it)"
proof -
  have p: "content_ok (ItemContent it)" "splittable (ItemContent it)" "int k \<le> ContentLen (ItemContent it)"
    using assms splittable_long[of "ItemContent it"] by (auto simp: good_def isize_def)
  from Splice_result[OF this] obtain l r where "Splice k (ItemContent it) = Inr (l, r)" "content_ok l" "content_ok r" "splittable l" "splittable r"
    "ContentLen l = int k" "ContentLen r = ContentLen (ItemContent it) - int k"
    "IsCountable l = IsCountable (ItemContent it)" "IsCountable r = IsCountable (ItemContent it)" .
  moreover from this have "\<forall>n. l \<noteq> contentSkip n" "\<forall>n. r \<noteq> contentSkip n" by auto
  ultimately show ?thesis using assms that[of l r] by (auto simp: good_def isize_def)
qed

lemma insertItem_after:
  assumes "distinct (map fst (clients s))" "iclient (itm s b) = c" "items_of s c = us @ a # vs"
    "sort_Search (length (us @ a # vs)) (\<lambda>j. iclock (itm s ((us @ a # vs) ! j)) \<ge> iclock (itm s b)) = Suc (length us)"
  shows "insertItem b s = s\<lparr>clients := map_put c (us @ a # b # vs) (clients s)\<rparr>"
  unfolding insertItem_def Let_def assms(2,3,4) by simp

lemma splitItem_split_of:
  assumes "doc_ok s" "a \<in> stored s" "0 < k" "k < isize (itm s a)"
  shows "\<exists>s'. splitItem a k s = Inr (length (heap s), s') \<and> split_of s a k s'"
proof -
  have ok: "store_ok s" "links_ok s" using assms(1) by (auto simp: doc_ok_def)
  define c where "c = iclient (itm s a)"
  define b where "b = length (heap s)"
  have am: "a \<in> set (items_of s c)" using assms(2) stored_client[OF ok(1)] by (simp add: c_def)
  then obtain us vs where as: "items_of s c = us @ a # vs" by (meson split_list)
  note sm = store_member[OF ok(1) am]
  obtain l r where lr: "Splice k (ItemContent (itm s a)) = Inr (l, r)" "ContentLen l = int k"
    by (rule good_splits[OF sm(3) assms(3,4)]) blast
  have rt: "Right (itm s a) = Some x \<Longrightarrow> x < b \<and> x \<noteq> a" for x
    using ok(2) assms(2) store_member(1)[OF ok(1)] by (fastforce simp: links_ok_def stored_def b_def)
  define rh where "rh = right_half (itm s a) a k r"
  define s1 where "s1 = upd a (\<lambda>i. i\<lparr>Right := Some b\<rparr>) (when_some (Right (itm s a)) (\<lambda>x. upd x (\<lambda>i. i\<lparr>Left := Some b\<rparr>))
      ((upd a (\<lambda>i. i\<lparr>ItemContent := l\<rparr>) s)\<lparr>heap := heap (upd a (\<lambda>i. i\<lparr>ItemContent := l\<rparr>) s) @ [rh]\<rparr>))"
  have s1: "types s1 = types s" "clients s1 = clients s" "length (heap s1) = Suc b"
    by (auto simp: s1_def when_some_def b_def split: option.splits)
  have h: "itm s1 a = (itm s a)\<lparr>ItemContent := l, Right := Some b\<rparr>" "itm s1 b = rh"
    "\<forall>x < b. x \<noteq> a \<longrightarrow> itm s1 x = (if Right (itm s a) = Some x then (itm s x)\<lparr>Left := Some b\<rparr> else itm s x)"
    using rt sm(1) by (auto simp: s1_def when_some_def b_def nth_list_update nth_append split: option.splits)
  have clk: "iclient (itm s1 b) = c" "unat (iclock (itm s1 b)) = istart (itm s a) + k"
    using sm(5) assms(4) by (simp_all add: h rh_def right_half_def c_def unat_add_fits unat_of_nat)
  have "sort_Search (length (us @ a # vs)) (\<lambda>j. iclock (itm s1 ((us @ a # vs) ! j)) \<ge> iclock (itm s1 b)) =
      sort_Search (length (us @ a # vs)) (\<lambda>j. iclock (itm s ((us @ a # vs) ! j)) \<ge> iclock (itm s1 b))"
  proof (rule sort_Search_cong, intro allI impI)
    fix j assume "j < length (us @ a # vs)"
    then have "(us @ a # vs) ! j \<in> set (items_of s c)" unfolding as by (rule nth_mem)
    then have "(us @ a # vs) ! j < b" using store_member(1)[OF ok(1)] by (simp add: b_def)
    then show "(iclock (itm s1 b) \<le> iclock (itm s1 ((us @ a # vs) ! j))) = (iclock (itm s1 b) \<le> iclock (itm s ((us @ a # vs) ! j)))"
      using h(1,3) by (cases "(us @ a # vs) ! j = a") auto
  qed
  also have "\<dots> = Suc (length us)"
    using store_okD[OF ok(1), of c] assms(3,4) unfolding as by (intro insert_position) (auto simp: clk)
  finally have ins: "insertItem b s1 = s1\<lparr>clients := map_put c (us @ a # b # vs) (clients s1)\<rparr>"
    using as ok(1) s1 clk by (intro insertItem_after) (auto simp: store_ok_def)
  define s2 where "s2 = when_some (Parent (itm s a)) clearMarkers (rekey (itm s a) a b (insertItem b s1))"
  have s2: "heap s2 = heap s1" "clients s2 = map_put c (us @ a # b # vs) (clients s)" "same_shape s s2"
  proof -
    have "same_shape s (insertItem b s1)" by (simp add: ins s1(1))
    then have "same_shape s (rekey (itm s a) a b (insertItem b s1))" using same_shape_trans rekey_shape by blast
    then have "same_shape s s2" using same_shape_trans clearMarkers_shape unfolding s2_def when_some_def by (auto split: option.splits)
    then show "heap s2 = heap s1" "clients s2 = map_put c (us @ a # b # vs) (clients s)" "same_shape s s2"
      by (simp_all add: s2_def ins s1 when_some_def split: option.splits)
  qed
  have km: "map_of (itemMap (ty s2 t)) key = (if Parent (itm s a) = Some t \<and> ParentSub (itm s a) = Some key \<and>
      map_of (itemMap (ty s t)) key = Some a then Some b else map_of (itemMap (ty s t)) key)" if "t < length (types s)" for t key
  proof -
    have "length (types (rekey (itm s a) a b (insertItem b s1))) = length (types s)"
      using rekey_shape[of "insertItem b s1" "itm s a" a b] s1 by (simp add: same_shape_def ins)
    then have "itemMap (ty s2 t) = itemMap (ty (rekey (itm s a) a b (insertItem b s1)) t)"
      using that by (simp add: s2_def when_some_def clearMarkers_map split: option.splits)
    then show ?thesis using that s1(1) rekey_map[of t "insertItem b s1" "itm s a" a b key] by (simp add: ins)
  qed
  have "splitItem a k s = Inr (b, s2\<lparr>mergeStructs := mergeStructs s2 @ [b]\<rparr>)"
    by (simp add: splitItem_def lr(1) s2_def s1_def rh_def b_def Let_def)
  moreover have "split_of s a k (s2\<lparr>mergeStructs := mergeStructs s2 @ [b]\<rparr>)"
    unfolding split_of_def
    using lr(1) h s1(3) s2 km as ok(1) by (intro exI[of _ l] exI[of _ r] exI[of _ us] exI[of _ vs])
      (simp add: b_def c_def rh_def store_ok_def same_shape_def)
  ultimately show ?thesis by (auto simp: b_def)
qed

fun insert_after :: "'a \<Rightarrow> 'a \<Rightarrow> 'a list \<Rightarrow> 'a list" where
  "insert_after a b [] = []"
| "insert_after a b (x # xs) = (if x = a then x # b # xs else x # insert_after a b xs)"

lemma insert_after_split: "a \<notin> set us \<Longrightarrow> insert_after a b (us @ a # vs) = us @ a # b # vs"
  by (induction us) auto

lemma insert_after_other: "a \<notin> set xs \<Longrightarrow> insert_after a b xs = xs"
  by (induction xs) auto

text \<open>The identifiers of the units of an item, and of all items of a type from left to right.\<close>

definition unit_ids :: "Item \<Rightarrow> (ClientID \<times> nat) list" where
  "unit_ids it = map (\<lambda>k. (iclient it, istart it + k)) [0..<isize it]"

definition sequence :: "St \<Rightarrow> taddr \<Rightarrow> (ClientID \<times> nat) list" where
  "sequence s t = concat (map (\<lambda>a. unit_ids (itm s a)) (listing s t))"

lemma unit_ids_cong: "ItemID it' = ItemID it \<Longrightarrow> ItemContent it' = ItemContent it \<Longrightarrow> unit_ids it' = unit_ids it"
  by (simp add: unit_ids_def isize_def)

lemma doc_okD: "doc_ok s \<Longrightarrow> store_ok s" "doc_ok s \<Longrightarrow> lists_ok s" "doc_ok s \<Longrightarrow> links_ok s" "doc_ok s \<Longrightarrow> counts_ok s"
  "doc_ok s \<Longrightarrow> nest_ok s" "doc_ok s \<Longrightarrow> entries_ok s"
  by (simp_all add: doc_ok_def)

lemma parent_bound: "doc_ok s \<Longrightarrow> a \<in> stored s \<Longrightarrow> Parent (itm s a) = Some t \<Longrightarrow> t < length (types s)"
  unfolding doc_ok_def lists_ok_def by blast

lemma listing_iff: "doc_ok s \<Longrightarrow> t < length (types s) \<Longrightarrow> a \<in> set (listing s t) \<longleftrightarrow> a \<in> stored s \<and> Parent (itm s a) = Some t"
  unfolding doc_ok_def lists_ok_def by blast

lemma listing_dll: "doc_ok s \<Longrightarrow> t < length (types s) \<Longrightarrow> dll s t (listing s t)"
  unfolding doc_ok_def lists_ok_def by blast

lemma t_item_stored: "doc_ok s \<Longrightarrow> t < length (types s) \<Longrightarrow> t_item (ty s t) = Some a \<Longrightarrow> a \<in> stored s \<and> ItemContent (itm s a) = ContentType (Some t)"
  unfolding doc_ok_def nest_ok_def by blast

lemma stored_bound: "doc_ok s \<Longrightarrow> a \<in> stored s \<Longrightarrow> a < length (heap s)"
  using store_member(1) by (auto simp: doc_ok_def stored_def)

lemma stored_item:
  assumes "doc_ok s" "a \<in> stored s"
  shows "good (itm s a)" "istop (itm s a) < 2 ^ 64" "a \<in> set (items_of s (iclient (itm s a)))"
  using assms store_member(3,5) stored_client[of s a] by (auto simp: doc_ok_def)

text \<open>What both halves are.\<close>

lemma split_halves:
  assumes "doc_ok s" "a \<in> stored s" "0 < k" "k < isize (itm s a)" "split_of s a k s'"
  shows "good (itm s' a)" "good (itm s' (length (heap s)))" "ItemID (itm s' a) = ItemID (itm s a)" "isize (itm s' a) = k"
    "iclient (itm s' (length (heap s))) = iclient (itm s a)" "istart (itm s' (length (heap s))) = istart (itm s a) + k"
    "isize (itm s' (length (heap s))) = isize (itm s a) - k"
    "unit_ids (itm s' a) @ unit_ids (itm s' (length (heap s))) = unit_ids (itm s a)"
    "Parent (itm s' a) = Parent (itm s a)" "Parent (itm s' (length (heap s))) = Parent (itm s a)"
    "visible_len (itm s' a) + visible_len (itm s' (length (heap s))) = visible_len (itm s a)"
proof -
  note si = stored_item[OF assms(1,2)]
  obtain l r where lr: "Splice k (ItemContent (itm s a)) = Inr (l, r)" "good ((itm s a)\<lparr>ItemContent := l\<rparr>)" "good ((itm s a)\<lparr>ItemContent := r\<rparr>)"
    "ContentLen l = int k" "ContentLen r = ContentLen (ItemContent (itm s a)) - int k"
    "IsCountable l = IsCountable (ItemContent (itm s a))" "IsCountable r = IsCountable (ItemContent (itm s a))"
    by (rule good_splits[OF si(1) assms(3,4)])
  have h: "itm s' a = (itm s a)\<lparr>ItemContent := l, Right := Some (length (heap s))\<rparr>" "itm s' (length (heap s)) = right_half (itm s a) a k r"
    using assms(5) lr(1) by (auto simp: split_of_def)
  show g: "good (itm s' a)" "good (itm s' (length (heap s)))" "ItemID (itm s' a) = ItemID (itm s a)" "isize (itm s' a) = k"
    "iclient (itm s' (length (heap s))) = iclient (itm s a)"
    "Parent (itm s' a) = Parent (itm s a)" "Parent (itm s' (length (heap s))) = Parent (itm s a)"
    "visible_len (itm s' a) + visible_len (itm s' (length (heap s))) = visible_len (itm s a)"
    using lr(2-7) by (auto simp: h good_def isize_def right_half_def visible_len_def)
  show st: "istart (itm s' (length (heap s))) = istart (itm s a) + k"
    using si(2) assms(4) by (simp add: h right_half_def unat_add_fits unat_of_nat)
  show sz: "isize (itm s' (length (heap s))) = isize (itm s a) - k" using lr(5) by (simp add: h right_half_def isize_def nat_diff_distrib')
  have "[0..<isize (itm s a)] = [0..<k] @ map (\<lambda>j. j + k) [0..<isize (itm s a) - k]"
    using assms(4) upt_add_eq_append[of 0 k "isize (itm s a) - k"] by (simp add: map_add_upt)
  then show "unit_ids (itm s' a) @ unit_ids (itm s' (length (heap s))) = unit_ids (itm s a)"
    using g(3-5) st sz by (simp add: unit_ids_def add.assoc add.left_commute)
qed

lemma split_others:
  assumes "split_of s a k s'" "x < length (heap s)" "x \<noteq> a"
  shows "ItemID (itm s' x) = ItemID (itm s x)" "ItemContent (itm s' x) = ItemContent (itm s x)" "Right (itm s' x) = Right (itm s x)"
    "Parent (itm s' x) = Parent (itm s x)" "Deleted (itm s' x) = Deleted (itm s x)" "x < length (heap s')"
    "Right (itm s a) \<noteq> Some x \<Longrightarrow> itm s' x = itm s x"
  using assms by (auto simp: split_of_def split: if_splits)

lemma split_store_ok:
  assumes "doc_ok s" "a \<in> stored s" "0 < k" "k < isize (itm s a)" "split_of s a k s'"
  shows "store_ok s'" "stored s' = insert (length (heap s)) (stored s)"
    "run_end (heap s') 0 (items_of s' c) = run_end (heap s) 0 (items_of s c)"
proof -
  let ?c = "iclient (itm s a)" and ?b = "length (heap s)"
  note ok = doc_okD[OF assms(1)] and hv = split_halves[OF assms]
  obtain us vs where as: "items_of s ?c = us @ a # vs" "items_of s' = (items_of s)(?c := us @ a # ?b # vs)"
    using assms(5) by (auto simp: split_of_def)
  note so = store_okD[OF ok(1)]
  have cong: "x \<in> set xs \<Longrightarrow> x < ?b \<Longrightarrow> x < length (heap s') \<and> ItemID (itm s' x) = ItemID (itm s x) \<and> ItemContent (itm s' x) = ItemContent (itm s x)"
    if "a \<notin> set xs" for x xs using split_others[OF assms(5), of x] that by auto
  have R: "run (heap s') c 0 (items_of s' c) \<and> run_end (heap s') 0 (items_of s' c) = run_end (heap s) 0 (items_of s c)" for c
  proof (cases "c = ?c")
    case False
    have "a \<notin> set (items_of s c)" using False store_member(2)[OF ok(1)] by auto
    from cong[OF this] show ?thesis using False run_cong[of "items_of s c" "heap s" "heap s'"] so(1)[of c] as(2) by auto
  next
    case True
    have d: "a \<notin> set us" "a \<notin> set vs" using run_distinct[OF so(1)[of ?c]] as(1) by auto
    have r: "run (heap s) ?c 0 us" "run_end (heap s) 0 us = istart (itm s a)" "run (heap s) ?c (istop (itm s a)) vs" "a < ?b"
      using so(1)[of ?c] as(1) by auto
    have u: "run (heap s') ?c 0 us" "run_end (heap s') 0 us = istart (itm s a)"
      using run_cong[of us "heap s" "heap s'" ?c 0] cong[OF d(1)] r by auto
    have v: "run (heap s') ?c (istop (itm s a)) vs" "run_end (heap s') (istop (itm s a)) vs = run_end (heap s) (istop (itm s a)) vs"
      using run_cong[of vs "heap s" "heap s'" ?c "istop (itm s a)"] cong[OF d(2)] r by auto
    have l: "length (heap s') = Suc ?b" using assms(5) by (auto simp: split_of_def)
    show ?thesis using True as hv u v r l assms(4) by (simp add: add.assoc)
  qed
  moreover have "distinct (map fst (clients s'))" using assms(5) by (auto simp: split_of_def)
  ultimately show "store_ok s'" using so(2) by (simp add: store_ok_def)
  show "run_end (heap s') 0 (items_of s' c) = run_end (heap s) 0 (items_of s c)" using R by blast
  show "stored s' = insert ?b (stored s)"
  proof -
    have "set (items_of s' d) = (if d = ?c then insert ?b (set (items_of s d)) else set (items_of s d))" for d
      using as by auto
    then have "x \<in> stored s' \<longleftrightarrow> x = ?b \<or> x \<in> stored s" for x unfolding stored_def UN_iff by (metis UNIV_I insert_iff)
    then show ?thesis by auto
  qed
qed

lemma dll_split:
  assumes d: "dll s t (us @ a # vs)" and sp: "split_of s a k s'" and st: "t_start (ty s' t) = t_start (ty s t)"
  shows "dll s' t (us @ a # length (heap s) # vs)"
proof -
  let ?b = "length (heap s)" and ?p = "t_start (ty s t)"
  have dis: "a \<notin> set us" "a \<notin> set vs" "distinct (us @ a # vs)" using dll_distinct[OF d] by auto
  obtain q m lst where u: "seg (heap s) None ?p us q m" and av: "seg (heap s) m q (a # vs) None lst"
    using d by (auto simp: seg_append dll_def)
  have q: "q = Some a" and a: "a < ?b" "Left (itm s a) = m" and v: "seg (heap s) (Some a) (Right (itm s a)) vs None lst"
    using av by auto
  note so = split_others[OF sp]
  have ub: "set us \<subseteq> {..<?b}" "set vs \<subseteq> {..<?b}" using dll_bounds[OF d] by auto
  have rn: "Right (itm s a) \<noteq> Some x" if "x \<in> set us" for x
  proof
    assume "Right (itm s a) = Some x"
    then have "vs \<noteq> [] \<and> hd vs = x" using seg_ends[OF v] by (auto split: if_splits)
    then show False using that dis(3) by (cases vs) auto
  qed
  have fr: "x < length (heap s') \<and> Left (itm s' x) = Left (itm s x) \<and> Right (itm s' x) = Right (itm s x)"
    if "x \<in> set us \<union> set vs" "Right (itm s a) \<noteq> Some x" for x
    using so(6)[of x] so(7)[OF _ _ that(2)] that(1) dis ub by fastforce
  have u': "seg (heap s') None ?p us q m"
    by (rule seg_cong[OF _ u]) (use fr rn in blast)
  have v': "\<exists>lst. seg (heap s') (Some ?b) (Right (itm s a)) vs None lst"
  proof (cases vs)
    case Nil
    then show ?thesis using v by auto
  next
    case (Cons y ys)
    have y: "Right (itm s a) = Some y" "y < ?b" "y \<noteq> a" "y \<notin> set ys" and ys: "seg (heap s) (Some y) (Right (itm s y)) ys None lst"
      using v Cons dis by auto
    have "itm s' y = (itm s y)\<lparr>Left := Some ?b\<rparr>" using sp y by (auto simp: split_of_def)
    moreover have "seg (heap s') (Some y) (Right (itm s y)) ys None lst"
    proof (rule seg_cong[OF _ ys])
      fix x assume "x \<in> set ys"
      then have "x \<in> set us \<union> set vs" "Right (itm s a) \<noteq> Some x" using y Cons by auto
      then show "x < length (heap s') \<and> Left (itm s' x) = Left (itm s x) \<and> Right (itm s' x) = Right (itm s x)" by (rule fr)
    qed
    ultimately show ?thesis using y Cons so(6)[of y] by auto
  qed
  have h: "length (heap s') = Suc ?b" "Left (itm s' a) = m" "Right (itm s' a) = Some ?b" "Left (itm s' ?b) = Some a" "Right (itm s' ?b) = Right (itm s a)"
    using sp a by (auto simp: split_of_def right_half_def)
  have "\<exists>lst. seg (heap s') m q (a # ?b # vs) None lst" using v' h q a by auto
  then show ?thesis using u' st by (auto simp: seg_append dll_def)
qed

lemma dll_frame:
  assumes d: "dll s t xs" and sp: "split_of s a k s'" and st: "t_start (ty s' t) = t_start (ty s t)" and n: "a \<notin> set xs"
    and r: "\<forall>x \<in> set xs. Right (itm s a) \<noteq> Some x"
  shows "dll s' t xs"
proof (rule dll_cong[OF d st])
  fix x assume x: "x \<in> set xs" "x < length (heap s)"
  have "itm s' x = itm s x" by (rule split_others(7)[OF sp x(2)]) (use n r x(1) in auto)
  then show "x < length (heap s') \<and> Left (itm s' x) = Left (itm s x) \<and> Right (itm s' x) = Right (itm s x)"
    using split_others(6)[OF sp x(2)] n x(1) by auto
qed

lemma split_listing:
  assumes "doc_ok s" "a \<in> stored s" "0 < k" "k < isize (itm s a)" "split_of s a k s'" "t < length (types s)"
  shows "dll s' t (insert_after a (length (heap s)) (listing s t))" "listing s' t = insert_after a (length (heap s)) (listing s t)"
    "sequence s' t = sequence s t" "(\<Sum>x\<leftarrow>listing s' t. visible_len (itm s' x)) = (\<Sum>x\<leftarrow>listing s t. visible_len (itm s x))"
proof -
  let ?b = "length (heap s)"
  note ok = doc_okD[OF assms(1)] and hv = split_halves[OF assms(1-5)]
  have d: "dll s t (listing s t)" and m: "set (listing s t) = {x \<in> stored s. Parent (itm s x) = Some t}" using ok(2) assms(6) by (auto simp: lists_ok_def)
  have st: "t_start (ty s' t) = t_start (ty s t)" using assms(5,6) by (auto simp: split_of_def same_shape_def)
  show D: "dll s' t (insert_after a ?b (listing s t))"
  proof (cases "a \<in> set (listing s t)")
    case True
    then obtain us vs where xs: "listing s t = us @ a # vs" by (meson split_list)
    moreover have "a \<notin> set us" using dll_distinct[OF d] xs by auto
    ultimately show ?thesis using dll_split[OF d[unfolded xs] assms(5) st] by (simp add: insert_after_split)
  next
    case False
    then have "Right (itm s a) \<noteq> Some x" if "x \<in> set (listing s t)" for x
      using that m ok(3) assms(2) by (auto simp: links_ok_def)
    then show ?thesis using dll_frame[OF d assms(5) st False] False by (simp add: insert_after_other)
  qed
  then show L: "listing s' t = insert_after a ?b (listing s t)" by (rule dll_listing)
  have same: "unit_ids (itm s' x) = unit_ids (itm s x)" if "x \<in> set (listing s t)" "x \<noteq> a" for x
    using that m stored_bound[OF assms(1)] split_others(1,2)[OF assms(5), of x] by (auto intro: unit_ids_cong)
  have same': "visible_len (itm s' x) = visible_len (itm s x)" if "x \<in> set (listing s t)" "x \<noteq> a" for x
    using that m stored_bound[OF assms(1)] split_others(2,5)[OF assms(5), of x] by (auto simp: visible_len_def)
  show "(\<Sum>x\<leftarrow>listing s' t. visible_len (itm s' x)) = (\<Sum>x\<leftarrow>listing s t. visible_len (itm s x))"
  proof (cases "a \<in> set (listing s t)")
    case True
    then obtain us vs where xs: "listing s t = us @ a # vs" by (meson split_list)
    have n: "a \<notin> set us" "a \<notin> set vs" using dll_distinct[OF d] xs by auto
    then have e: "map (\<lambda>x. visible_len (itm s' x)) us = map (\<lambda>x. visible_len (itm s x)) us" "map (\<lambda>x. visible_len (itm s' x)) vs = map (\<lambda>x. visible_len (itm s x)) vs"
      using same' xs by auto
    show ?thesis unfolding L xs insert_after_split[OF n(1)] by (simp add: e hv(11)[symmetric])
  next
    case False
    have e: "map (\<lambda>x. visible_len (itm s' x)) (listing s t) = map (\<lambda>x. visible_len (itm s x)) (listing s t)" using same' False by auto
    show ?thesis using False by (simp add: L insert_after_other e)
  qed
  show "sequence s' t = sequence s t"
  proof (cases "a \<in> set (listing s t)")
    case True
    then obtain us vs where xs: "listing s t = us @ a # vs" by (meson split_list)
    have "a \<notin> set us" "a \<notin> set vs" using dll_distinct[OF d] xs by auto
    then have e: "map (\<lambda>x. unit_ids (itm s' x)) us = map (\<lambda>x. unit_ids (itm s x)) us" "map (\<lambda>x. unit_ids (itm s' x)) vs = map (\<lambda>x. unit_ids (itm s x)) vs"
      using same xs by auto
    show ?thesis using \<open>a \<notin> set us\<close> unfolding sequence_def L xs by (simp add: insert_after_split e hv(8)[symmetric])
  next
    case False
    have e: "map (\<lambda>x. unit_ids (itm s' x)) (listing s t) = map (\<lambda>x. unit_ids (itm s x)) (listing s t)" using same False by auto
    show ?thesis using False by (simp add: sequence_def L insert_after_other e)
  qed
qed

lemma set_insert_after: "set (insert_after a b xs) = (if a \<in> set xs then insert b (set xs) else set xs)"
  by (induction xs) auto

lemma split_links_ok:
  assumes "doc_ok s" "a \<in> stored s" "0 < k" "k < isize (itm s a)" "split_of s a k s'"
  shows "links_ok s'"
proof -
  let ?b = "length (heap s)"
  note ok = doc_okD[OF assms(1)] and hv = split_halves[OF assms] and st = split_store_ok[OF assms] and so = split_others[OF assms(5)]
  have b: "x \<in> stored s \<Longrightarrow> x < ?b" for x by (rule stored_bound[OF assms(1)])
  have par: "Parent (itm s' x) = Parent (itm s x)" if "x \<in> stored s" for x using that b[OF that] so(4)[of x] hv(9) by (cases "x = a") auto
  have old: "w \<in> stored s \<and> w \<noteq> z \<and> Parent (itm s w) = Parent (itm s z)" if "Right (itm s z) = Some w" "z \<in> stored s" for z w
    using ok(3) that unfolding links_ok_def by blast
  have ra: "Right (itm s' a) = Some ?b" "Right (itm s' ?b) = Right (itm s a)" using assms(5) by (auto simp: split_of_def right_half_def)
  have "y \<in> stored s' \<and> y \<noteq> x \<and> Parent (itm s' y) = Parent (itm s' x)" if x: "x \<in> stored s'" "Right (itm s' x) = Some y" for x y
  proof -
    have keep: "y \<in> stored s' \<and> Parent (itm s' y) = Parent (itm s y)" if "y \<in> stored s" using that par[OF that] st(2) by simp
    consider "x = ?b" | "x = a" | "x \<in> stored s" "x \<noteq> a" using x(1) st(2) by auto
    then show ?thesis
    proof cases
      case 1
      then have "Right (itm s a) = Some y" using x(2) ra(2) by simp
      from old[OF this assms(2)] have y: "y \<in> stored s" "Parent (itm s y) = Parent (itm s a)" by blast+
      then show ?thesis using 1 keep hv(10) b[OF y(1)] by simp
    next
      case 2
      then have "y = ?b" using x(2) ra(1) by simp
      then show ?thesis using 2 st(2) hv(9,10) b[OF assms(2)] by simp
    next
      case 3
      have "Right (itm s x) = Some y" using x(2) so(3)[OF b[OF 3(1)] 3(2)] by simp
      from old[OF this 3(1)] have y: "y \<in> stored s" "y \<noteq> x" "Parent (itm s y) = Parent (itm s x)" by blast+
      then show ?thesis using keep par[OF 3(1)] by simp
    qed
  qed
  then show ?thesis unfolding links_ok_def by blast
qed

lemma container_stored: "doc_ok s \<Longrightarrow> a \<in> stored s \<Longrightarrow> container s a = Some b \<Longrightarrow> b \<in> stored s"
  using parent_bound t_item_stored by (fastforce simp: container_def split: option.splits)

lemma split_nest_ok:
  assumes "doc_ok s" "a \<in> stored s" "0 < k" "k < isize (itm s a)" "split_of s a k s'"
  shows "nest_ok s'"
proof -
  let ?b = "length (heap s)"
  note ok = doc_okD[OF assms(1)] and hv = split_halves[OF assms] and st = split_store_ok[OF assms] and so = split_others[OF assms(5)]
  obtain l r where lr: "Splice k (ItemContent (itm s a)) = Inr (l, r)" "ItemContent (itm s' a) = l" "ItemContent (itm s' ?b) = r"
    using assms(5) by (auto simp: split_of_def right_half_def)
  have nt: "ItemContent (itm s a) \<noteq> ContentType x" "l \<noteq> ContentType x" "r \<noteq> ContentType x" for x
    using lr(1) by (auto split: prod.splits if_splits elim!: Splice.elims)
  have sh: "length (types s') = length (types s)" "t < length (types s) \<Longrightarrow> t_item (ty s' t) = t_item (ty s t)" for t
    using assms(5) by (auto simp: split_of_def same_shape_def)
  have b: "x \<in> stored s \<Longrightarrow> x < ?b" for x by (rule stored_bound[OF assms(1)])
  have ct: "x \<in> stored s' \<and> ItemContent (itm s' x) = ContentType (Some t) \<longleftrightarrow> x \<in> stored s \<and> ItemContent (itm s x) = ContentType (Some t)" for x t
    using st(2) so(2)[of x] b[of x] nt lr(2,3) by (cases "x = a"; cases "x = ?b") auto
  have con: "container s' x = container s x" if "x \<in> stored s" for x
  proof -
    have "Parent (itm s' x) = Parent (itm s x)" using that b[OF that] so(4)[of x] hv(9) by (cases "x = a") auto
    then show ?thesis using ok(2) that sh(2) by (auto simp: container_def lists_ok_def split: option.splits)
  qed
  have conb: "container s' ?b = container s a" using hv(10) ok(2) assms(2) sh(2) by (auto simp: container_def lists_ok_def split: option.splits)
  have "acyclic (up s')"
  proof (cases "container s a")
    case None
    then have "up s' = up s" unfolding up_def st(2) using con conb by auto
    then show ?thesis using ok(5) by (simp add: nest_ok_def)
  next
    case (Some c)
    then have u: "up s' = insert (?b, c) (up s)" unfolding up_def st(2) using con conb b by auto
    have "(c, ?b) \<notin> (up s)\<^sup>*"
    proof
      assume "(c, ?b) \<in> (up s)\<^sup>*"
      then have "?b \<in> stored s"
        using container_stored[OF assms(1)] container_stored[OF assms(1,2) Some]
        by (induction rule: rtrancl_induct) (auto simp: up_def)
      then show False using b by blast
    qed
    then show ?thesis using u ok(5) by (simp add: acyclic_insert nest_ok_def)
  qed
  moreover have "t < length (types s')" if "x \<in> stored s'" "ItemContent (itm s' x) = ContentType (Some t)" for x t
  proof -
    have "x \<in> stored s \<and> ItemContent (itm s x) = ContentType (Some t)" using ct[of x t] that by blast
    then show ?thesis using ok(5) sh(1) by (auto simp: nest_ok_def)
  qed
  moreover have "x \<in> stored s' \<and> ItemContent (itm s' x) = ContentType (Some t)" if "t < length (types s')" "t_item (ty s' t) = Some x" for x t
  proof -
    have "x \<in> stored s \<and> ItemContent (itm s x) = ContentType (Some t)" using ok(5) sh that by (auto simp: nest_ok_def)
    then show ?thesis using ct[of x t] by blast
  qed
  ultimately show ?thesis unfolding nest_ok_def by blast
qed

lemma split_entries_ok:
  assumes "doc_ok s" "a \<in> stored s" "0 < k" "k < isize (itm s a)" "split_of s a k s'"
  shows "entries_ok s'"
proof -
  have "length (types s') = length (types s)" using assms(5) by (auto simp: split_of_def same_shape_def)
  moreover have "x \<in> stored s'" if "t < length (types s)" "map_of (itemMap (ty s' t)) key = Some x" for t key x
  proof -
    have "map_of (itemMap (ty s t)) key = Some x \<or> x = length (heap s)" using assms(5) that by (auto simp: split_of_def split: if_splits)
    then show ?thesis using doc_okD(6)[OF assms(1)] that(1) split_store_ok(2)[OF assms] by (auto simp: entries_ok_def)
  qed
  ultimately show ?thesis by (simp add: entries_ok_def)
qed

lemma split_doc_ok:
  assumes "doc_ok s" "a \<in> stored s" "0 < k" "k < isize (itm s a)" "split_of s a k s'"
  shows "doc_ok s'"
proof -
  let ?b = "length (heap s)"
  note ok = doc_okD[OF assms(1)] and hv = split_halves[OF assms] and st = split_store_ok[OF assms] and so = split_others[OF assms(5)]
  have b: "x \<in> stored s \<Longrightarrow> x < ?b" for x by (rule stored_bound[OF assms(1)])
  have par: "Parent (itm s' x) = Parent (itm s x)" if "x \<in> stored s" for x using that b[OF that] so(4)[of x] hv(9) by (cases "x = a") auto
  have ty: "length (types s') = length (types s)" using assms(5) by (auto simp: split_of_def same_shape_def)
  have l1: "dll s' t (listing s' t) \<and> set (listing s' t) = {x \<in> stored s'. Parent (itm s' x) = Some t}" if "t < length (types s)" for t
  proof -
    note l = split_listing[OF assms that]
    have "set (listing s t) = {x \<in> stored s. Parent (itm s x) = Some t}" using ok(2) that by (auto simp: lists_ok_def)
    moreover have "{x \<in> stored s'. Parent (itm s' x) = Some t} =
        {x \<in> stored s. Parent (itm s x) = Some t} \<union> (if Parent (itm s a) = Some t then {?b} else {})"
    proof (rule set_eqI)
      fix x
      show "x \<in> {x \<in> stored s'. Parent (itm s' x) = Some t} \<longleftrightarrow>
          x \<in> {x \<in> stored s. Parent (itm s x) = Some t} \<union> (if Parent (itm s a) = Some t then {?b} else {})"
        using par[of x] hv(10) st(2) b[of x] by (cases "x = ?b") auto
    qed
    ultimately have "set (listing s' t) = {x \<in> stored s'. Parent (itm s' x) = Some t}"
      unfolding l(2) set_insert_after using assms(2) by auto
    then show ?thesis using l(1,2) by simp
  qed
  have l2: "t < length (types s')" if "x \<in> stored s'" "Parent (itm s' x) = Some t" for x t
  proof (cases "x = ?b")
    case True
    then show ?thesis using that hv(10) ok(2) assms(2) ty by (auto simp: lists_ok_def)
  next
    case False
    then have "x \<in> stored s" using that st(2) by simp
    then show ?thesis using that(2) par[of x] ok(2) ty by (simp add: lists_ok_def)
  qed
  have "lists_ok s'"
    unfolding lists_ok_def
  proof (rule conjI)
    show "\<forall>t < length (types s'). dll s' t (listing s' t) \<and> set (listing s' t) = {a \<in> stored s'. Parent (itm s' a) = Some t}"
      unfolding ty using l1 by blast
    show "\<forall>a \<in> stored s'. \<forall>t. Parent (itm s' a) = Some t \<longrightarrow> t < length (types s')" using l2 by blast
  qed
  moreover have "counts_ok s'"
    unfolding counts_ok_def ty
  proof (intro allI impI)
    fix t assume t: "t < length (types s)"
    then have "t_length (ty s' t) = t_length (ty s t)" using assms(5) by (auto simp: split_of_def same_shape_def)
    then show "t_length (ty s' t) = (\<Sum>x\<leftarrow>listing s' t. visible_len (itm s' x))"
      using doc_okD(4)[OF assms(1)] t split_listing(4)[OF assms t] by (simp add: counts_ok_def)
  qed
  ultimately show ?thesis using st(1) split_links_ok[OF assms] split_nest_ok[OF assms] split_entries_ok[OF assms] by (simp add: doc_ok_def)
qed

subsection \<open>States that differ by splits\<close>

definition same_head :: "Item \<Rightarrow> Item \<Rightarrow> bool" where
  "same_head it it' \<longleftrightarrow> ItemID it' = ItemID it \<and> Origin it' = Origin it \<and> OriginRight it' = OriginRight it \<and> Parent it' = Parent it \<and>
     ParentSub it' = ParentSub it \<and> (Deleted it \<longrightarrow> Deleted it') \<and> IsCountable (ItemContent it') = IsCountable (ItemContent it)"

definition refines :: "St \<Rightarrow> St \<Rightarrow> bool" where
  "refines s s' \<longleftrightarrow> doc_ok s' \<and> length (types s') = length (types s) \<and> (\<forall>t < length (types s). sequence s' t = sequence s t) \<and>
     (\<forall>c. NextClock s' c = NextClock s c) \<and> stored s \<subseteq> stored s' \<and> length (heap s) \<le> length (heap s') \<and>
     (\<forall>x < length (heap s). same_head (itm s x) (itm s' x))"

lemma refines_refl [simp]: "doc_ok s \<Longrightarrow> refines s s"
  by (simp add: refines_def same_head_def)

lemma refines_trans: "refines s s' \<Longrightarrow> refines s' s'' \<Longrightarrow> refines s s''"
proof -
  assume a: "refines s s'" and b: "refines s' s''"
  have "same_head (itm s x) (itm s'' x)" if "x < length (heap s)" for x
  proof -
    have "same_head (itm s x) (itm s' x)" "same_head (itm s' x) (itm s'' x)" using a b that by (auto simp: refines_def)
    then show ?thesis by (simp add: same_head_def)
  qed
  then show ?thesis using a b by (auto simp: refines_def)
qed

lemma refines_doc_ok: "refines s s' \<Longrightarrow> doc_ok s'"
  by (simp add: refines_def)

lemma split_refines:
  assumes "doc_ok s" "a \<in> stored s" "0 < k" "k < isize (itm s a)" "split_of s a k s'"
  shows "refines s s'"
proof -
  note ok = split_doc_ok[OF assms] and st = split_store_ok[OF assms] and hv = split_halves[OF assms] and si = stored_item[OF assms(1,2)]
  have "unat (NextClock s' c) = unat (NextClock s c)" for c
    using NextClock_correct doc_okD(1)[OF ok] doc_okD(1)[OF assms(1)] st(3) by simp
  then have n: "NextClock s' c = NextClock s c" for c by (simp add: word_unat_eq_iff)
  obtain l r where lr: "Splice k (ItemContent (itm s a)) = Inr (l, r)" "IsCountable l = IsCountable (ItemContent (itm s a))"
    by (rule good_splits[OF si(1) assms(3,4)])
  have "itm s' a = (itm s a)\<lparr>ItemContent := l, Right := Some (length (heap s))\<rparr>" using assms(5) lr(1) by (auto simp: split_of_def)
  then have "same_head (itm s a) (itm s' a)" using lr(2) by (simp add: same_head_def)
  moreover have "same_head (itm s x) (itm s' x)" if "x < length (heap s)" "x \<noteq> a" for x
    using assms(5) that by (auto simp: split_of_def same_head_def split: if_splits)
  ultimately have h: "\<forall>x < length (heap s). same_head (itm s x) (itm s' x)" by blast
  have "length (types s') = length (types s)" "length (heap s') = Suc (length (heap s))" using assms(5) by (auto simp: split_of_def same_shape_def)
  then show ?thesis using ok n h st(2) split_listing(3)[OF assms] by (auto simp: refines_def)
qed

lemma splitItem_refines:
  assumes "doc_ok s" "a \<in> stored s" "0 < k" "k < isize (itm s a)"
  obtains s' where "splitItem a k s = Inr (length (heap s), s')" "split_of s a k s'" "refines s s'"
  using splitItem_split_of[OF assms] split_refines[OF assms] by blast

subsection \<open>What a cut leaves unchanged\<close>

text \<open>The units of a type with whether they are deleted.\<close>

definition flagged :: "St \<Rightarrow> taddr \<Rightarrow> ((ClientID \<times> nat) \<times> bool) list" where
  "flagged s t = concat (map (\<lambda>x. map (\<lambda>u. (u, Deleted (itm s x))) (unit_ids (itm s x))) (listing s t))"

text \<open>A text is cut between two of its characters; other contents may be cut anywhere.\<close>

definition at_boundary :: "nat \<Rightarrow> content \<Rightarrow> bool" where
  "at_boundary k c \<longleftrightarrow> (case c of ContentString str n \<Rightarrow> \<exists>u v. str = u @ v \<and> valid_utf8 u \<and> valid_utf8 v \<and> utf16Len u = k | _ \<Rightarrow> True)"

lemma boundary_merge: "at_boundary k c \<Longrightarrow> Splice k c = Inr (l, r) \<Longrightarrow> mergeContent l r = Some c"
proof (rule Splice_merge)
  assume "at_boundary k c"
  then show "\<not> cuts_pair k c" using cuts_pair_boundary by (cases c) (auto simp: at_boundary_def, auto simp: cuts_pair_def)
qed

text \<open>At most the given item is cut: the right half is a new item, and unless a character is cut the halves make up the content.\<close>

definition cut :: "St \<Rightarrow> iaddr \<Rightarrow> St \<Rightarrow> bool" where
  "cut s a s' \<longleftrightarrow> doc_ok s' \<and> (\<forall>c. NextClock s' c = NextClock s c) \<and> (\<forall>t < length (types s). flagged s' t = flagged s t) \<and>
     (\<forall>x \<in> stored s - {a}. ItemContent (itm s' x) = ItemContent (itm s x)) \<and>
     (s' = s \<or> (\<exists>k l r. Splice k (ItemContent (itm s a)) = Inr (l, r) \<and> ItemContent (itm s' a) = l \<and> stored s' = insert (length (heap s)) (stored s) \<and>
        Right (itm s' a) = Some (length (heap s)) \<and> ItemContent (itm s' (length (heap s))) = r \<and>
        (at_boundary k (ItemContent (itm s a)) \<longrightarrow> mergeContent l r = Some (ItemContent (itm s a)))))"

lemma split_flagged:
  assumes "doc_ok s" "a \<in> stored s" "0 < k" "k < isize (itm s a)" "split_of s a k s'" "t < length (types s)"
  shows "flagged s' t = flagged s t"
proof -
  let ?f = "\<lambda>s x. map (\<lambda>u. (u, Deleted (itm s x))) (unit_ids (itm s x))"
  note hv = split_halves[OF assms(1-5)] and L = split_listing(2)[OF assms] and d = listing_dll[OF assms(1,6)]
  have same: "?f s' x = ?f s x" if "x \<in> set (listing s t)" "x \<noteq> a" for x
    using that dll_bounds[OF d] split_others(1,2,5)[OF assms(5), of x] unit_ids_cong[of "itm s' x" "itm s x"] by auto
  have del: "Deleted (itm s' a) = Deleted (itm s a)" "Deleted (itm s' (length (heap s))) = Deleted (itm s a)"
    using assms(5) by (auto simp: split_of_def right_half_def)
  show ?thesis
  proof (cases "a \<in> set (listing s t)")
    case True
    then obtain us vs where xs: "listing s t = us @ a # vs" by (meson split_list)
    have n: "a \<notin> set us" "a \<notin> set vs" using dll_distinct[OF d] xs by auto
    then have e: "map (?f s') us = map (?f s) us" "map (?f s') vs = map (?f s) vs" using same xs by auto
    have "?f s' a @ ?f s' (length (heap s)) = ?f s a" unfolding del map_append[symmetric] hv(8) ..
    then show ?thesis unfolding flagged_def L xs insert_after_split[OF n(1)] by (simp add: e)
  next
    case False
    have "?f s' x = ?f s x" if "x \<in> set (listing s t)" for x by (rule same[OF that]) (use False that in blast)
    then have e: "map (?f s') (listing s t) = map (?f s) (listing s t)" by (rule map_cong[OF refl])
    show ?thesis unfolding flagged_def L insert_after_other[OF False] e ..
  qed
qed

lemma split_cut:
  assumes "doc_ok s" "a \<in> stored s" "0 < k" "k < isize (itm s a)" "split_of s a k s'"
  shows "cut s a s'"
proof -
  obtain l r where lr: "Splice k (ItemContent (itm s a)) = Inr (l, r)" "itm s' a = (itm s a)\<lparr>ItemContent := l, Right := Some (length (heap s))\<rparr>"
      "itm s' (length (heap s)) = right_half (itm s a) a k r"
    using assms(5) by (auto simp: split_of_def)
  have "\<forall>x \<in> stored s - {a}. ItemContent (itm s' x) = ItemContent (itm s x)"
    using split_others(2)[OF assms(5)] stored_bound[OF assms(1)] by auto
  moreover have "ItemContent (itm s' a) = l" "Right (itm s' a) = Some (length (heap s))" "ItemContent (itm s' (length (heap s))) = r"
    using lr(2,3) by (simp_all add: right_half_def)
  ultimately show ?thesis using split_refines[OF assms] split_flagged[OF assms] split_store_ok(2)[OF assms] lr(1) boundary_merge[OF _ lr(1)]
    unfolding cut_def refines_def by blast
qed

lemma cut_refl: "doc_ok s \<Longrightarrow> cut s a s"
  by (simp add: cut_def)

lemma find_stored: "doc_ok s \<Longrightarrow> Find s i = Some a \<Longrightarrow> a \<in> stored s \<and> iclient (itm s a) = Client i \<and> holds s i a"
  using Find_correct store_member(2) by (auto simp: doc_ok_def holds_def stored_def)

lemma getItemCleanStart_cut:
  assumes "doc_ok s" "Find s i = Some a"
  obtains b s' where "getItemCleanStart i s = Inr (Some b, s')" "refines s s'" "b \<in> stored s'" "ItemID (itm s' b) = i" "cut s a s'"
proof -
  have f: "a \<in> stored s" "iclient (itm s a) = Client i" "holds s i a" using find_stored[OF assms] by auto
  then have h: "istart (itm s a) \<le> unat (IdClock i)" "unat (IdClock i) < istop (itm s a)" by (auto simp: holds_def)
  show thesis
  proof (cases "iclock (itm s a) = IdClock i")
    case True
    then show ?thesis using that[of a s] assms f by (simp add: getItemCleanStart_def cut_refl)
  next
    case False
    then have lt: "istart (itm s a) < unat (IdClock i)" using h(1) by (auto simp: word_unat_eq_iff)
    define k where "k = unat (IdClock i - iclock (itm s a))"
    have k: "k = unat (IdClock i) - istart (itm s a)" using lt by (simp add: k_def unat_sub word_le_nat_alt)
    have kk: "0 < k" "k < isize (itm s a)" using lt h by (auto simp: k)
    obtain s' where s': "splitItem a k s = Inr (length (heap s), s')" "split_of s a k s'" "refines s s'"
      by (rule splitItem_refines[OF assms(1) f(1) kk])
    note hv = split_halves[OF assms(1) f(1) kk s'(2)]
    have "\<not> IdClock i < iclock (itm s a)" using lt by (simp add: word_less_nat_alt)
    then have g: "getItemCleanStart i s = Inr (Some (length (heap s)), s')"
      using assms(2) False s'(1) by (simp add: getItemCleanStart_def k_def)
    have "IdClock (ItemID (itm s' (length (heap s)))) = IdClock i"
      using hv(6) k lt by (simp add: word_unat_eq_iff)
    then have "ItemID (itm s' (length (heap s))) = i" using hv(5) f(2) by simp
    then show ?thesis using that[OF g s'(3)] split_store_ok(2)[OF assms(1) f(1) kk s'(2)] split_cut[OF assms(1) f(1) kk s'(2)] by simp
  qed
qed

lemma getItemCleanStart_correct:
  assumes "doc_ok s" "Find s i = Some a"
  obtains b s' where "getItemCleanStart i s = Inr (Some b, s')" "refines s s'" "b \<in> stored s'" "ItemID (itm s' b) = i"
  by (rule getItemCleanStart_cut[OF assms]) (rule that)

lemma getItemCleanEnd_cut:
  assumes "doc_ok s" "Find s \<lparr>Client = c, IdClock = clk\<rparr> = Some a"
  obtains s' where "getItemCleanEnd c clk s = Inr (Some a, s')" "refines s s'" "a \<in> stored s'" "iclient (itm s' a) = c"
    "istop (itm s' a) = unat clk + 1" "cut s a s'"
proof -
  have f: "a \<in> stored s" "iclient (itm s a) = c" "holds s \<lparr>Client = c, IdClock = clk\<rparr> a" using find_stored[OF assms] by auto
  then have h: "istart (itm s a) \<le> unat clk" "unat clk < istop (itm s a)" and am: "a \<in> set (items_of s c)" by (auto simp: holds_def)
  note sm = store_member[OF doc_okD(1)[OF assms(1)] am]
  have e: "unat (iclock (itm s a) + ilen (itm s a) - 1) = istop (itm s a) - 1"
    using sm(7) good_size[OF sm(3)] by (subst unat_sub) (auto simp: word_le_nat_alt)
  show thesis
  proof (cases "iclock (itm s a) + ilen (itm s a) - 1 = clk")
    case True
    then have "istop (itm s a) = unat clk + 1" using e h by auto
    then show ?thesis using that[of s] True assms f by (simp add: getItemCleanEnd_def cut_refl)
  next
    case False
    have lt: "unat clk < istop (itm s a) - 1" using False e h(2) unfolding word_unat_eq_iff by linarith
    define k where "k = unat (clk - iclock (itm s a) + 1)"
    have d: "unat (clk - iclock (itm s a)) = unat clk - istart (itm s a)" using h(1) by (simp add: unat_sub word_le_nat_alt)
    have k: "k = unat clk - istart (itm s a) + 1" using d lt sm(5) unfolding k_def by (subst unat_add_fits) simp_all
    have kk: "0 < k" "k < isize (itm s a)" using lt h by (auto simp: k)
    obtain s' where s': "splitItem a k s = Inr (length (heap s), s')" "split_of s a k s'" "refines s s'"
      by (rule splitItem_refines[OF assms(1) f(1) kk])
    note hv = split_halves[OF assms(1) f(1) kk s'(2)]
    have "\<not> clk < iclock (itm s a)" using h(1) by (simp add: word_less_nat_alt)
    then have g: "getItemCleanEnd c clk s = Inr (Some a, s')" using assms(2) False s'(1) by (simp add: getItemCleanEnd_def k_def)
    show ?thesis using that[OF g s'(3)] split_store_ok(2)[OF assms(1) f(1) kk s'(2)] split_cut[OF assms(1) f(1) kk s'(2)] hv(3,4) f(1,2) k h(1) by simp
  qed
qed

lemma getItemCleanEnd_correct:
  assumes "doc_ok s" "Find s \<lparr>Client = c, IdClock = clk\<rparr> = Some a"
  obtains s' where "getItemCleanEnd c clk s = Inr (Some a, s')" "refines s s'" "a \<in> stored s'" "iclient (itm s' a) = c"
    "istop (itm s' a) = unat clk + 1"
  by (rule getItemCleanEnd_cut[OF assms]) (rule that)

subsection \<open>Properties\<close>

definition new_state :: "Item list \<Rightarrow> abstractType list \<Rightarrow> (ClientID \<times> iaddr list) list \<Rightarrow> St" where
  "new_state h ts cl = \<lparr>heap = h, types = ts, docs = [], clients = cl, pending = None, pendingDs = newDeleteSet, pendingMoves = [],
     Local = False, deleteSet = newOrderedDeleteSet, changed = {}, newItems = [], mergeStructs = [], rearbitrate = [], movedBefore = [],
     subdocsAdded = {}, subdocsRemoved = {}, subdocsLoaded = {}\<rparr>"

definition plain_item :: "ClientID \<Rightarrow> u64 \<Rightarrow> ID option \<Rightarrow> ID option \<Rightarrow> taddr \<Rightarrow> content \<Rightarrow> Item" where
  "plain_item c k l r p ct = \<lparr>ItemID = \<lparr>Client = c, IdClock = k\<rparr>, Origin = l, OriginRight = r, Left = None, Right = None, Parent = Some p,
     ParentSub = None, ItemContent = ct, Deleted = False, parentID = None, MovedBy = None, redone = None\<rparr>"

text \<open>A text with the single run abc, typed by client 1.\<close>

definition abc_doc :: St where
  "abc_doc = new_state [plain_item 1 0 None None 0 (ContentString [0x61, 0x62, 0x63] 3)]
     [(new_type YText)\<lparr>t_start := Some 0, t_length := 3, t_name := [0x74]\<rparr>] [(1, [0])]"

lemma abc_parts [simp]:
  "heap abc_doc = [plain_item 1 0 None None 0 (ContentString [0x61, 0x62, 0x63] 3)]" "length (types abc_doc) = 1"
  "items_of abc_doc c = (if c = 1 then [0] else [])" "t_start (ty abc_doc 0) = Some 0" "t_length (ty abc_doc 0) = 3"
  "distinct (map fst (clients abc_doc))"
  by (simp_all add: abc_doc_def new_state_def map_list_def new_type_def)

lemma abc_len: "utf16Len [0x61, 0x62, 0x63] = 3" "valid_utf8 [0x61, 0x62, 0x63]"
  by (simp_all add: utf16Len.simps valid_utf8.simps utf8_eval)

lemma abc_ok: "doc_ok abc_doc" "stored abc_doc = {0}" "isize (itm abc_doc 0) = 3"
proof -
  have g: "good (plain_item 1 0 None None 0 (ContentString [0x61, 0x62, 0x63] 3))"
    by (simp add: good_def plain_item_def abc_len)
  have s: "store_ok abc_doc" using g by (simp add: store_ok_def plain_item_def isize_def)
  show st: "stored abc_doc = {0}" by (auto simp: stored_def split: if_splits)
  have d: "dll abc_doc 0 [0]" by (simp add: dll_def plain_item_def)
  then have l: "listing abc_doc 0 = [0]" by (rule dll_listing)
  have e: "{a \<in> stored abc_doc. Parent (itm abc_doc a) = Some 0} = {0}" unfolding st by (auto simp: plain_item_def)
  have "lists_ok abc_doc" unfolding lists_ok_def using d l st e by (simp add: plain_item_def)
  moreover have "links_ok abc_doc" by (simp add: links_ok_def st plain_item_def)
  moreover have "counts_ok abc_doc" using l by (simp add: counts_ok_def visible_len_def plain_item_def)
  moreover have t: "t_item (ty abc_doc 0) = None" "itemMap (ty abc_doc 0) = []" by (simp_all add: abc_doc_def new_state_def new_type_def)
  have "container abc_doc 0 = None" using t by (simp add: container_def plain_item_def)
  then have "(x, y) \<notin> up abc_doc" for x y by (cases "x = 0") (simp_all add: up_def st)
  then have "up abc_doc = {}" by auto
  then have "nest_ok abc_doc" using t by (simp add: nest_ok_def st plain_item_def acyclic_def)
  moreover have "entries_ok abc_doc" using t by (simp add: entries_ok_def)
  ultimately show "doc_ok abc_doc" using s by (simp add: doc_ok_def)
  show "isize (itm abc_doc 0) = 3" by (simp add: isize_def plain_item_def)
qed

text \<open>
  C11: the binary search of the store is exact: it finds the item that holds an identifier, and finds one just when the
  clock is below the next clock of the client.
\<close>

theorem store_find_exact:
  assumes "doc_ok s"
  shows "(Find s i = Some a \<longleftrightarrow> holds s i a) \<and> (Find s i \<noteq> None \<longleftrightarrow> IdClock i < NextClock s (Client i))"
  using Find_correct Find_iff_known doc_okD(1)[OF assms] by blast

theorem store_find_exact_witness: "Find abc_doc \<lparr>Client = 1, IdClock = 2\<rparr> = Some 0"
  using store_find_exact[OF abc_ok(1), of "\<lparr>Client = 1, IdClock = 2\<rparr>" 0] by (simp add: holds_def isize_def plain_item_def)

text \<open>
  C10: splitting a stored item strictly inside its run never panics and does not change the document: it stays well
  formed, every type keeps its sequence of unit identifiers and its length, and the two halves share the run.
\<close>

theorem split_preserves_document:
  assumes "doc_ok s" "a \<in> stored s" "0 < k" "k < isize (itm s a)"
  shows "\<exists>b s'. splitItem a k s = Inr (b, s') \<and> doc_ok s' \<and> same_shape s s' \<and> (\<forall>t < length (types s). sequence s' t = sequence s t) \<and>
    isize (itm s' a) = k \<and> unit_ids (itm s' a) @ unit_ids (itm s' b) = unit_ids (itm s a)"
proof -
  obtain s' where s': "splitItem a k s = Inr (length (heap s), s')" "split_of s a k s'" by (rule splitItem_refines[OF assms])
  have "same_shape s s'" using s'(2) by (auto simp: split_of_def)
  then show ?thesis using s' split_doc_ok[OF assms s'(2)] split_listing(3)[OF assms s'(2)] split_halves(4,8)[OF assms s'(2)] by blast
qed

theorem split_preserves_document_witness:
  "\<exists>b s'. splitItem 0 2 abc_doc = Inr (b, s') \<and> doc_ok s' \<and> sequence s' 0 = sequence abc_doc 0"
  using split_preserves_document[of abc_doc 0 2] abc_ok by auto

text \<open>
  C21: for a known identifier the clean start is an item that starts with it and the clean end an item that ends with it.
  Asking for either cuts at most the item that holds the identifier: the document stays well formed, no type changes its
  units, their order or which of them are deleted, no clock changes and no other item its content.  The halves of
  a cut item make up its content, unless the cut is inside a character of a text, which \<open>Splice\<close> replaces on both sides.
\<close>

theorem clean_boundaries:
  assumes "doc_ok s" "IdClock i < NextClock s (Client i)"
  shows "\<exists>a. Find s i = Some a \<and>
    (\<exists>b s'. getItemCleanStart i s = Inr (Some b, s') \<and> cut s a s' \<and> ItemID (itm s' b) = i) \<and>
    (\<exists>s'. getItemCleanEnd (Client i) (IdClock i) s = Inr (Some a, s') \<and> cut s a s' \<and> iclient (itm s' a) = Client i \<and>
       istop (itm s' a) = unat (IdClock i) + 1)"
proof -
  obtain a where a: "Find s i = Some a" using Find_iff_known[OF doc_okD(1)[OF assms(1)], of i] assms(2) by auto
  have i: "Find s \<lparr>Client = Client i, IdClock = IdClock i\<rparr> = Some a" using a by (cases i) simp
  obtain b s1 where "getItemCleanStart i s = Inr (Some b, s1)" "cut s a s1" "ItemID (itm s1 b) = i"
    by (rule getItemCleanStart_cut[OF assms(1) a])
  moreover obtain s2 where "getItemCleanEnd (Client i) (IdClock i) s = Inr (Some a, s2)" "cut s a s2" "iclient (itm s2 a) = Client i"
    "istop (itm s2 a) = unat (IdClock i) + 1"
    by (rule getItemCleanEnd_cut[OF assms(1) i])
  ultimately show ?thesis using a by blast
qed

theorem clean_boundaries_witness:
  "\<exists>b s'. getItemCleanStart \<lparr>Client = 1, IdClock = 2\<rparr> abc_doc = Inr (Some b, s') \<and> ItemID (itm s' b) = \<lparr>Client = 1, IdClock = 2\<rparr>"
proof -
  have "NextClock abc_doc 1 = 3" by (simp add: NextClock_def ilen_def plain_item_def)
  then have "IdClock \<lparr>Client = 1, IdClock = 2\<rparr> < NextClock abc_doc (Client \<lparr>Client = 1, IdClock = 2\<rparr>)" by simp
  from clean_boundaries[OF abc_ok(1) this] show ?thesis by blast
qed

end
