(* ===== verification/Integrate.thy ===== *)
theory Integrate
  imports Struct_Store
begin

text \<open>
  Integration and deletion of items: \<^verbatim>\<open>src/crdt/item.go\<close>, with the maintenance of the search markers in
  \<^verbatim>\<open>src/crdt/search_marker.go\<close> that it calls and the bookkeeping of \<^verbatim>\<open>src/crdt/transaction.go\<close>.  A loop that follows
  pointers takes fuel; with the fuel that the callers pass, one step for every item of the heap, it ends in every
  well-formed state.
\<close>

subsection \<open>Bookkeeping of the transaction\<close>

definition addChanged :: "taddr \<Rightarrow> gostring \<Rightarrow> St \<Rightarrow> St" where
  "addChanged t key s = s\<lparr>changed := insert (t, key) (changed s)\<rparr>"

definition addSubdocAdded :: "daddr \<Rightarrow> St \<Rightarrow> St" where
  "addSubdocAdded d s = s\<lparr>subdocsAdded := insert d (subdocsAdded s)\<rparr>"

definition addSubdocLoaded :: "daddr \<Rightarrow> St \<Rightarrow> St" where
  "addSubdocLoaded d s = s\<lparr>subdocsLoaded := insert d (subdocsLoaded s)\<rparr>"

definition addSubdocRemoved :: "daddr \<Rightarrow> St \<Rightarrow> St" where
  "addSubdocRemoved d s = s\<lparr>subdocsRemoved := insert d (subdocsRemoved s)\<rparr>"

definition parentSubKey :: "gostring option \<Rightarrow> gostring" where
  "parentSubKey k = (case k of None \<Rightarrow> [] | Some k \<Rightarrow> k)"

text \<open>Two nullable keys, and two nullable identifiers, are compared by value.\<close>

abbreviation parentSubEqual :: "gostring option \<Rightarrow> gostring option \<Rightarrow> bool" where
  "parentSubEqual a b \<equiv> a = b"

abbreviation originIDEquals :: "ID option \<Rightarrow> ID option \<Rightarrow> bool" where
  "originIDEquals a b \<equiv> a = b"

definition invalidateFirstLiveCache :: "taddr \<Rightarrow> St \<Rightarrow> St" where
  "invalidateFirstLiveCache t s = updt t (\<lambda>y. y\<lparr>firstLiveCache := None\<rparr>) s"

text \<open>Markers with a nil item do not occur: \<open>markPosition\<close> is given an item of the list.\<close>

definition updateMarkerChanges :: "taddr \<Rightarrow> int \<Rightarrow> int \<Rightarrow> St \<Rightarrow> St" where
  "updateMarkerChanges t index delta s = updt t (\<lambda>y. y\<lparr>markers :=
     map (\<lambda>m. if index \<le> m_index m then m\<lparr>m_index := max index (m_index m + delta)\<rparr> else m)
       (filter (\<lambda>m. \<not> Deleted (itm s (m_item m))) (markers y))\<rparr>) s"

definition dropUncountedMarkersAt :: "taddr \<Rightarrow> int \<Rightarrow> St \<Rightarrow> St" where
  "dropUncountedMarkersAt t index s = updt t (\<lambda>y. y\<lparr>markers :=
     filter (\<lambda>m. \<not> (m_index m = index \<and> \<not> IsCountable (ItemContent (itm s (m_item m))))) (markers y)\<rparr>) s"

subsection \<open>Deletion\<close>

definition rearbitrateMove :: "iaddr \<Rightarrow> ID option \<Rightarrow> St \<Rightarrow> St" where
  "rearbitrateMove move target_id s =
     (case target_id of None \<Rightarrow> s
      | Some i \<Rightarrow>
         (case Find s i of None \<Rightarrow> s
          | Some target \<Rightarrow>
             if MovedBy (itm s target) \<noteq> Some move then s
             else let s = setMovedBy target None s
                  in (case Parent (itm s move) of None \<Rightarrow> s
                      | Some p \<Rightarrow> s\<lparr>rearbitrate := map_put p (List.insert target (map_list (rearbitrate s) p)) (rearbitrate s)\<rparr>)))"

text \<open>The first live item on the right of an item, itself included.\<close>

fun first_live :: "St \<Rightarrow> nat \<Rightarrow> iaddr option \<Rightarrow> fault + iaddr option" where
  "first_live s n None = Inr None"
| "first_live s 0 (Some a) = Inl NoReturn"
| "first_live s (Suc n) (Some a) = (if Deleted (itm s a) then first_live s n (Right (itm s a)) else Inr (Some a))"

fun next_delete :: "St \<Rightarrow> iaddr \<Rightarrow> nat \<Rightarrow> iaddr \<Rightarrow> fault + iaddr option" where
  "next_delete s root n current =
     (if current = root then Inr None
      else case n of 0 \<Rightarrow> Inl NoReturn
      | Suc n \<Rightarrow>
         ebind (first_live s (length (heap s)) (Right (itm s current))) (\<lambda>sib.
         case sib of Some sib \<Rightarrow> Inr (Some sib)
         | None \<Rightarrow>
            (case Parent (itm s current) of None \<Rightarrow> Inr None
             | Some p \<Rightarrow> (case t_item (ty s p) of None \<Rightarrow> Inr None | Some up \<Rightarrow> next_delete s root n up))))"

declare next_delete.simps [simp del]

definition nextDeleteItem :: "St \<Rightarrow> iaddr \<Rightarrow> iaddr \<Rightarrow> fault + iaddr option" where
  "nextDeleteItem s current root = next_delete s root (length (heap s)) current"

text \<open>What the loop of \<open>delete\<close> does to one live item.\<close>

definition tombstone :: "iaddr \<Rightarrow> St \<Rightarrow> St" where
  "tombstone a s =
     (let it = itm s a; c = ItemContent it;
          s = upd a (\<lambda>i. i\<lparr>Deleted := True\<rparr>) s;
          s = (case c of ContentFormat _ _ \<Rightarrow> when_some (Parent it) (\<lambda>p. updt p (\<lambda>y. y\<lparr>fmtGen := fmtGen y + 1\<rparr>)) s | _ \<Rightarrow> s);
          s = (if IsCountable c
               then when_some (Parent it) (\<lambda>p s. let s = updt p (\<lambda>y. y\<lparr>t_length := t_length y - ContentLen c\<rparr>) s
                                                in if \<not> Local s then clearMarkers p s else s) s else s);
          s = when_some (Parent it) (\<lambda>p s. case c of
                 ContentMove target _ \<Rightarrow> rearbitrateMove a target (clearMarkers p s)
               | _ \<Rightarrow> if MovedBy it \<noteq> None then clearMarkers p s else s) s;
          s = s\<lparr>deleteSet := DeleteSet_add (deleteSet s) (ItemID it) (ContentLen c)\<rparr>;
          s = when_some (Parent it) (\<lambda>p. addChanged p (parentSubKey (ParentSub it))) s
      in (case c of
            ContentDoc (Some d) \<Rightarrow>
              if d \<in> subdocsAdded s then s\<lparr>subdocsAdded := subdocsAdded s - {d}, subdocsLoaded := subdocsLoaded s - {d}\<rparr>
              else addSubdocRemoved d s
          | _ \<Rightarrow> s))"

text \<open>The loop: tombstone the current item and go on to its first live child, or past it.\<close>

fun delete_loop :: "iaddr \<Rightarrow> nat \<Rightarrow> iaddr option \<Rightarrow> St \<Rightarrow> fault + St" where
  "delete_loop root n None s = Inr s"
| "delete_loop root 0 (Some a) s = Inl NoReturn"
| "delete_loop root (Suc n) (Some a) s =
     (if Deleted (itm s a) then ebind (nextDeleteItem s a root) (\<lambda>nx. delete_loop root n nx s)
      else let s = tombstone a s in
        ebind (case ItemContent (itm s a) of
                 ContentType (Some t) \<Rightarrow> first_live s (length (heap s)) (t_start (ty s t))
               | _ \<Rightarrow> Inr None) (\<lambda>child.
        case child of Some c \<Rightarrow> delete_loop root n (Some c) s
        | None \<Rightarrow> ebind (nextDeleteItem s a root) (\<lambda>nx. delete_loop root n nx s)))"

text \<open>Every step but possibly the first tombstones a live item.\<close>

definition item_delete :: "iaddr \<Rightarrow> St \<Rightarrow> fault + St" where
  "item_delete a s = delete_loop a (Suc (length (heap s))) (Some a) s"

text \<open>The pass over one parent, and over all parents, at commit.\<close>

fun rearb_scan :: "iaddr list \<Rightarrow> nat \<Rightarrow> iaddr option \<Rightarrow> St \<Rightarrow> fault + St" where
  "rearb_scan targets n None s = Inr s"
| "rearb_scan targets 0 (Some it) s = Inl NoReturn"
| "rearb_scan targets (Suc n) (Some it) s =
     (let s' = (case ItemContent (itm s it) of
                  ContentMove (Some i) _ \<Rightarrow>
                    if Deleted (itm s it) then s
                    else (case Find s i of None \<Rightarrow> s
                          | Some tg \<Rightarrow> if tg \<in> set targets \<and> moveBeats s it (MovedBy (itm s tg)) then setMovedBy tg (Some it) s else s)
                | _ \<Rightarrow> s)
      in rearb_scan targets n (Right (itm s' it)) s')"

definition rearb_parent :: "taddr \<times> iaddr list \<Rightarrow> St \<Rightarrow> fault + St" where
  "rearb_parent pt s =
     (if (case t_item (ty s (fst pt)) of None \<Rightarrow> False | Some pi \<Rightarrow> Deleted (itm s pi)) then Inr s
      else let s = fold (\<lambda>tg. setMovedBy tg None) (snd pt) s
           in ebind (rearb_scan (snd pt) (length (heap s)) (t_start (ty s (fst pt))) s) (\<lambda>s. Inr (clearMarkers (fst pt) s)))"

definition rearbitrateMoves :: "St \<Rightarrow> fault + St" where
  "rearbitrateMoves s = foldl (\<lambda>r pt. ebind r (rearb_parent pt)) (Inr s) (rearbitrate s)"

subsection \<open>Integration\<close>

text \<open>
  The conflict scan: \<open>conf\<close> and \<open>before\<close> are the two sets of items, \<open>left\<close> the position found so far; it stops at
  the right boundary, at the end of the list or where the source breaks.
\<close>

fun scan :: "St \<Rightarrow> Item \<Rightarrow> nat \<Rightarrow> iaddr option \<Rightarrow> iaddr option \<Rightarrow> iaddr set \<Rightarrow> iaddr set \<Rightarrow> fault + iaddr option" where
  "scan s it n None left conf before = Inr left"
| "scan s it 0 (Some o') left conf before = Inl NoReturn"
| "scan s it (Suc n) (Some o') left conf before =
     (if Right it = Some o' then Inr left
      else let oi = itm s o' in
        if \<not> parentSubEqual (ParentSub it) (ParentSub oi) then scan s it n (Right oi) left conf before
        else let before = insert o' before; conf = insert o' conf in
          if originIDEquals (Origin it) (Origin oi)
          then if iclient oi < iclient it then scan s it n (Right oi) (Some o') {} before
               else if originIDEquals (OriginRight it) (OriginRight oi) then Inr left
               else scan s it n (Right oi) left conf before
          else case Origin oi of None \<Rightarrow> Inr left
            | Some i \<Rightarrow>
               (case Find s i of None \<Rightarrow> Inr left
                | Some oo \<Rightarrow>
                   if oo \<in> before
                   then if oo \<notin> conf then scan s it n (Right oi) (Some o') {} before
                        else scan s it n (Right oi) left conf before
                   else Inr left))"

text \<open>Skipping a prefix that is integrated already.\<close>

definition skip_prefix :: "iaddr \<Rightarrow> nat \<Rightarrow> St \<Rightarrow> fault + St" where
  "skip_prefix a offset s =
     (if offset = 0 then Inr s
      else let s = upd a (\<lambda>i. i\<lparr>ItemID := (ItemID i)\<lparr>IdClock := iclock i + of_nat offset\<rparr>\<rparr>) s in
        ebind (getItemCleanEnd (iclient (itm s a)) (iclock (itm s a) - 1) s) (\<lambda>(l, s).
        let s = upd a (\<lambda>i. i\<lparr>Left := l\<rparr>) s;
            s = when_some l (\<lambda>l s. upd a (\<lambda>i. i\<lparr>Origin := Some \<lparr>Client = iclient (itm s l),
                  IdClock = iclock (itm s l) + ilen (itm s l) - 1\<rparr>\<rparr>) s) s
        in ebind (Splice offset (ItemContent (itm s a))) (\<lambda>(_, r). Inr (upd a (\<lambda>i. i\<lparr>ItemContent := r\<rparr>) s))))"

definition resolve_right :: "iaddr \<Rightarrow> St \<Rightarrow> fault + St" where
  "resolve_right a s =
     (case (Right (itm s a), OriginRight (itm s a)) of
        (None, Some i) \<Rightarrow> ebind (getItemCleanStart i s) (\<lambda>(r, s). Inr (upd a (\<lambda>x. x\<lparr>Right := r\<rparr>) s))
      | _ \<Rightarrow> Inr s)"

definition find_left :: "iaddr \<Rightarrow> taddr \<Rightarrow> St \<Rightarrow> fault + iaddr option" where
  "find_left a p s =
     (let it = itm s a;
          o' = (case Left it of None \<Rightarrow> t_start (ty s p) | Some l \<Rightarrow> Right (itm s l));
          uncontested = (case ParentSub it of None \<Rightarrow> False | Some k \<Rightarrow> map_of (itemMap (ty s p)) k = Left it)
      in if \<not> uncontested \<and> o' \<noteq> None \<and> o' \<noteq> Right it
         then scan s it (length (heap s)) o' (Left it) {} {} else Inr (Left it))"

definition link :: "iaddr \<Rightarrow> taddr \<Rightarrow> iaddr option \<Rightarrow> St \<Rightarrow> St" where
  "link a p left s =
     (let s = upd a (\<lambda>i. i\<lparr>Left := left\<rparr>) s;
          s = (case left of
                 None \<Rightarrow> invalidateFirstLiveCache p (updt p (\<lambda>y. y\<lparr>t_start := Some a\<rparr>) (upd a (\<lambda>i. i\<lparr>Right := t_start (ty s p)\<rparr>) s))
               | Some l \<Rightarrow>
                  (let s = upd l (\<lambda>i. i\<lparr>Right := Some a\<rparr>) (upd a (\<lambda>i. i\<lparr>Right := Right (itm s l)\<rparr>) s)
                   in if Deleted (itm s l) then invalidateFirstLiveCache p s else s))
      in when_some (Right (itm s a)) (\<lambda>r. upd r (\<lambda>i. i\<lparr>Left := Some a\<rparr>)) s)"

definition count_in :: "iaddr \<Rightarrow> taddr \<Rightarrow> St \<Rightarrow> St" where
  "count_in a p s =
     (let hint = insertHint (ty s p); it = itm s a; n = ContentLen (ItemContent it);
          s = updt p (\<lambda>y. y\<lparr>insertHint := 0\<rparr>) s
      in if \<not> Deleted it \<and> IsCountable (ItemContent it)
         then let s = updt p (\<lambda>y. y\<lparr>t_length := t_length y + n\<rparr>) s in
           if Right it = None then s
           else if hint > 0
           then updateMarkerChanges p hint n
                 (case Left it of None \<Rightarrow> s
                  | Some l \<Rightarrow> if Deleted (itm s l) \<or> \<not> IsCountable (ItemContent (itm s l)) then dropUncountedMarkersAt p hint s else s)
           else clearMarkers p s
         else s)"

definition register_subdoc :: "iaddr \<Rightarrow> St \<Rightarrow> fault + St" where
  "register_subdoc a s = (case ItemContent (itm s a) of
     ContentDoc (Some d) \<Rightarrow>
       (if d_item (docs s ! d) \<noteq> None \<and> d_item (docs s ! d) \<noteq> Some a then Inl SubdocAlreadyIntegrated
        else let s = addSubdocAdded d (s\<lparr>docs := (docs s)[d := (docs s ! d)\<lparr>d_item := Some a\<rparr>]\<rparr>)
             in Inr (if shouldLoad (docs s ! d) then addSubdocLoaded d s else s))
   | _ \<Rightarrow> Inr s)"

definition arbitrate_move :: "iaddr \<Rightarrow> St \<Rightarrow> fault + St" where
  "arbitrate_move a s = (case ItemContent (itm s a) of
     ContentMove (Some target) n \<Rightarrow>
       (if Deleted (itm s a) then Inr s
        else ebind (resolveMovedItem target n s) (\<lambda>(tg, s).
          case tg of Some tg \<Rightarrow> Inr (if moveBeats s a (MovedBy (itm s tg)) then setMovedBy tg (Some a) s else s)
          | None \<Rightarrow> Inr (addPendingMove (Client target) a s)))
   | _ \<Rightarrow> Inr s)"

text \<open>What depends on the kind of the content: markers, runs, formatting flags and the nested type, which has no staged content to flush.\<close>

definition note_content :: "iaddr \<Rightarrow> taddr \<Rightarrow> St \<Rightarrow> fault + St" where
  "note_content a p s = (case ItemContent (itm s a) of
     ContentMove _ _ \<Rightarrow> Inr (clearMarkers p s)
   | ContentString _ _ \<Rightarrow> Inr (s\<lparr>newItems := newItems s @ [a]\<rparr>)
   | ContentFormat _ _ \<Rightarrow> Inr (updt p (\<lambda>y. y\<lparr>hasFormatting := True, fmtGen := fmtGen y + 1, cleanFormatting := True\<rparr>) s)
   | ContentType None \<Rightarrow> Inl NilDereference
   | ContentType (Some t) \<Rightarrow> Inr (updt t (\<lambda>y. y\<lparr>t_item := Some a\<rparr>) s)
   | _ \<Rightarrow> Inr s)"

text \<open>Whether an item of the same key is on the right.\<close>

fun same_key_right :: "St \<Rightarrow> gostring option \<Rightarrow> nat \<Rightarrow> iaddr option \<Rightarrow> fault + bool" where
  "same_key_right s k n None = Inr False"
| "same_key_right s k 0 (Some r) = Inl NoReturn"
| "same_key_right s k (Suc n) (Some r) =
     (if parentSubEqual (ParentSub (itm s r)) k then Inr True else same_key_right s k n (Right (itm s r)))"

definition last_write_wins :: "iaddr \<Rightarrow> taddr \<Rightarrow> St \<Rightarrow> fault + St" where
  "last_write_wins a p s = (case ParentSub (itm s a) of None \<Rightarrow> Inr s
   | Some key \<Rightarrow>
      (let previous = map_of (itemMap (ty s p)) key in
       ebind (if previous \<noteq> None \<and> previous \<noteq> Left (itm s a)
              then same_key_right s (Some key) (length (heap s)) (Right (itm s a)) else Inr False) (\<lambda>superseded.
       if superseded then item_delete a s
       else ebind (case previous of
                     Some ex \<Rightarrow> if ex \<noteq> a \<and> \<not> Deleted (itm s ex) then item_delete ex s else Inr s
                   | None \<Rightarrow> Inr s)
             (\<lambda>s. Inr (updt p (\<lambda>y. y\<lparr>itemMap := map_put key a (itemMap y)\<rparr>) s)))))"

definition delete_in_deleted :: "iaddr \<Rightarrow> taddr \<Rightarrow> St \<Rightarrow> fault + St" where
  "delete_in_deleted a p s = (case t_item (ty s p) of None \<Rightarrow> Inr s
     | Some pi \<Rightarrow> if Deleted (itm s pi) \<and> \<not> Deleted (itm s a) then item_delete a s else Inr s)"

text \<open>The steps of \<open>integrate\<close> after the position is found.\<close>

definition place :: "iaddr \<Rightarrow> taddr \<Rightarrow> iaddr option \<Rightarrow> St \<Rightarrow> fault + St" where
  "place a p left s =
     ebind (register_subdoc a (Append a (count_in a p (link a p left s)))) (\<lambda>s.
     ebind (arbitrate_move a s) (\<lambda>s.
     ebind (resolvePendingMoves (iclient (itm s a)) s) (\<lambda>s.
     ebind (note_content a p s) (\<lambda>s.
     ebind (last_write_wins a p s) (\<lambda>s.
     ebind (delete_in_deleted a p s) (\<lambda>s.
     Inr (addChanged p (parentSubKey (ParentSub (itm s a))) s)))))))"

definition integrate :: "iaddr \<Rightarrow> nat \<Rightarrow> St \<Rightarrow> fault + St" where
  "integrate a offset s =
     ebind (skip_prefix a offset s) (\<lambda>s.
     case Parent (itm s a) of None \<Rightarrow> Inr s
     | Some p \<Rightarrow>
        ebind (resolve_right a s) (\<lambda>s.
        ebind (find_left a p s) (\<lambda>left. place a p left s)))"

end
