(* ===== verification/Delete_Cascade.thy ===== *)
theory Delete_Cascade
  imports Store_Facts Integrate
begin

text \<open>
  Deletion of items.  Marking items changes neither the store nor the lists; the cascade ends, and it deletes the item and
  exactly the live items nested in it through live containers.
\<close>

subsection \<open>Changes that leave the structure alone\<close>

definition same_links :: "Item \<Rightarrow> Item \<Rightarrow> bool" where
  "same_links i j \<longleftrightarrow> ItemID j = ItemID i \<and> Origin j = Origin i \<and> OriginRight j = OriginRight i \<and> Left j = Left i \<and> Right j = Right i \<and>
     Parent j = Parent i \<and> ParentSub j = ParentSub i \<and> ItemContent j = ItemContent i"

definition alike :: "St \<Rightarrow> St \<Rightarrow> bool" where
  "alike s s' \<longleftrightarrow> length (heap s') = length (heap s) \<and> clients s' = clients s \<and> length (types s') = length (types s) \<and>
     (\<forall>x < length (heap s). same_links (itm s x) (itm s' x)) \<and>
     (\<forall>t < length (types s). t_start (ty s' t) = t_start (ty s t) \<and> t_item (ty s' t) = t_item (ty s t) \<and> itemMap (ty s' t) = itemMap (ty s t))"

lemma same_links_refl [simp]: "same_links i i"
  by (simp add: same_links_def)

lemma same_links_trans: "same_links i j \<Longrightarrow> same_links j k \<Longrightarrow> same_links i k"
  by (simp add: same_links_def)

lemma alike_refl [simp]: "alike s s"
  by (simp add: alike_def)

lemma alike_trans: "alike s s' \<Longrightarrow> alike s' s'' \<Longrightarrow> alike s s''"
  by (auto simp: alike_def intro: same_links_trans)

text \<open>Deletion flags, lengths and the delete set are unchanged as well.\<close>

definition inert :: "St \<Rightarrow> St \<Rightarrow> bool" where
  "inert s s' \<longleftrightarrow> alike s s' \<and> deleteSet s' = deleteSet s \<and> (\<forall>x < length (heap s). Deleted (itm s' x) = Deleted (itm s x)) \<and>
     (\<forall>t < length (types s). t_length (ty s' t) = t_length (ty s t))"

lemma inert_alike: "inert s s' \<Longrightarrow> alike s s'"
  by (simp add: inert_def)

lemma inert_trans: "inert s s' \<Longrightarrow> inert s' s'' \<Longrightarrow> inert s s''"
  by (auto simp: inert_def alike_def intro: same_links_trans)

lemma inert_fields:
  "heap s' = heap s \<Longrightarrow> types s' = types s \<Longrightarrow> clients s' = clients s \<Longrightarrow> deleteSet s' = deleteSet s \<Longrightarrow> inert s s'"
  by (simp add: inert_def alike_def)

lemma inert_refl [simp]: "inert s s"
  by (simp add: inert_fields)

lemma inert_updt:
  "(\<And>y. t_start (f y) = t_start y \<and> t_item (f y) = t_item y \<and> itemMap (f y) = itemMap y \<and> t_length (f y) = t_length y) \<Longrightarrow> inert s (updt t f s)"
  by (simp add: inert_def alike_def nth_update_if updt_def)

lemma inert_upd: "(\<And>i. same_links i (f i) \<and> Deleted (f i) = Deleted i) \<Longrightarrow> inert s (upd a f s)"
  by (simp add: inert_def alike_def nth_update_if upd_def)

lemma inert_clearMarkers [simp]: "inert s (clearMarkers t s)"
  unfolding clearMarkers_def by (rule inert_updt) simp

lemma inert_when: "(\<And>x s. inert s (f x s)) \<Longrightarrow> inert s (when_some p f s)"
  by (cases p) simp_all

lemma inert_addChanged [simp]: "inert s (addChanged t k s)"
  by (rule inert_fields) (simp_all add: addChanged_def)

lemma inert_setMovedBy [simp]: "inert s (setMovedBy tg mv s)"
proof -
  have "inert s (if map_of (movedBefore s) tg = None then s\<lparr>movedBefore := map_put tg (MovedBy (itm s tg)) (movedBefore s)\<rparr> else s)" (is "inert s ?s")
    by (simp add: inert_fields)
  moreover have "inert ?s (upd tg (\<lambda>i. i\<lparr>MovedBy := mv\<rparr>) ?s)" by (rule inert_upd) (simp add: same_links_def)
  ultimately show ?thesis unfolding setMovedBy_def Let_def by (rule inert_trans)
qed

lemma inert_rearbitrateMove [simp]: "inert s (rearbitrateMove mv i s)"
proof -
  have "inert s (s'\<lparr>rearbitrate := r\<rparr>)" if "inert s s'" for s' r
    using inert_trans[OF that inert_fields] by simp
  then show ?thesis by (simp add: rearbitrateMove_def Let_def split: option.splits)
qed

text \<open>Invariants and views of states that are alike.\<close>

lemma alike_stored: "alike s s' \<Longrightarrow> stored s' = stored s"
  by (simp add: alike_def stored_def)

lemma alike_item: "alike s s' \<Longrightarrow> x < length (heap s) \<Longrightarrow> same_links (itm s x) (itm s' x)"
  by (simp add: alike_def)

lemma alike_store_ok:
  assumes "store_ok s" "alike s s'"
  shows "store_ok s'" "run_end (heap s') 0 (items_of s' c) = run_end (heap s) 0 (items_of s c)"
proof -
  have c: "x < length (heap s') \<and> ItemID (itm s' x) = ItemID (itm s x) \<and> ItemContent (itm s' x) = ItemContent (itm s x)"
    if "x < length (heap s)" for x using alike_item[OF assms(2) that] that assms(2) by (auto simp: same_links_def alike_def)
  have i: "items_of s' = items_of s" using assms(2) by (simp add: alike_def)
  have r: "run (heap s') c 0 (items_of s c)" "run_end (heap s') 0 (items_of s c) = run_end (heap s) 0 (items_of s c)" for c
    using run_cong[of "items_of s c" "heap s" "heap s'" c 0] c store_okD(1)[OF assms(1)] by auto
  show "run_end (heap s') 0 (items_of s' c) = run_end (heap s) 0 (items_of s c)" using r i by simp
  show "store_ok s'" using assms r i by (simp add: store_ok_def alike_def)
qed

lemma alike_listing:
  assumes "doc_ok s" "alike s s'" "t < length (types s)"
  shows "dll s' t (listing s t)" "listing s' t = listing s t" "sequence s' t = sequence s t"
proof -
  have l: "same_links (itm s x) (itm s' x)" "x < length (heap s')" if "x < length (heap s)" for x
    using alike_item[OF assms(2) that] that assms(2) by (simp_all add: alike_def)
  show d: "dll s' t (listing s t)"
    by (rule dll_cong[OF listing_dll[OF assms(1,3)]]) (use assms l in \<open>auto simp: alike_def same_links_def\<close>)
  then show e: "listing s' t = listing s t" by (rule dll_listing)
  have "unit_ids (itm s' x) = unit_ids (itm s x)" if "x \<in> set (listing s t)" for x
    using l dll_bounds[OF listing_dll[OF assms(1,3)]] that by (intro unit_ids_cong) (auto simp: same_links_def)
  then show "sequence s' t = sequence s t" unfolding sequence_def e by (intro arg_cong[where f = concat] map_cong) auto
qed

lemma alike_container: "doc_ok s \<Longrightarrow> alike s s' \<Longrightarrow> a \<in> stored s \<Longrightarrow> container s' a = container s a"
  using parent_bound[of s a] alike_item[of s s' a] stored_bound[of s a]
  by (auto simp: container_def alike_def same_links_def split: option.splits)

lemma alike_up: "doc_ok s \<Longrightarrow> alike s s' \<Longrightarrow> up s' = up s"
  unfolding up_def using alike_container[of s s'] alike_stored[of s s'] by auto

lemma alike_parts:
  assumes "doc_ok s" "alike s s'"
  shows "lists_ok s'" "links_ok s'" "nest_ok s'" "entries_ok s'"
proof -
  note st = alike_stored[OF assms(2)] and ok = doc_okD[OF assms(1)]
  have l: "Parent (itm s' x) = Parent (itm s x)" "Right (itm s' x) = Right (itm s x)" "ItemContent (itm s' x) = ItemContent (itm s x)"
    if "x \<in> stored s" for x using alike_item[OF assms(2) stored_bound[OF assms(1) that]] by (simp_all add: same_links_def)
  have n: "length (types s') = length (types s)" using assms(2) by (simp add: alike_def)
  have m: "t_item (ty s' t) = t_item (ty s t)" "itemMap (ty s' t) = itemMap (ty s t)" if "t < length (types s)" for t
    using that assms(2) by (simp_all add: alike_def)
  have e: "{x \<in> stored s. Parent (itm s' x) = Some t} = {x \<in> stored s. Parent (itm s x) = Some t}" for t by (rule Collect_cong) (metis l(1))
  have f: "set (listing s t) = {x \<in> stored s. Parent (itm s x) = Some t}" if "t < length (types s)" for t
    by (rule set_eqI) (simp add: listing_iff[OF assms(1) that])
  have "t < length (types s)" if "a \<in> stored s" "Parent (itm s' a) = Some t" for a t
    using parent_bound[OF assms(1) that(1)] that l(1) by metis
  moreover have "dll s' t (listing s' t) \<and> set (listing s' t) = {x \<in> stored s. Parent (itm s x) = Some t}" if "t < length (types s)" for t
    unfolding alike_listing(2)[OF assms that] using alike_listing(1)[OF assms that] f[OF that] by (rule conjI)
  ultimately show "lists_ok s'" unfolding lists_ok_def st n e by blast
  have "x \<in> stored s \<and> x \<noteq> a \<and> Parent (itm s' x) = Parent (itm s' a)" if "a \<in> stored s" "Right (itm s' a) = Some x" for a x
    using ok(3) that l(2)[OF that(1)] l(1)[OF that(1)] l(1)[of x] unfolding links_ok_def by metis
  then show "links_ok s'" unfolding links_ok_def st by blast
  have "acyclic (up s')" using ok(5) alike_up[OF assms] by (simp add: nest_ok_def)
  moreover have "t < length (types s)" if "a \<in> stored s" "ItemContent (itm s' a) = ContentType (Some t)" for a t
    using ok(5) that l(3)[OF that(1)] unfolding nest_ok_def by metis
  moreover have "a \<in> stored s \<and> ItemContent (itm s' a) = ContentType (Some t)" if "t < length (types s)" "t_item (ty s' t) = Some a" for a t
    using ok(5) that l(3)[of a] m(1)[OF that(1)] unfolding nest_ok_def by metis
  ultimately show "nest_ok s'" unfolding nest_ok_def st n by blast
  show "entries_ok s'" using ok(6) m(2) by (simp add: entries_ok_def st n)
qed

lemma alike_NextClock: "doc_ok s \<Longrightarrow> alike s s' \<Longrightarrow> NextClock s' c = NextClock s c"
  using alike_store_ok[of s s'] NextClock_correct[of s c] NextClock_correct[of s' c] by (simp add: doc_ok_def word_unat_eq_iff)

lemma alike_Find: "doc_ok s \<Longrightarrow> alike s s' \<Longrightarrow> Find s' i = Find s i"
proof -
  assume a: "doc_ok s" "alike s s'"
  have "holds s' i x \<longleftrightarrow> holds s i x" for x
  proof -
    have "items_of s' (Client i) = items_of s (Client i)" using a(2) by (simp add: alike_def)
    moreover have "same_links (itm s x) (itm s' x)" if "x \<in> set (items_of s (Client i))"
      using that alike_item[OF a(2)] store_member(1)[OF doc_okD(1)[OF a(1)]] by blast
    ultimately show ?thesis by (auto simp: holds_def same_links_def isize_def)
  qed
  then have "Find s' i = Some x \<longleftrightarrow> Find s i = Some x" for x
    using Find_correct alike_store_ok(1)[OF doc_okD(1)[OF a(1)] a(2)] doc_okD(1)[OF a(1)] by blast
  then show ?thesis by (metis not_Some_eq)
qed

text \<open>Marking a set of items, taking their visible lengths off and recording their clocks in the delete set.\<close>

definition clocks_of :: "St \<Rightarrow> iaddr set \<Rightarrow> ClientID \<Rightarrow> nat set" where
  "clocks_of s D c = {k. \<exists>x \<in> D. x < length (heap s) \<and> iclient (itm s x) = c \<and> istart (itm s x) \<le> k \<and> k < istop (itm s x)}"

definition marks :: "St \<Rightarrow> iaddr set \<Rightarrow> St \<Rightarrow> bool" where
  "marks s D s' \<longleftrightarrow> alike s s' \<and> (\<forall>x < length (heap s). Deleted (itm s' x) \<longleftrightarrow> Deleted (itm s x) \<or> x \<in> D) \<and> counts_ok s' \<and>
     (ds_inv (deleteSet s) \<longrightarrow> ds_inv (deleteSet s') \<and> (\<forall>c. deleted (deleteSet s') c = deleted (deleteSet s) c \<union> clocks_of s D c))"

lemma marks_doc_ok: "doc_ok s \<Longrightarrow> marks s D s' \<Longrightarrow> doc_ok s'"
  using alike_parts[of s s'] alike_store_ok(1)[of s s'] by (simp add: doc_ok_def marks_def)

lemma alike_clocks: "alike s s' \<Longrightarrow> clocks_of s' D c = clocks_of s D c"
proof -
  assume a: "alike s s'"
  have "x < length (heap s') \<and> iclient (itm s' x) = c \<and> istart (itm s' x) \<le> k \<and> k < istop (itm s' x) \<longleftrightarrow>
      x < length (heap s) \<and> iclient (itm s x) = c \<and> istart (itm s x) \<le> k \<and> k < istop (itm s x)" for x k
    using alike_item[OF a, of x] a by (cases "x < length (heap s)") (simp_all add: same_links_def alike_def isize_def)
  then show ?thesis by (simp add: clocks_of_def)
qed

lemma clocks_simps [simp]: "clocks_of s {} c = {}" "clocks_of s (D \<union> E) c = clocks_of s D c \<union> clocks_of s E c"
  by (auto simp: clocks_of_def)

lemma marks_trans:
  assumes "marks s D s'" "marks s' E s''"
  shows "marks s (D \<union> E) s''"
proof -
  have a: "alike s s'" "alike s' s''" using assms by (simp_all add: marks_def)
  have "length (heap s') = length (heap s)" using a(1) by (simp add: alike_def)
  then show ?thesis using assms alike_trans[OF a] alike_clocks[OF a(1), of E] by (simp add: marks_def disj_assoc Un_assoc)
qed

lemma inert_marks: "doc_ok s \<Longrightarrow> inert s s' \<Longrightarrow> marks s {} s'"
proof -
  assume a: "doc_ok s" "inert s s'"
  have "(\<Sum>x\<leftarrow>listing s' t. visible_len (itm s' x)) = (\<Sum>x\<leftarrow>listing s t. visible_len (itm s x))" if t: "t < length (types s)" for t
  proof -
    have "visible_len (itm s' x) = visible_len (itm s x)" if "x \<in> set (listing s t)" for x
      using a(2) alike_item[OF inert_alike[OF a(2)]] dll_bounds[OF listing_dll[OF a(1) t]] that
      by (auto simp: visible_len_def inert_def same_links_def)
    then have "map (\<lambda>x. visible_len (itm s' x)) (listing s t) = map (\<lambda>x. visible_len (itm s x)) (listing s t)" by simp
    then show ?thesis unfolding alike_listing(2)[OF a(1) inert_alike[OF a(2)] t] by (rule arg_cong)
  qed
  then show ?thesis using a doc_okD(4)[OF a(1)] by (auto simp: marks_def inert_def counts_ok_def alike_def)
qed

lemma inert_doc_ok: "doc_ok s \<Longrightarrow> inert s s' \<Longrightarrow> doc_ok s'"
  using inert_marks marks_doc_ok by blast


subsection \<open>One item\<close>

definition dropped :: "St \<Rightarrow> iaddr \<Rightarrow> (taddr \<Rightarrow> int) \<Rightarrow> St \<Rightarrow> bool" where
  "dropped s a d s' \<longleftrightarrow> alike s s' \<and> (\<forall>x < length (heap s). Deleted (itm s' x) \<longleftrightarrow> Deleted (itm s x) \<or> x = a) \<and>
     (\<forall>t < length (types s). t_length (ty s' t) = t_length (ty s t) - d t)"

lemma dropped_inert: "dropped s a d s' \<Longrightarrow> inert s' s'' \<Longrightarrow> dropped s a d s''"
  using alike_trans[of s s' s''] unfolding dropped_def inert_def by (auto simp: alike_def)

lemma dropped_length:
  "dropped s a (\<lambda>t. 0) s' \<Longrightarrow> dropped s a (\<lambda>t. if t = p then n else 0) (updt p (\<lambda>y. y\<lparr>t_length := t_length y - n\<rparr>) s')"
  by (auto simp: dropped_def alike_def nth_update_if)

lemma dropped_field: "dropped s a d s' \<Longrightarrow> heap s'' = heap s' \<Longrightarrow> types s'' = types s' \<Longrightarrow> clients s'' = clients s' \<Longrightarrow> dropped s a d s''"
  by (simp add: dropped_def alike_def)

definition off :: "St \<Rightarrow> iaddr \<Rightarrow> taddr \<Rightarrow> int" where
  "off s a t = (if Parent (itm s a) = Some t \<and> IsCountable (ItemContent (itm s a)) then ContentLen (ItemContent (itm s a)) else 0)"

lemma tombstone_dropped:
  "dropped s a (off s a) (tombstone a s)"
  "deleteSet (tombstone a s) = DeleteSet_add (deleteSet s) (ItemID (itm s a)) (ContentLen (ItemContent (itm s a)))"
proof -
  define it c where "it = itm s a" and "c = ItemContent it"
  define s1 where "s1 = upd a (\<lambda>i. i\<lparr>Deleted := True\<rparr>) s"
  define s2 where "s2 = (case c of ContentFormat _ _ \<Rightarrow> when_some (Parent it) (\<lambda>p. updt p (\<lambda>y. y\<lparr>fmtGen := fmtGen y + 1\<rparr>)) s1 | _ \<Rightarrow> s1)"
  define s3 where "s3 = (if IsCountable c
               then when_some (Parent it) (\<lambda>p s. let s = updt p (\<lambda>y. y\<lparr>t_length := t_length y - ContentLen c\<rparr>) s
                                                in if \<not> Local s then clearMarkers p s else s) s2 else s2)"
  define s4 where "s4 = when_some (Parent it) (\<lambda>p s. case c of
                 ContentMove target _ \<Rightarrow> rearbitrateMove a target (clearMarkers p s)
               | _ \<Rightarrow> if MovedBy it \<noteq> None then clearMarkers p s else s) s3"
  define s5 where "s5 = s4\<lparr>deleteSet := DeleteSet_add (deleteSet s4) (ItemID it) (ContentLen c)\<rparr>"
  define s6 where "s6 = when_some (Parent it) (\<lambda>p. addChanged p (parentSubKey (ParentSub it))) s5"
  define s7 where "s7 = (case c of
            ContentDoc (Some d) \<Rightarrow>
              if d \<in> subdocsAdded s6 then s6\<lparr>subdocsAdded := subdocsAdded s6 - {d}, subdocsLoaded := subdocsLoaded s6 - {d}\<rparr>
              else addSubdocRemoved d s6
          | _ \<Rightarrow> s6)"
  have s7: "tombstone a s = s7"
    unfolding tombstone_def Let_def s7_def s6_def s5_def s4_def s3_def s2_def s1_def c_def it_def by (rule refl)
  have 1: "dropped s a (\<lambda>t. 0) s1" by (auto simp: s1_def dropped_def alike_def nth_update_if same_links_def)
  have i2: "inert s1 s2" by (auto simp: s2_def intro!: inert_when inert_updt split: content.splits)
  have 3: "dropped s a (off s a) s3 \<and> deleteSet s3 = deleteSet s2"
  proof (cases "\<exists>p. IsCountable c \<and> Parent it = Some p")
    case True
    then obtain p where p: "IsCountable c" "Parent it = Some p" by blast
    let ?u = "updt p (\<lambda>y. y\<lparr>t_length := t_length y - ContentLen c\<rparr>) s2"
    have e: "off s a = (\<lambda>t. if t = p then ContentLen c else 0)" using p by (auto simp: off_def c_def it_def)
    have "dropped s a (off s a) ?u" unfolding e by (rule dropped_length[OF dropped_inert[OF 1 i2]])
    moreover have "s3 = (if \<not> Local ?u then clearMarkers p ?u else ?u)" by (simp add: s3_def p Let_def)
    ultimately have "dropped s a (off s a) s3" using dropped_inert[of s a "off s a" ?u "clearMarkers p ?u"] by simp
    moreover have "deleteSet s3 = deleteSet s2" by (simp add: s3_def p Let_def clearMarkers_def updt_def)
    ultimately show ?thesis by simp
  next
    case False
    then have "s3 = s2" "off s a = (\<lambda>t. 0)" by (cases "Parent it"; auto simp: s3_def off_def c_def it_def)+
    then show ?thesis using dropped_inert[OF 1 i2] by simp
  qed
  have i4: "inert s3 s4" by (auto simp: s4_def intro!: inert_when intro: inert_trans[OF inert_clearMarkers inert_rearbitrateMove] split: content.splits)
  have "inert s5 s6" by (simp add: s6_def inert_when)
  moreover have "inert s6 s7" by (auto simp: s7_def addSubdocRemoved_def intro!: inert_fields split: content.splits option.splits)
  ultimately have i7: "inert s5 s7" by (rule inert_trans)
  have "dropped s a (off s a) s5" by (rule dropped_field[OF dropped_inert[OF conjunct1[OF 3] i4]]) (simp_all add: s5_def)
  then show "dropped s a (off s a) (tombstone a s)" unfolding s7 by (rule dropped_inert[OF _ i7])
  have "deleteSet s7 = DeleteSet_add (deleteSet s4) (ItemID it) (ContentLen c)" using i7 by (simp add: inert_def s5_def)
  moreover have "deleteSet s4 = deleteSet s" using i4 i2 3 by (simp add: inert_def s1_def upd_def)
  ultimately show "deleteSet (tombstone a s) = DeleteSet_add (deleteSet s) (ItemID (itm s a)) (ContentLen (ItemContent (itm s a)))"
    by (simp add: s7 it_def c_def)
qed

lemma tombstone_counts:
  assumes "doc_ok s" "a \<in> stored s" "\<not> Deleted (itm s a)"
  shows "counts_ok (tombstone a s)"
  unfolding counts_ok_def
proof (intro allI impI)
  let ?s = "tombstone a s"
  note dr = tombstone_dropped(1)[of s a]
  then have al: "alike s ?s" by (simp add: dropped_def)
  fix t assume "t < length (types ?s)"
  then have t: "t < length (types s)" using al by (simp add: alike_def)
  note l = listing_dll[OF assms(1) t]
  have v: "visible_len (itm ?s x) = visible_len (itm s x) - (if x = a then visible_len (itm s a) else 0)" if "x \<in> set (listing s t)" for x
    using dr dll_bounds[OF l] that alike_item[OF al] by (auto simp: dropped_def visible_len_def same_links_def)
  have "a \<in> set (listing s t) \<longleftrightarrow> Parent (itm s a) = Some t" using listing_iff[OF assms(1) t] assms(2) by simp
  then have o': "off s a t = (\<Sum>x \<in> set (listing s t). if x = a then visible_len (itm s a) else 0)"
    using assms(3) by (auto simp: off_def visible_len_def)
  have "(\<Sum>x \<in> set (listing s t). visible_len (itm ?s x)) = (\<Sum>x \<in> set (listing s t). visible_len (itm s x)) - off s a t"
    unfolding o' sum_subtractf[symmetric] by (rule sum.cong[OF refl v])
  then have "(\<Sum>x\<leftarrow>listing s t. visible_len (itm ?s x)) = (\<Sum>x\<leftarrow>listing s t. visible_len (itm s x)) - off s a t"
    by (simp add: sum_list_distinct_conv_sum_set[OF dll_distinct[OF l]])
  then show "t_length (ty ?s t) = (\<Sum>x\<leftarrow>listing ?s t. visible_len (itm ?s x))"
    using dr t doc_okD(4)[OF assms(1)] by (simp add: alike_listing(2)[OF assms(1) al t] dropped_def counts_ok_def)
qed

lemma tombstone_marks:
  assumes "doc_ok s" "a \<in> stored s" "\<not> Deleted (itm s a)"
  shows "marks s {a} (tombstone a s)"
proof -
  note m = store_member[OF doc_okD(1)[OF assms(1)] stored_client[OF doc_okD(1)[OF assms(1)], THEN iffD1, OF assms(2)]]
  have l: "ContentLen (ItemContent (itm s a)) = uint (ilen (itm s a))" using m(3,5,6) unfolding uint_nat
    by (simp add: good_def isize_def)
  have i: "\<lparr>Client = iclient (itm s a), IdClock = iclock (itm s a)\<rparr> = ItemID (itm s a)" by simp
  have "istart (itm s a) + unat (ilen (itm s a)) < 2 ^ 64" using m(5,6) by simp
  then have "ds_inv (deleteSet s) \<longrightarrow> ds_inv (deleteSet (tombstone a s)) \<and>
      (\<forall>c. deleted (deleteSet (tombstone a s)) c = deleted (deleteSet s) c \<union> clocks_of s {a} c)"
    using add_correct[of "deleteSet s" "iclock (itm s a)" "ilen (itm s a)" "iclient (itm s a)"] m(1,6)
    unfolding tombstone_dropped(2) l i by (auto simp: clocks_of_def)
  then show ?thesis using tombstone_dropped(1)[of s a] tombstone_counts[OF assms] by (simp add: marks_def dropped_def)
qed


subsection \<open>The cascade\<close>

text \<open>A stored item that holds a type is the item of that type.\<close>

definition nested_ok :: "St \<Rightarrow> bool" where
  "nested_ok s \<longleftrightarrow> (\<forall>a \<in> stored s. \<forall>t. ItemContent (itm s a) = ContentType (Some t) \<longrightarrow> t_item (ty s t) = Some a)"

text \<open>The live items nested in an item through live containers.\<close>

definition live_up :: "St \<Rightarrow> (iaddr \<times> iaddr) set" where
  "live_up s = {(a, b) \<in> up s. \<not> Deleted (itm s a)}"

definition sub :: "St \<Rightarrow> iaddr \<Rightarrow> iaddr set" where
  "sub s a = {x. (x, a) \<in> (live_up s)\<^sup>*}"

definition first_child :: "St \<Rightarrow> iaddr \<Rightarrow> iaddr option" where
  "first_child s a = (case ItemContent (itm s a) of ContentType (Some t) \<Rightarrow> t_start (ty s t) | _ \<Rightarrow> None)"

text \<open>The loop from a list of siblings, then past the item that contains them.\<close>

definition resume :: "iaddr \<Rightarrow> nat \<Rightarrow> iaddr \<Rightarrow> iaddr option \<Rightarrow> St \<Rightarrow> fault + St" where
  "resume root n c p s = ebind (first_live s (length (heap s)) p) (\<lambda>sib. case sib of
      Some v \<Rightarrow> delete_loop root n (Some v) s
    | None \<Rightarrow> ebind (nextDeleteItem s c root) (\<lambda>nx. delete_loop root n nx s))"

lemma delete_step:
  "\<not> Deleted (itm s a) \<Longrightarrow> delete_loop root (Suc n) (Some a) s = resume root n a (first_child (tombstone a s) a) (tombstone a s)"
  by (simp add: resume_def first_child_def Let_def split: content.splits option.splits)

lemma first_live_find: "seg (heap s) prev p xs None lst \<Longrightarrow> length xs \<le> n \<Longrightarrow> first_live s n p = Inr (find (\<lambda>x. \<not> Deleted (itm s x)) xs)"
proof (induction xs arbitrary: prev p n)
  case (Cons a xs)
  then show ?case by (cases n) auto
qed simp

text \<open>Climbing ends: an item has fewer ancestors than the heap has items.\<close>

definition ancestors :: "St \<Rightarrow> iaddr \<Rightarrow> iaddr set" where
  "ancestors s a = {b. (a, b) \<in> (up s)\<^sup>+}"

lemma up_container: "(a, b) \<in> up s \<longleftrightarrow> a \<in> stored s \<and> container s a = Some b"
  by (simp add: up_def)

lemma up_stored: "(a, b) \<in> (up s)\<^sup>+ \<Longrightarrow> doc_ok s \<Longrightarrow> a \<in> stored s \<and> b \<in> stored s"
  by (induction rule: trancl_induct) (auto simp: up_container dest: container_stored)

lemma finite_stored: "doc_ok s \<Longrightarrow> finite (stored s)"
  using stored_bound[of s] by (meson finite_lessThan finite_subset lessThan_iff subsetI)

lemma card_stored: "doc_ok s \<Longrightarrow> D \<subseteq> stored s \<Longrightarrow> card D \<le> length (heap s)"
  using card_mono[of "{..<length (heap s)}" D] stored_bound[of s] by auto

lemma above_less:
  assumes "doc_ok s" "(a, b) \<in> up s"
  shows "card (ancestors s b) < card (ancestors s a)"
proof -
  have ac: "acyclic (up s)" using doc_okD(5)[OF assms(1)] by (simp add: nest_ok_def)
  have "ancestors s b \<subset> ancestors s a" using assms(2) ac by (auto simp: ancestors_def acyclic_def)
  moreover have "finite (ancestors s a)" using finite_stored[OF assms(1)] up_stored[OF _ assms(1)] by (auto simp: ancestors_def intro: finite_subset)
  ultimately show ?thesis by (rule psubset_card_mono[rotated])
qed

lemma above_bound:
  assumes "doc_ok s" "a \<in> stored s"
  shows "card (ancestors s a) < length (heap s)"
proof -
  have "a \<notin> ancestors s a" using doc_okD(5)[OF assms(1)] by (auto simp: ancestors_def nest_ok_def acyclic_def)
  moreover have "ancestors s a \<subseteq> stored s" using up_stored[OF _ assms(1)] by (auto simp: ancestors_def)
  ultimately have "card (insert a (ancestors s a)) \<le> length (heap s)" "finite (ancestors s a)"
    using card_stored[OF assms(1), of "insert a (ancestors s a)"] assms(2) finite_subset[OF _ finite_stored[OF assms(1)]] by auto
  then show ?thesis using \<open>a \<notin> ancestors s a\<close> by simp
qed

lemma next_delete_simps [simp]:
  "next_delete s root n root = Inr None"
  "c \<noteq> root \<Longrightarrow> next_delete s root 0 c = Inl NoReturn"
  "c \<noteq> root \<Longrightarrow> next_delete s root (Suc n) c =
     ebind (first_live s (length (heap s)) (Right (itm s c))) (\<lambda>sib. case sib of Some sib \<Rightarrow> Inr (Some sib)
     | None \<Rightarrow> (case Parent (itm s c) of None \<Rightarrow> Inr None
         | Some p \<Rightarrow> (case t_item (ty s p) of None \<Rightarrow> Inr None | Some b \<Rightarrow> next_delete s root n b)))"
  by (simp_all add: next_delete.simps)

lemma next_delete_total:
  assumes "doc_ok s" "(c, root) \<in> (up s)\<^sup>*" "card (ancestors s c) < n"
  shows "\<exists>r. next_delete s root n c = Inr r"
  using assms(2,3)
proof (induction n arbitrary: c)
  case (Suc n)
  show ?case
  proof (cases "c = root")
    case False
    then obtain b where b: "(c, b) \<in> up s" "(b, root) \<in> (up s)\<^sup>*" using Suc.prems(1) by (meson converse_rtranclE)
    then obtain p where p: "Parent (itm s c) = Some p" "t_item (ty s p) = Some b" "c \<in> stored s"
      by (auto simp: up_container container_def split: option.splits)
    have "card (ancestors s b) < n" using above_less[OF assms(1) b(1)] Suc.prems(2) by linarith
    then obtain r where r: "next_delete s root n b = Inr r" using Suc.IH[OF b(2)] by blast
    have l: "dll s p (listing s p)" "c \<in> set (listing s p)"
      using listing_dll[OF assms(1)] listing_iff[OF assms(1)] parent_bound[OF assms(1) p(3,1)] p by auto
    then obtain us vs where "listing s p = us @ c # vs" by (meson split_list)
    then obtain pr lst where sg: "seg (heap s) pr (Right (itm s c)) vs None lst" using l(1) by (auto simp: dll_def seg_append)
    have "first_live s (length (heap s)) (Right (itm s c)) = Inr (find (\<lambda>x. \<not> Deleted (itm s x)) vs)"
      by (rule first_live_find[OF sg seg_length[OF sg]])
    then show ?thesis using False p r by (simp split: option.splits)
  qed simp
qed simp

lemma next_delete_mono: "next_delete s root n c = Inr r \<Longrightarrow> next_delete s root (Suc n) c = Inr r"
proof (induction n arbitrary: c)
  case 0
  then show ?case by (cases "c = root") simp_all
next
  case (Suc n)
  show ?case
  proof (cases "c = root \<or> (\<exists>e. first_live s (length (heap s)) (Right (itm s c)) = Inl e)")
    case True
    then show ?thesis using Suc.prems by (cases "c = root") auto
  next
    case False
    then obtain sib where "first_live s (length (heap s)) (Right (itm s c)) = Inr sib" "c \<noteq> root"
      by (cases "first_live s (length (heap s)) (Right (itm s c))") auto
    then show ?thesis using Suc.prems Suc.IH by (auto split: option.splits)
  qed
qed

lemma climb:
  assumes "doc_ok s" "(v, c) \<in> up s" "(c, root) \<in> (up s)\<^sup>*"
  shows "ebind (nextDeleteItem s v root) (\<lambda>nx. delete_loop root n nx s) = resume root n c (Right (itm s v)) s"
proof -
  have "acyclic (up s)" using doc_okD(5)[OF assms(1)] by (simp add: nest_ok_def)
  then have "v \<noteq> root" using assms(2,3) by (auto simp: acyclic_def dest: rtrancl_into_trancl2)
  obtain p where p: "Parent (itm s v) = Some p" "t_item (ty s p) = Some c" "v \<in> stored s"
    using assms(2) by (auto simp: up_container container_def split: option.splits)
  obtain m where m: "length (heap s) = Suc m" using stored_bound[OF assms(1) p(3)] by (cases "length (heap s)") auto
  have "card (ancestors s c) < m" using above_less[OF assms(1,2)] above_bound[OF assms(1) p(3)] m by linarith
  then obtain r where "next_delete s root m c = Inr r" using next_delete_total[OF assms(1,3)] by blast
  then have "next_delete s root m c = nextDeleteItem s c root" using next_delete_mono m by (simp add: nextDeleteItem_def)
  then have "nextDeleteItem s v root = ebind (first_live s (length (heap s)) (Right (itm s v))) (\<lambda>sib. case sib of Some sib \<Rightarrow> Inr (Some sib) | None \<Rightarrow> nextDeleteItem s c root)"
    unfolding nextDeleteItem_def[of s v] m using \<open>v \<noteq> root\<close> p m
    by (cases "first_live s (Suc m) (Right (itm s v))") (auto split: option.splits)
  then show ?thesis unfolding resume_def by (cases "first_live s (length (heap s)) (Right (itm s v))") (auto split: option.splits)
qed

definition subs :: "St \<Rightarrow> iaddr list \<Rightarrow> iaddr set" where
  "subs s zs = (\<Union>z \<in> {z \<in> set zs. \<not> Deleted (itm s z)}. sub s z)"

lemma subs_simps [simp]: "subs s [] = {}" "subs s (z # zs) = (if Deleted (itm s z) then {} else sub s z) \<union> subs s zs"
  by (auto simp: subs_def)

lemma sub_self [simp]: "a \<in> sub s a"
  by (simp add: sub_def)

lemma live_up_rtrancl: "(x, a) \<in> (live_up s)\<^sup>* \<Longrightarrow> (x, a) \<in> (up s)\<^sup>*"
  by (rule rtrancl_mono[THEN subsetD, rotated]) (auto simp: live_up_def)

lemma live_up_ends: "(x, a) \<in> (live_up s)\<^sup>* \<Longrightarrow> x \<noteq> a \<Longrightarrow> x \<in> stored s \<and> \<not> Deleted (itm s x)"
  by (induction rule: converse_rtrancl_induct) (auto simp: live_up_def up_def)

lemma sub_stored: "a \<in> stored s \<Longrightarrow> sub s a \<subseteq> stored s"
  unfolding sub_def using live_up_ends by blast

lemma single_valued_up: "single_valued (live_up s)"
  by (auto simp: single_valued_def live_up_def up_def)

lemma sub_disjoint:
  assumes "acyclic (up s)" "(z, c) \<in> live_up s" "(w, c) \<in> live_up s" "z \<noteq> w"
  shows "sub s z \<inter> sub s w = {}"
proof -
  have *: False if "(u, v) \<in> (live_up s)\<^sup>*" "(u, c) \<in> live_up s" "(v, c) \<in> live_up s" "u \<noteq> v" for u v
  proof -
    note uv = that
    obtain y where y: "(u, y) \<in> live_up s" "(y, v) \<in> (live_up s)\<^sup>*" using uv(1,4) by (meson converse_rtranclE)
    then have "y = c" using uv(2) single_valued_up[of s] by (auto simp: single_valued_def)
    then have "(c, c) \<in> (live_up s)\<^sup>+" using y(2) uv(3) by (simp add: rtrancl_into_trancl1)
    moreover have "(live_up s)\<^sup>+ \<subseteq> (up s)\<^sup>+" by (rule trancl_mono_subset) (auto simp: live_up_def)
    ultimately show False using assms(1) by (auto simp: acyclic_def)
  qed
  show ?thesis
  proof (rule ccontr)
    assume "\<not> ?thesis"
    then obtain x where "(x, z) \<in> (live_up s)\<^sup>*" "(x, w) \<in> (live_up s)\<^sup>*" by (auto simp: sub_def)
    then have "(z, w) \<in> (live_up s)\<^sup>* \<or> (w, z) \<in> (live_up s)\<^sup>*"
      by (rule single_valued_confluent[OF single_valued_up])
    then show False using *[of z w] *[of w z] assms by auto
  qed
qed

lemma subs_Cons:
  assumes "doc_ok s" "distinct (z # zs)" "\<forall>w \<in> set (z # zs). (w, c) \<in> up s" "\<not> Deleted (itm s z)"
  shows "sub s z \<inter> subs s zs = {}" "card (subs s (z # zs)) = card (sub s z) + card (subs s zs)"
proof -
  have ac: "acyclic (up s)" using doc_okD(5)[OF assms(1)] by (simp add: nest_ok_def)
  have "sub s z \<inter> sub s w = {}" if "w \<in> set zs" "\<not> Deleted (itm s w)" for w
    using sub_disjoint[OF ac, of z c w] that assms(2-4) by (auto simp: live_up_def)
  then show sd: "sub s z \<inter> subs s zs = {}" by (auto simp: subs_def)
  have "sub s w \<subseteq> stored s" if "w \<in> set (z # zs)" for w using sub_stored[of w s] assms(3) that by (auto simp: up_def)
  then have "sub s z \<subseteq> stored s" "subs s zs \<subseteq> stored s" by (auto simp: subs_def)
  then have "finite (sub s z)" "finite (subs s zs)" using finite_stored[OF assms(1)] finite_subset by blast+
  then show "card (subs s (z # zs)) = card (sub s z) + card (subs s zs)" using assms(4) sd by (simp add: card_Un_disjoint)
qed

lemma alike_first_live:
  assumes "alike s s'" "seg (heap s) prev p zs None lst"
  shows "first_live s' (length (heap s')) p = Inr (find (\<lambda>x. \<not> Deleted (itm s' x)) zs)"
proof -
  have sg: "seg (heap s') prev p zs None lst"
    by (rule seg_cong[OF _ assms(2)]) (use alike_item[OF assms(1)] assms(1) in \<open>auto simp: same_links_def alike_def\<close>)
  show ?thesis by (rule first_live_find[OF sg seg_length[OF sg]])
qed

text \<open>The loop deletes what is below an item, or below a list of siblings, and goes on past it.\<close>

definition sweeps :: "St \<Rightarrow> iaddr \<Rightarrow> iaddr \<Rightarrow> bool" where
  "sweeps s0 root c \<longleftrightarrow> (\<forall>D s n. marks s0 D s \<longrightarrow> D \<inter> sub s0 c = {} \<longrightarrow>
     (\<exists>s'. marks s (sub s0 c) s' \<and> delete_loop root (card (sub s0 c) + n) (Some c) s =
        ebind (nextDeleteItem s' c root) (\<lambda>nx. delete_loop root n nx s')))"

lemma sweep_siblings:
  assumes "doc_ok s0" "(c, root) \<in> (up s0)\<^sup>*" "\<And>z. (z, c) \<in> live_up s0 \<Longrightarrow> sweeps s0 root z"
    and "seg (heap s0) prev p zs None lst" "\<forall>z \<in> set zs. (z, c) \<in> up s0" "marks s0 D s" "D \<inter> subs s0 zs = {}"
  shows "\<exists>s'. marks s (subs s0 zs) s' \<and> resume root (card (subs s0 zs) + n) c p s =
     ebind (nextDeleteItem s' c root) (\<lambda>nx. delete_loop root n nx s')"
  using assms(4-7)
proof (induction zs arbitrary: prev p D s)
  case Nil
  then show ?case using inert_marks[OF marks_doc_ok[OF assms(1) Nil.prems(3)] inert_refl] by (auto simp: resume_def)
next
  case (Cons z zs)
  note al = Cons.prems(3)[unfolded marks_def, THEN conjunct1]
  have p: "p = Some z" and sg: "seg (heap s0) (Some z) (Right (itm s0 z)) zs None lst" and z: "z < length (heap s0)"
    using Cons.prems(1) by auto
  note fl = alike_first_live[OF al Cons.prems(1)] alike_first_live[OF al sg]
  show ?case
  proof (cases "Deleted (itm s0 z)")
    case True
    then have "Deleted (itm s z)" using Cons.prems(3) z by (simp add: marks_def)
    then have "resume root m c p s = resume root m c (Right (itm s0 z)) s" for m by (simp add: resume_def fl)
    then show ?thesis using Cons.IH[OF sg _ Cons.prems(3)] Cons.prems(2,4) True by simp
  next
    case False
    have zc: "(z, c) \<in> live_up s0" using False Cons.prems(2) by (simp add: live_up_def)
    have dj: "D \<inter> sub s0 z = {}" "D \<inter> subs s0 zs = {}" using Cons.prems(4) False by auto
    note k = subs_Cons[OF assms(1) seg_distinct[OF Cons.prems(1)] Cons.prems(2) False]
    obtain s1 where s1: "marks s (sub s0 z) s1" "delete_loop root (card (sub s0 z) + (card (subs s0 zs) + n)) (Some z) s =
        ebind (nextDeleteItem s1 z root) (\<lambda>nx. delete_loop root (card (subs s0 zs) + n) nx s1)"
      using assms(3)[OF zc] Cons.prems(3) dj(1) unfolding sweeps_def by blast
    note m1 = marks_trans[OF Cons.prems(3) s1(1)]
    then have al1: "alike s0 s1" by (simp add: marks_def)
    have "z \<notin> D" using dj(1) by auto
    then have "\<not> Deleted (itm s z)" using Cons.prems(3) z False by (simp add: marks_def)
    then have "resume root (card (subs s0 (z # zs)) + n) c p s = delete_loop root (card (subs s0 (z # zs)) + n) (Some z) s"
      by (simp add: resume_def fl)
    also have "\<dots> = resume root (card (subs s0 zs) + n) c (Right (itm s1 z)) s1" unfolding k(2) add.assoc s1(2)
      by (rule climb[OF marks_doc_ok[OF assms(1) m1]]) (use zc assms(2) alike_up[OF assms(1) al1] in \<open>auto simp: live_up_def\<close>)
    also have "Right (itm s1 z) = Right (itm s0 z)" using alike_item[OF al1 z] by (simp add: same_links_def)
    finally have r: "resume root (card (subs s0 (z # zs)) + n) c p s = resume root (card (subs s0 zs) + n) c (Right (itm s0 z)) s1" .
    obtain s' where s': "marks s1 (subs s0 zs) s'" "resume root (card (subs s0 zs) + n) c (Right (itm s0 z)) s1 =
        ebind (nextDeleteItem s' c root) (\<lambda>nx. delete_loop root n nx s')"
      using Cons.IH[OF sg _ m1] Cons.prems(2) dj k(1) by auto
    show ?thesis using marks_trans[OF s1(1) s'(1)] r s'(2) False by auto
  qed
qed

lemma nested_bound: "doc_ok s \<Longrightarrow> a \<in> stored s \<Longrightarrow> ItemContent (itm s a) = ContentType (Some t) \<Longrightarrow> t < length (types s)"
  unfolding doc_ok_def nest_ok_def by blast

lemma nested_item: "nested_ok s \<Longrightarrow> a \<in> stored s \<Longrightarrow> ItemContent (itm s a) = ContentType (Some t) \<Longrightarrow> t_item (ty s t) = Some a"
  unfolding nested_ok_def by blast

lemma live_children:
  assumes "doc_ok s" "nested_ok s" "c \<in> stored s"
  obtains zs lst where "seg (heap s) None (first_child s c) zs None lst" "\<forall>z \<in> set zs. (z, c) \<in> up s" "sub s c = insert c (subs s zs)" "c \<notin> subs s zs"
proof -
  define zs where "zs = (case ItemContent (itm s c) of ContentType (Some t) \<Rightarrow> listing s t | _ \<Rightarrow> [])"
  have ex: "(\<exists>lst. seg (heap s) None (first_child s c) zs None lst) \<and> set zs = {z. (z, c) \<in> up s}"
  proof (cases "\<exists>t. ItemContent (itm s c) = ContentType (Some t)")
    case True
    then obtain t where t: "ItemContent (itm s c) = ContentType (Some t)" by blast
    then have tl: "t < length (types s)" "t_item (ty s t) = Some c" using nested_bound[OF assms(1,3)] nested_item[OF assms(2,3)] by simp_all
    have "Parent (itm s z) = Some t \<longleftrightarrow> container s z = Some c" if "z \<in> stored s" for z
    proof
      assume "container s z = Some c"
      then obtain t' where t': "Parent (itm s z) = Some t'" "t_item (ty s t') = Some c" by (auto simp: container_def split: option.splits)
      then show "Parent (itm s z) = Some t"
        using t_item_stored[OF assms(1) parent_bound[OF assms(1) that t'(1)] t'(2)] t by simp
    qed (simp add: container_def tl)
    then have "set (listing s t) = {z. (z, c) \<in> up s}" using listing_iff[OF assms(1) tl(1)] by (auto simp: up_container)
    then show ?thesis using listing_dll[OF assms(1) tl(1)] by (simp add: zs_def first_child_def t dll_def)
  next
    case False
    then have "zs = []" "first_child s c = None" by (auto simp: zs_def first_child_def split: content.splits option.splits)
    moreover have "container s z \<noteq> Some c" if "z \<in> stored s" for z
      using False t_item_stored[OF assms(1) parent_bound[OF assms(1) that]] by (auto simp: container_def split: option.splits)
    ultimately show ?thesis by (auto simp: up_container)
  qed
  then have "{z \<in> set zs. \<not> Deleted (itm s z)} = {z. (z, c) \<in> live_up s}" by (auto simp: live_up_def)
  then have b: "x \<in> subs s zs \<longleftrightarrow> (x, c) \<in> (live_up s)\<^sup>+" for x
    unfolding subs_def sub_def by (auto intro: rtrancl_into_trancl1 dest: tranclD2)
  have "acyclic (live_up s)" by (rule acyclic_subset[of "up s"]) (use doc_okD(5)[OF assms(1)] in \<open>auto simp: nest_ok_def live_up_def\<close>)
  then have "c \<notin> subs s zs" by (simp add: b acyclic_def)
  moreover have "sub s c = insert c (subs s zs)" by (auto simp: sub_def b rtrancl_eq_or_trancl)
  ultimately show thesis using ex that by auto
qed

lemma alike_first_child: "doc_ok s \<Longrightarrow> alike s s' \<Longrightarrow> c \<in> stored s \<Longrightarrow> first_child s' c = first_child s c"
  using alike_item[of s s' c] stored_bound[of s c] nested_bound[of s c]
  by (auto simp: first_child_def same_links_def alike_def split: content.splits option.splits)

lemma wf_up: "doc_ok s \<Longrightarrow> wf (up s)"
proof -
  assume a: "doc_ok s"
  have "up s \<subseteq> stored s \<times> stored s" by (auto simp: up_container dest: container_stored[OF a])
  then have "finite (up s)" using finite_stored[OF a] by (meson finite_SigmaI finite_subset)
  then show ?thesis using doc_okD(5)[OF a] by (simp add: nest_ok_def finite_acyclic_wf)
qed

lemma sweep:
  assumes "doc_ok s0" "nested_ok s0"
  shows "c \<in> stored s0 \<Longrightarrow> (c, root) \<in> (up s0)\<^sup>* \<Longrightarrow> \<not> Deleted (itm s0 c) \<Longrightarrow> sweeps s0 root c"
proof (induction c rule: wf_induct_rule[OF wf_up[OF assms(1)]])
  case (1 c)
  obtain zs lst where zs: "seg (heap s0) None (first_child s0 c) zs None lst" "\<forall>z \<in> set zs. (z, c) \<in> up s0"
      "sub s0 c = insert c (subs s0 zs)" "c \<notin> subs s0 zs"
    using live_children[OF assms 1(2)] by blast
  have fin: "finite (subs s0 zs)" using zs(3) finite_subset[OF sub_stored[OF 1(2)] finite_stored[OF assms(1)]] by simp
  have below: "sweeps s0 root z" if "(z, c) \<in> live_up s0" for z
    using that 1(1)[of z] 1(3) by (auto simp: live_up_def up_def intro: converse_rtrancl_into_rtrancl)
  show ?case unfolding sweeps_def
  proof (intro allI impI)
    fix D s n assume m: "marks s0 D s" "D \<inter> sub s0 c = {}"
    note al = m(1)[unfolded marks_def, THEN conjunct1]
    have nd: "\<not> Deleted (itm s c)" using m 1(4) stored_bound[OF assms(1) 1(2)] zs(3) by (auto simp: marks_def)
    have m1: "marks s {c} (tombstone c s)"
      by (rule tombstone_marks[OF marks_doc_ok[OF assms(1) m(1)] _ nd]) (simp add: alike_stored[OF al] 1(2))
    note m2 = marks_trans[OF m(1) m1]
    then have fc: "first_child (tombstone c s) c = first_child s0 c" by (intro alike_first_child[OF assms(1) _ 1(2)]) (simp add: marks_def)
    have dj: "(D \<union> {c}) \<inter> subs s0 zs = {}" using m(2) zs(3,4) by auto
    obtain s' where s': "marks (tombstone c s) (subs s0 zs) s'" "resume root (card (subs s0 zs) + n) c (first_child s0 c) (tombstone c s) =
        ebind (nextDeleteItem s' c root) (\<lambda>nx. delete_loop root n nx s')"
      using sweep_siblings[OF assms(1) 1(3) below zs(1,2) m2 dj, of n] by blast
    have "delete_loop root (card (sub s0 c) + n) (Some c) s = resume root (card (subs s0 zs) + n) c (first_child s0 c) (tombstone c s)"
      using delete_step[OF nd, of root "card (subs s0 zs) + n"] zs(3,4) fin fc by simp
    then show "\<exists>s'. marks s (sub s0 c) s' \<and> delete_loop root (card (sub s0 c) + n) (Some c) s =
        ebind (nextDeleteItem s' c root) (\<lambda>nx. delete_loop root n nx s')"
      using marks_trans[OF m1 s'(1)] s'(2) zs(3) by auto
  qed
qed

lemma item_delete_marks:
  assumes "doc_ok s" "nested_ok s" "a \<in> stored s"
  obtains s' where "item_delete a s = Inr s'" "marks s (if Deleted (itm s a) then {} else sub s a) s'"
proof (cases "Deleted (itm s a)")
  case True
  then have "item_delete a s = Inr s" by (simp add: item_delete_def nextDeleteItem_def)
  then show ?thesis using that[of s] True inert_marks[OF assms(1) inert_refl] by simp
next
  case False
  define k where "k = Suc (length (heap s)) - card (sub s a)"
  have k: "Suc (length (heap s)) = card (sub s a) + k" using card_stored[OF assms(1) sub_stored[OF assms(3)]] by (simp add: k_def)
  obtain s' where s': "marks s (sub s a) s'" "delete_loop a (card (sub s a) + k) (Some a) s = ebind (nextDeleteItem s' a a) (\<lambda>nx. delete_loop a k nx s')"
    using sweep[OF assms, of a] inert_marks[OF assms(1) inert_refl] False unfolding sweeps_def by blast
  then have "item_delete a s = Inr s'" unfolding item_delete_def k by (simp add: nextDeleteItem_def)
  then show ?thesis using that s'(1) False by simp
qed


subsection \<open>Properties\<close>

text \<open>A list that holds a text: item 0 is the text, item 1 the letter in it.\<close>

definition nest_doc :: St where
  "nest_doc = new_state [plain_item 1 0 None None 0 (ContentType (Some 1)), plain_item 1 1 None None 1 (ContentString [0x61] 1)]
     [(new_type YArray)\<lparr>t_start := Some 0, t_length := 1\<rparr>, (new_type YText)\<lparr>t_start := Some 1, t_length := 1, t_item := Some 0\<rparr>] [(1, [0, 1])]"

lemma nest_parts [simp]:
  "heap nest_doc = [plain_item 1 0 None None 0 (ContentType (Some 1)), plain_item 1 1 None None 1 (ContentString [0x61] 1)]"
  "types nest_doc = [(new_type YArray)\<lparr>t_start := Some 0, t_length := 1\<rparr>, (new_type YText)\<lparr>t_start := Some 1, t_length := 1, t_item := Some 0\<rparr>]"
  "distinct (map fst (clients nest_doc))"
  "items_of nest_doc c = (if c = 1 then [0, 1] else [])"
  by (simp_all add: nest_doc_def new_state_def map_list_def)

lemma less_two: "t < Suc (Suc 0) \<longleftrightarrow> t = 0 \<or> t = Suc 0"
  by auto

lemma nest_ok: "doc_ok nest_doc" "nested_ok nest_doc" "stored nest_doc = {0, 1}" "(1, 0) \<in> live_up nest_doc"
proof -
  show st: "stored nest_doc = {0, 1}" by (auto simp: stored_def split: if_splits)
  have "utf16Len [0x61] = 1" "valid_utf8 [0x61]" by (simp_all add: utf16Len.simps valid_utf8.simps utf8_eval)
  then have s: "store_ok nest_doc" by (simp add: store_ok_def plain_item_def isize_def good_def)
  have d: "dll nest_doc 0 [0]" "dll nest_doc 1 [1]" by (simp_all add: dll_def plain_item_def)
  note l = d[THEN dll_listing]
  have e: "{a \<in> stored nest_doc. Parent (itm nest_doc a) = Some 0} = {0}" "{a \<in> stored nest_doc. Parent (itm nest_doc a) = Some 1} = {1}"
    unfolding st by (auto simp: plain_item_def)
  have "dll nest_doc t (listing nest_doc t) \<and> set (listing nest_doc t) = {a \<in> stored nest_doc. Parent (itm nest_doc a) = Some t}"
    if "t < length (types nest_doc)" for t
  proof -
    have "t = 0 \<or> t = 1" using that by (simp add: less_two)
    then show ?thesis using d by (elim disjE) (simp_all only: l e list.set simp_thms)
  qed
  moreover have "t < length (types nest_doc)" if "a \<in> stored nest_doc" "Parent (itm nest_doc a) = Some t" for a t
    using that by (auto simp: st plain_item_def)
  ultimately have "lists_ok nest_doc" unfolding lists_ok_def by blast
  moreover have "links_ok nest_doc" by (simp add: links_ok_def st plain_item_def)
  moreover have "counts_ok nest_doc" using l by (simp add: counts_ok_def less_two visible_len_def plain_item_def)
  moreover have c: "container nest_doc 0 = None" "container nest_doc 1 = Some 0" by (simp_all add: container_def plain_item_def new_type_def)
  have u: "up nest_doc = {(1, 0)}"
  proof -
    have "(x, y) \<in> up nest_doc \<longleftrightarrow> (x, y) = (1, 0)" for x y using c by (auto simp: up_def st)
    then show ?thesis by auto
  qed
  then have "acyclic (up nest_doc)" by (simp add: acyclic_insert wf_acyclic)
  then have "nest_ok nest_doc" by (auto simp: nest_ok_def st plain_item_def less_two new_type_def)
  moreover have "entries_ok nest_doc" by (simp add: entries_ok_def less_two new_type_def)
  ultimately show "doc_ok nest_doc" using s by (simp add: doc_ok_def)
  show "nested_ok nest_doc" by (simp add: nested_ok_def st plain_item_def)
  show "(1, 0) \<in> live_up nest_doc" by (simp add: live_up_def u plain_item_def)
qed

text \<open>
  C4: deleting a stored item always returns, and deletes exactly it and the live items nested in it through live
  containers; nothing happens when it is deleted already.  The document stays well formed, so the lengths of the types
  are those of what is still visible, and no list and no clock changes.
\<close>

theorem delete_cascade:
  assumes "doc_ok s" "nested_ok s" "a \<in> stored s"
  shows "\<exists>s'. item_delete a s = Inr s' \<and> doc_ok s' \<and>
    (\<forall>x \<in> stored s. Deleted (itm s' x) \<longleftrightarrow> Deleted (itm s x) \<or> \<not> Deleted (itm s a) \<and> (x, a) \<in> (live_up s)\<^sup>*) \<and>
    stored s' = stored s \<and> (\<forall>c. NextClock s' c = NextClock s c) \<and> (\<forall>t < length (types s). sequence s' t = sequence s t)"
proof -
  obtain s' where s': "item_delete a s = Inr s'" "marks s (if Deleted (itm s a) then {} else sub s a) s'" by (rule item_delete_marks[OF assms])
  then have al: "alike s s'" by (simp add: marks_def)
  have "Deleted (itm s' x) \<longleftrightarrow> Deleted (itm s x) \<or> \<not> Deleted (itm s a) \<and> (x, a) \<in> (live_up s)\<^sup>*" if "x \<in> stored s" for x
    using s'(2) stored_bound[OF assms(1) that] by (auto simp: marks_def sub_def)
  then show ?thesis using s' marks_doc_ok[OF assms(1) s'(2)] alike_stored[OF al] alike_NextClock[OF assms(1) al] alike_listing(3)[OF assms(1) al] by auto
qed

theorem delete_cascade_witness: "\<exists>s'. item_delete 0 nest_doc = Inr s' \<and> doc_ok s' \<and> Deleted (itm s' 0) \<and> Deleted (itm s' 1)"
proof -
  have "0 \<in> stored nest_doc" by (simp add: nest_ok(3))
  from delete_cascade[OF nest_ok(1,2) this] obtain s' where s': "item_delete 0 nest_doc = Inr s'" "doc_ok s'"
    "\<forall>x \<in> stored nest_doc. Deleted (itm s' x) \<longleftrightarrow> Deleted (itm nest_doc x) \<or> \<not> Deleted (itm nest_doc 0) \<and> (x, 0) \<in> (live_up nest_doc)\<^sup>*" by blast
  have "\<not> Deleted (itm nest_doc 0)" by (simp add: plain_item_def)
  then have "Deleted (itm s' 0)" "Deleted (itm s' 1)" using s'(3) nest_ok(4) unfolding nest_ok(3) by blast+
  then show ?thesis using s' by blast
qed

text \<open>
  C12: the delete set of the transaction records a deletion exactly: it gains the identifiers of the items that the
  cascade tombstones and no others.
\<close>

theorem delete_recorded:
  assumes "doc_ok s" "nested_ok s" "a \<in> stored s" "ds_inv (deleteSet s)" "\<not> Deleted (itm s a)" "item_delete a s = Inr s'"
  shows "ds_inv (deleteSet s') \<and> (IsDeleted (deleteSet s') i \<longleftrightarrow> IsDeleted (deleteSet s) i \<or> (\<exists>x. (x, a) \<in> (live_up s)\<^sup>* \<and> holds s i x))"
proof -
  have m: "marks s (sub s a) s'" using item_delete_marks[OF assms(1-3)] assms(5,6) by (metis Inr_inject)
  then have d: "ds_inv (deleteSet s')" "deleted (deleteSet s') c = deleted (deleteSet s) c \<union> clocks_of s (sub s a) c" for c
    using assms(4) by (simp_all add: marks_def)
  have "x < length (heap s) \<and> iclient (itm s x) = c \<longleftrightarrow> x \<in> set (items_of s c)" if "x \<in> sub s a" for x c
  proof -
    have x: "x \<in> stored s" using that sub_stored[OF assms(3)] by blast
    then show ?thesis using stored_bound[OF assms(1)] stored_client[OF doc_okD(1)[OF assms(1)]] store_member(1,2)[OF doc_okD(1)[OF assms(1)]] by blast
  qed
  then have "unat (IdClock i) \<in> clocks_of s (sub s a) (Client i) \<longleftrightarrow> (\<exists>x \<in> sub s a. holds s i x)"
    unfolding clocks_of_def holds_def by blast
  then show ?thesis using d assms(4) by (simp add: IsDeleted_correct sub_def)
qed

theorem delete_recorded_witness:
  "\<exists>s'. item_delete 0 nest_doc = Inr s' \<and> IsDeleted (deleteSet s') \<lparr>Client = 1, IdClock = 1\<rparr>"
proof -
  have st: "0 \<in> stored nest_doc" by (simp add: nest_ok(3))
  have nd: "\<not> Deleted (itm nest_doc 0)" by (simp add: plain_item_def)
  have ds: "ds_inv (deleteSet nest_doc)" by (simp add: nest_doc_def new_state_def)
  obtain s' where s': "item_delete 0 nest_doc = Inr s'" by (rule item_delete_marks[OF nest_ok(1,2) st])
  have "holds nest_doc \<lparr>Client = 1, IdClock = 1\<rparr> 1" by (simp add: holds_def plain_item_def isize_def)
  then have "IsDeleted (deleteSet s') \<lparr>Client = 1, IdClock = 1\<rparr>"
    using delete_recorded[OF nest_ok(1,2) st ds nd s', of "\<lparr>Client = 1, IdClock = 1\<rparr>"] nest_ok(4) by blast
  then show ?thesis using s' by blast
qed

end
