(* ===== verification/Item_Placement.thy ===== *)
theory Item_Placement
  imports Delete_Cascade
begin

text \<open>
  Linking an item into the list of its parent, counting it and appending it to the store: the item takes its place in
  the list, and the document stays well formed.
\<close>

subsection \<open>Linking an item into a list\<close>

definition next_of :: "St \<Rightarrow> taddr \<Rightarrow> iaddr option \<Rightarrow> iaddr option" where
  "next_of s p left = (case left of None \<Rightarrow> t_start (ty s p) | Some l \<Rightarrow> Right (itm s l))"

lemma link_heap:
  assumes "a < length (heap s)" "left \<noteq> Some a" "next_of s p left \<noteq> Some a"
    "\<And>l. left = Some l \<Longrightarrow> l < length (heap s) \<and> next_of s p left \<noteq> Some l" "\<And>r. next_of s p left = Some r \<Longrightarrow> r < length (heap s)"
  shows "length (heap (link a p left s)) = length (heap s)"
    "itm (link a p left s) x = (if x = a then (itm s a)\<lparr>Left := left, Right := next_of s p left\<rparr>
       else if left = Some x then (itm s x)\<lparr>Right := Some a\<rparr> else if next_of s p left = Some x then (itm s x)\<lparr>Left := Some a\<rparr> else itm s x)"
proof -
  have i: "heap (invalidateFirstLiveCache p s) = heap s" for s by (simp add: invalidateFirstLiveCache_def)
  have w: "heap (when_some r (\<lambda>r. upd r (\<lambda>i. i\<lparr>Left := Some a\<rparr>)) s) ! x =
      (if r = Some x \<and> x < length (heap s) then (itm s x)\<lparr>Left := Some a\<rparr> else itm s x)" "length (heap (when_some r (\<lambda>r. upd r (\<lambda>i. i\<lparr>Left := Some a\<rparr>)) s)) = length (heap s)" for r s
    by (cases r; auto simp: nth_update_if)+
  show "length (heap (link a p left s)) = length (heap s)"
    by (simp add: link_def Let_def w(2) i split: option.splits)
  show "itm (link a p left s) x = (if x = a then (itm s a)\<lparr>Left := left, Right := next_of s p left\<rparr>
       else if left = Some x then (itm s x)\<lparr>Right := Some a\<rparr> else if next_of s p left = Some x then (itm s x)\<lparr>Left := Some a\<rparr> else itm s x)"
  proof (cases left)
    case None
    then have "next_of s p left = t_start (ty s p)" by (simp add: next_of_def)
    then show ?thesis using None assms by (simp add: link_def Let_def w i nth_update_if)
  next
    case (Some l)
    then have n: "next_of s p left = Right (itm s l)" "l < length (heap s)" "l \<noteq> a" "Right (itm s l) \<noteq> Some l" "Right (itm s l) \<noteq> Some a"
      using assms by (simp_all add: next_of_def)
    have h: "heap (link a p left s) = heap (when_some (Right (itm s l)) (\<lambda>r. upd r (\<lambda>i. i\<lparr>Left := Some a\<rparr>))
        (upd l (\<lambda>i. i\<lparr>Right := Some a\<rparr>) (upd a (\<lambda>i. i\<lparr>Left := Some l, Right := Right (itm s l)\<rparr>) s)))"
      using assms(1) n(2,3) Some by (cases "Right (itm s l)") (simp_all add: link_def Let_def i)
    show ?thesis unfolding h w n(1) using Some assms(1) assms(5)[unfolded n(1)] n(2-) by (cases "x = a"; cases "x = l") simp_all
  qed
qed

lemma link_types:
  "length (types (link a p left s)) = length (types s)" "clients (link a p left s) = clients s" "deleteSet (link a p left s) = deleteSet s"
  "t_start (ty (link a p left s) t) = (if t = p \<and> t < length (types s) \<and> left = None then Some a else t_start (ty s t))"
  "t_item (ty (link a p left s) t) = t_item (ty s t)" "itemMap (ty (link a p left s) t) = itemMap (ty s t)" "t_length (ty (link a p left s) t) = t_length (ty s t)"
proof -
  have w: "types (when_some r (\<lambda>r. upd r f) s) = types s" "clients (when_some r (\<lambda>r. upd r f) s) = clients s" "deleteSet (when_some r (\<lambda>r. upd r f) s) = deleteSet s" for r f s
    by (cases r; simp add: upd_def)+
  have i: "deleteSet (upd x f s) = deleteSet s" "deleteSet (updt t g s) = deleteSet s" for x f t g s by (simp_all add: upd_def updt_def)
  show "length (types (link a p left s)) = length (types s)" "clients (link a p left s) = clients s" "deleteSet (link a p left s) = deleteSet s"
    by (simp_all add: link_def Let_def w invalidateFirstLiveCache_def i split: option.splits)
  show "t_start (ty (link a p left s) t) = (if t = p \<and> t < length (types s) \<and> left = None then Some a else t_start (ty s t))"
    "t_item (ty (link a p left s) t) = t_item (ty s t)" "itemMap (ty (link a p left s) t) = itemMap (ty s t)" "t_length (ty (link a p left s) t) = t_length (ty s t)"
    by (cases left; simp add: link_def Let_def w invalidateFirstLiveCache_def nth_update_if)+
qed

lemma count_in_frame:
  "heap (count_in a p s) = heap s" "clients (count_in a p s) = clients s" "deleteSet (count_in a p s) = deleteSet s"
  "length (types (count_in a p s)) = length (types s)"
  "t_start (ty (count_in a p s) t) = t_start (ty s t)" "t_item (ty (count_in a p s) t) = t_item (ty s t)" "itemMap (ty (count_in a p s) t) = itemMap (ty s t)"
  "t_length (ty (count_in a p s) t) = t_length (ty s t) + (if t = p \<and> t < length (types s) then visible_len (itm s a) else 0)"
proof -
  have i: "deleteSet (updt t g s) = deleteSet s" for t g s by (simp add: updt_def)
  note d = count_in_def Let_def updateMarkerChanges_def dropUncountedMarkersAt_def clearMarkers_def
  show "heap (count_in a p s) = heap s" "clients (count_in a p s) = clients s" "deleteSet (count_in a p s) = deleteSet s"
    "length (types (count_in a p s)) = length (types s)" by (simp_all add: d i split: option.splits)
  show "t_start (ty (count_in a p s) t) = t_start (ty s t)" "t_item (ty (count_in a p s) t) = t_item (ty s t)" "itemMap (ty (count_in a p s) t) = itemMap (ty s t)"
    by (simp_all add: d nth_update_if split: option.splits)
  have m: "t_length (ty (updateMarkerChanges p k n s) u) = t_length (ty s u)" "t_length (ty (dropUncountedMarkersAt p k s) u) = t_length (ty s u)"
    "t_length (ty (clearMarkers p s) u) = t_length (ty s u)" "t_length (ty (updt p (\<lambda>y. y\<lparr>insertHint := k\<rparr>) s) u) = t_length (ty s u)"
    "t_length (ty (updt p (\<lambda>y. y\<lparr>t_length := t_length y + n\<rparr>) s) u) = t_length (ty s u) + (if u = p \<and> u < length (types s) then n else 0)"
    "length (types (updt p f s)) = length (types s)" for k n s u f
    by (auto simp: d nth_update_if)
  show "t_length (ty (count_in a p s) t) = t_length (ty s t) + (if t = p \<and> t < length (types s) then visible_len (itm s a) else 0)"
  proof (cases "t = p \<and> t < length (types s)")
    case True
    then show ?thesis unfolding count_in_def Let_def visible_len_def by (simp add: m del: upd_simps(5) split: option.splits)
  next
    case False
    then have e: "t_length (ty (updt p (\<lambda>y. y\<lparr>t_length := t_length y + n\<rparr>) (updt p (\<lambda>y. y\<lparr>insertHint := k\<rparr>) s)) t) = t_length (ty s t)" for n k
      using m(4,6) m(5)[of n "updt p (\<lambda>y. y\<lparr>insertHint := k\<rparr>) s" t] by (auto simp del: upd_simps(5))
    show ?thesis using False unfolding count_in_def Let_def visible_len_def by (auto simp add: e m(1-4,6) simp del: upd_simps(5) split: option.splits)
  qed
qed

definition left_end :: "iaddr list \<Rightarrow> iaddr option" where
  "left_end us = (if us = [] then None else Some (last us))"

definition right_end :: "iaddr list \<Rightarrow> iaddr option" where
  "right_end vs = (if vs = [] then None else Some (hd vs))"

text \<open>What placing an item between two parts of a list does to the state.\<close>

definition inserted :: "St \<Rightarrow> iaddr \<Rightarrow> taddr \<Rightarrow> iaddr list \<Rightarrow> iaddr list \<Rightarrow> St \<Rightarrow> bool" where
  "inserted s a p us vs s' \<longleftrightarrow> length (heap s') = length (heap s) \<and> length (types s') = length (types s) \<and> deleteSet s' = deleteSet s \<and>
     (\<forall>x < length (heap s). itm s' x = (if x = a then (itm s a)\<lparr>Left := left_end us, Right := right_end vs\<rparr>
        else if left_end us = Some x then (itm s x)\<lparr>Right := Some a\<rparr> else if right_end vs = Some x then (itm s x)\<lparr>Left := Some a\<rparr> else itm s x)) \<and>
     (\<forall>t < length (types s). t_start (ty s' t) = (if t = p \<and> us = [] then Some a else t_start (ty s t)) \<and>
        t_item (ty s' t) = t_item (ty s t) \<and> itemMap (ty s' t) = itemMap (ty s t) \<and>
        t_length (ty s' t) = t_length (ty s t) + (if t = p then visible_len (itm s a) else 0)) \<and>
     items_of s' = (items_of s)(iclient (itm s a) := items_of s (iclient (itm s a)) @ [a]) \<and> distinct (map fst (clients s'))"

lemma seg_next: "seg h prev p us q m \<Longrightarrow> q = (if us = [] then p else Right (h ! last us)) \<and> m = (if us = [] then prev else Some (last us))"
  by (induction us arbitrary: prev p) auto

lemma dll_parts:
  assumes "dll s p (us @ vs)"
  obtains lst where "seg (heap s) None (t_start (ty s p)) us (right_end vs) (left_end us)" "seg (heap s) (left_end us) (right_end vs) vs None lst"
    "next_of s p (left_end us) = right_end vs"
proof -
  obtain q m lst where u: "seg (heap s) None (t_start (ty s p)) us q m" and v: "seg (heap s) m q vs None lst" using assms by (auto simp: dll_def seg_append)
  have "m = left_end us" "q = right_end vs" "next_of s p (left_end us) = q"
    using seg_next[OF u] seg_ends[OF v] by (auto simp: left_end_def right_end_def next_of_def)
  then show thesis using that u v by simp
qed

lemma placed:
  assumes "doc_ok s" "p < length (types s)" "a < length (heap s)" "a \<notin> stored s" "listing s p = us @ vs"
  shows "inserted s a p us vs (Append a (count_in a p (link a p (left_end us) s)))"
proof -
  have d: "dll s p (us @ vs)" using listing_dll[OF assms(1,2)] assms(5) by simp
  then obtain lst where n: "next_of s p (left_end us) = right_end vs" by (rule dll_parts)
  have m: "x \<in> stored s \<and> x < length (heap s) \<and> x \<noteq> a" if "x \<in> set (us @ vs)" for x
    using that listing_iff[OF assms(1,2), of x] stored_bound[OF assms(1), of x] assms(4,5) by auto
  have e: "left_end us = Some x \<Longrightarrow> x \<in> set us" "right_end vs = Some x \<Longrightarrow> x \<in> set vs" for x
    by (auto simp: left_end_def right_end_def split: if_splits)
  have dj: "x \<notin> set vs" if "x \<in> set us" for x using dll_distinct[OF d] that by auto
  have c: "a < length (heap s)" "left_end us \<noteq> Some a" "next_of s p (left_end us) \<noteq> Some a"
    "\<And>l. left_end us = Some l \<Longrightarrow> l < length (heap s) \<and> next_of s p (left_end us) \<noteq> Some l" "\<And>r. next_of s p (left_end us) = Some r \<Longrightarrow> r < length (heap s)"
    using assms(3) m e dj unfolding n by auto
  note h = link_heap[OF c, unfolded n] and l = link_types[of a p "left_end us" s] and k = count_in_frame[of a p "link a p (left_end us) s"]
  have v: "visible_len (i\<lparr>Left := x, Right := y\<rparr>) = visible_len i" "iclient (itm (link a p (left_end us) s) a) = iclient (itm s a)" for i x y
    by (simp_all add: h visible_len_def)
  have ne: "left_end us = None \<longleftrightarrow> us = []" by (simp add: left_end_def)
  have "distinct (map fst (clients s))" using doc_okD(1)[OF assms(1)] by (simp add: store_ok_def)
  then show ?thesis unfolding inserted_def Append_def Let_def by (simp add: h l k v ne)
qed

lemma seg_relink:
  assumes "seg h prev p us q m" "distinct us" "us \<noteq> [] \<Longrightarrow> Right (h' ! last us) = q'"
    and "\<And>x. x \<in> set us \<Longrightarrow> x < length h' \<and> Left (h' ! x) = Left (h ! x) \<and> (x \<noteq> last us \<longrightarrow> Right (h' ! x) = Right (h ! x))"
  shows "seg h' prev (if us = [] then q' else p) us q' m"
  using assms
proof (induction us arbitrary: prev p)
  case (Cons x us)
  have "seg h' (Some x) (if us = [] then q' else Right (h ! x)) us q' m"
  proof (rule Cons.IH)
    show "seg h (Some x) (Right (h ! x)) us q m" using Cons.prems(1) by simp
    show "y \<in> set us \<Longrightarrow> y < length h' \<and> Left (h' ! y) = Left (h ! y) \<and> (y \<noteq> last us \<longrightarrow> Right (h' ! y) = Right (h ! y))" for y
      using Cons.prems(4)[of y] by (cases "us = []") auto
  qed (use Cons.prems in \<open>auto split: if_splits\<close>)
  then show ?case using Cons.prems(1,2,3) Cons.prems(4)[of x] last_in_set[of us] by (cases "us = []") auto
qed simp

lemma seg_reprev:
  assumes "seg h m q vs None lst" "distinct vs" "vs \<noteq> [] \<Longrightarrow> Left (h' ! hd vs) = m'"
    and "\<And>x. x \<in> set vs \<Longrightarrow> x < length h' \<and> Right (h' ! x) = Right (h ! x) \<and> (x \<noteq> hd vs \<longrightarrow> Left (h' ! x) = Left (h ! x))"
  shows "\<exists>lst. seg h' m' q vs None lst"
proof (cases vs)
  case (Cons y ys)
  have "seg h' (Some y) (Right (h ! y)) ys None lst"
  proof (rule seg_cong)
    show "seg h (Some y) (Right (h ! y)) ys None lst" using assms(1) Cons by simp
    show "x < length h' \<and> Left (h' ! x) = Left (h ! x) \<and> Right (h' ! x) = Right (h ! x)" if "x \<in> set ys" for x
      using assms(2) assms(4)[of x] that Cons by auto
  qed
  then show ?thesis using assms(1,3) assms(4)[of y] Cons by auto
qed (use assms(1) in auto)

text \<open>An item ready to be placed: it is not stored, its run starts at the next clock of its client, and what it holds is new.\<close>

definition fresh_item :: "St \<Rightarrow> iaddr \<Rightarrow> taddr \<Rightarrow> bool" where
  "fresh_item s a p \<longleftrightarrow> a < length (heap s) \<and> a \<notin> stored s \<and> Parent (itm s a) = Some p \<and> p < length (types s) \<and> good (itm s a) \<and>
     istart (itm s a) = unat (NextClock s (iclient (itm s a))) \<and> istop (itm s a) < 2 ^ 64 \<and>
     (\<forall>t. ItemContent (itm s a) = ContentType (Some t) \<longrightarrow> t < length (types s) \<and> t \<noteq> p \<and> t_item (ty s t) = None \<and>
        (\<forall>x \<in> stored s. Parent (itm s x) \<noteq> Some t \<and> ItemContent (itm s x) \<noteq> ContentType (Some t)))"

lemma inserted_item:
  assumes "inserted s a p us vs s'" "x < length (heap s)"
  shows "ItemID (itm s' x) = ItemID (itm s x)" "ItemContent (itm s' x) = ItemContent (itm s x)" "Parent (itm s' x) = Parent (itm s x)"
    "ParentSub (itm s' x) = ParentSub (itm s x)" "Deleted (itm s' x) = Deleted (itm s x)" "visible_len (itm s' x) = visible_len (itm s x)"
    "Origin (itm s' x) = Origin (itm s x)" "OriginRight (itm s' x) = OriginRight (itm s x)"
  using assms by (auto simp: inserted_def visible_len_def)

lemma inserted_store:
  assumes "doc_ok s" "fresh_item s a p" "inserted s a p us vs s'"
  shows "store_ok s'" "stored s' = insert a (stored s)" "run_end (heap s') 0 (items_of s' c) = run_end (heap s) 0 (items_of s c) + (if c = iclient (itm s a) then isize (itm s a) else 0)"
proof -
  let ?c = "iclient (itm s a)"
  note i = inserted_item[OF assms(3)] and ok = doc_okD(1)[OF assms(1)]
  have a: "a < length (heap s)" "good (itm s a)" "istart (itm s a) = run_end (heap s) 0 (items_of s ?c)" "istop (itm s a) < 2 ^ 64"
    using assms(2) NextClock_correct[OF ok] by (simp_all add: fresh_item_def)
  have f: "length (heap s') = length (heap s)" "items_of s' = (items_of s)(?c := items_of s ?c @ [a])" "distinct (map fst (clients s'))"
    using assms(3) unfolding inserted_def by blast+
  have sz: "isize (itm s' x) = isize (itm s x)" "good (itm s' x) = good (itm s x)" if "x < length (heap s)" for x
    using i[OF that] by (simp_all add: isize_def good_def)
  have r: "run (heap s') c 0 (items_of s c)" "run_end (heap s') 0 (items_of s c) = run_end (heap s) 0 (items_of s c)" for c
    using run_cong[of "items_of s c" "heap s" "heap s'" c 0] i f(1) store_okD(1)[OF ok] by auto
  show e: "run_end (heap s') 0 (items_of s' c) = run_end (heap s) 0 (items_of s c) + (if c = iclient (itm s a) then isize (itm s a) else 0)" for c
    using r(2)[of c] sz(1)[OF a(1)] f(2) by auto
  have "run (heap s') c 0 (items_of s' c)" for c
    using r[of c] i(1)[OF a(1)] sz[OF a(1)] a f by (auto simp: f(2))
  then show "store_ok s'" using e a f(3) store_okD(2)[OF ok] by (auto simp: store_ok_def)
  show "stored s' = insert a (stored s)" by (auto simp: stored_def f(2) split: if_splits)
qed

lemma inserted_dll:
  assumes "doc_ok s" "fresh_item s a p" "inserted s a p us vs s'" "listing s p = us @ vs" "t < length (types s)"
  shows "dll s' t (if t = p then us @ a # vs else listing s t)" "listing s' t = (if t = p then us @ a # vs else listing s t)"
proof -
  have a: "a < length (heap s)" "a \<notin> stored s" "p < length (types s)" using assms(2) by (simp_all add: fresh_item_def)
  have h: "length (heap s') = length (heap s)" "\<And>x. x < length (heap s) \<Longrightarrow> itm s' x = (if x = a then (itm s a)\<lparr>Left := left_end us, Right := right_end vs\<rparr>
        else if left_end us = Some x then (itm s x)\<lparr>Right := Some a\<rparr> else if right_end vs = Some x then (itm s x)\<lparr>Left := Some a\<rparr> else itm s x)"
    and st: "t_start (ty s' t) = (if t = p \<and> us = [] then Some a else t_start (ty s t))"
    using assms(3,5) by (simp_all add: inserted_def)
  have e: "left_end us = Some x \<longleftrightarrow> us \<noteq> [] \<and> x = last us" "right_end vs = Some x \<longleftrightarrow> vs \<noteq> [] \<and> x = hd vs" for x
    by (auto simp: left_end_def right_end_def)
  have d: "dll s p (us @ vs)" using listing_dll[OF assms(1) a(3)] assms(4) by simp
  have m: "x < length (heap s) \<and> x \<noteq> a" if "x \<in> set (listing s t)" "t < length (types s)" for x t
    using that listing_iff[OF assms(1) that(2), of x] stored_bound[OF assms(1), of x] a by auto
  have "dll s' t (if t = p then us @ a # vs else listing s t)"
  proof (cases "t = p")
    case True
    have dis: "distinct (us @ vs)" by (rule dll_distinct[OF d])
    obtain lst where u: "seg (heap s) None (t_start (ty s p)) us (right_end vs) (left_end us)" and v: "seg (heap s) (left_end us) (right_end vs) vs None lst"
      by (rule dll_parts[OF d])
    have l: "x \<in> set us \<Longrightarrow> x \<noteq> hd vs \<or> vs = []" "x \<in> set vs \<Longrightarrow> x \<noteq> last us \<or> us = []" for x using dis by (auto simp: hd_in_set) (metis Int_iff emptyE last_in_set)+
    have u': "seg (heap s') None (if us = [] then Some a else t_start (ty s p)) us (Some a) (left_end us)"
      by (rule seg_relink[OF u]) (use dis h m[OF _ a(3)] assms(4) l(1) e last_in_set in \<open>auto\<close>)
    have "\<exists>lst. seg (heap s') (Some a) (right_end vs) vs None lst"
      by (rule seg_reprev[OF v]) (use dis h m[OF _ a(3)] assms(4) l(2) e hd_in_set in \<open>auto\<close>)
    then have "\<exists>lst. seg (heap s') (left_end us) (Some a) (a # vs) None lst" using h a by auto
    then show ?thesis using u' st True by (auto simp: dll_def seg_append)
  next
    case False
    have nin: "x \<notin> set (us @ vs)" if "x \<in> set (listing s t)" for x
      using that listing_iff[OF assms(1,5)] listing_iff[OF assms(1) a(3)] assms(4) False by auto
    have "left_end us \<noteq> Some x \<and> right_end vs \<noteq> Some x" if "x \<in> set (listing s t)" for x
      using nin[OF that] by (auto simp: left_end_def right_end_def)
    then have "dll s' t (listing s t)" using h m[OF _ assms(5)] st False by (intro dll_cong[OF listing_dll[OF assms(1,5)]]) auto
    then show ?thesis using False by simp
  qed
  then show "dll s' t (if t = p then us @ a # vs else listing s t)" "listing s' t = (if t = p then us @ a # vs else listing s t)"
    by (auto dest: dll_listing)
qed

lemma inserted_lists:
  assumes "doc_ok s" "fresh_item s a p" "inserted s a p us vs s'" "listing s p = us @ vs"
  shows "lists_ok s'" "links_ok s'" "counts_ok s'"
proof -
  have a: "a < length (heap s)" "a \<notin> stored s" "p < length (types s)" "Parent (itm s a) = Some p" using assms(2) by (simp_all add: fresh_item_def)
  have n: "length (types s') = length (types s)" using assms(3) by (simp add: inserted_def)
  note st = inserted_store(2)[OF assms(1-3)] and i = inserted_item[OF assms(3)] and d = inserted_dll[OF assms]
  have b: "x < length (heap s)" if "x \<in> insert a (stored s)" for x using that a(1) stored_bound[OF assms(1)] by blast
  have mem: "x \<in> set (listing s' t) \<longleftrightarrow> x \<in> stored s' \<and> Parent (itm s' x) = Some t" if t: "t < length (types s)" for t x
  proof (cases "x \<in> insert a (stored s)")
    case True
    have "Parent (itm s' x) = Parent (itm s x)" by (rule i(3)[OF b[OF True]])
    then show ?thesis using listing_iff[OF assms(1) t, of x] listing_iff[OF assms(1) a(3), of x] a(2,4) True assms(4) by (auto simp: st d(2)[OF t])
  next
    case False
    then show ?thesis using listing_iff[OF assms(1) t, of x] listing_iff[OF assms(1) a(3), of x] assms(4) by (auto simp: st d(2)[OF t])
  qed
  have "dll s' t (listing s' t) \<and> set (listing s' t) = {x \<in> stored s'. Parent (itm s' x) = Some t}" if t: "t < length (types s)" for t
  proof
    show "dll s' t (listing s' t)" using d(1)[OF t] unfolding d(2)[OF t] .
    show "set (listing s' t) = {x \<in> stored s'. Parent (itm s' x) = Some t}" by (rule set_eqI) (simp add: mem[OF t])
  qed
  moreover have pb: "t < length (types s)" if "x \<in> stored s'" "Parent (itm s' x) = Some t" for x t
    using that i(3)[OF b] parent_bound[OF assms(1)] a(3,4) by (auto simp: st)
  ultimately show "lists_ok s'" unfolding lists_ok_def n by blast
  show "links_ok s'"
    unfolding links_ok_def
  proof (intro ballI allI impI)
    fix x y assume x: "x \<in> stored s'" and y: "Right (itm s' x) = Some y"
    show "y \<in> stored s' \<and> y \<noteq> x \<and> Parent (itm s' y) = Parent (itm s' x)"
    proof (cases "Parent (itm s' x)")
      case (Some t)
      note t = pb[OF x Some]
      then have "x \<in> set (listing s' t)" using mem x Some by simp
      then obtain us vs where l: "listing s' t = us @ x # vs" by (meson split_list)
      then obtain m lst where v: "seg (heap s') m (Some y) vs None lst" using d(1)[OF t] y unfolding d(2)[OF t, symmetric] by (auto simp: dll_def seg_append)
      then have "y \<in> set vs" using seg_ends[OF v] by (auto split: if_splits)
      moreover have "x \<notin> set vs" using dll_distinct[OF d(1)[OF t]] l unfolding d(2)[OF t, symmetric] by auto
      ultimately show ?thesis using mem[OF t, of y] l Some by auto
    next
      case None
      have xs: "x \<in> stored s" "x \<noteq> a" using x None a(4) i(3)[OF a(1)] by (auto simp: st)
      have px: "Parent (itm s x) = None" using None i(3)[OF b[of x]] xs by simp
      have "x \<notin> set (us @ vs)" using listing_iff[OF assms(1) a(3)] assms(4) px by auto
      then have "Right (itm s' x) = Right (itm s x)"
        using assms(3) b[of x] xs last_in_set[of us] hd_in_set[of vs] by (auto simp: inserted_def left_end_def)
      then have "y \<in> stored s \<and> y \<noteq> x \<and> Parent (itm s y) = Parent (itm s x)" using y doc_okD(3)[OF assms(1)] xs(1) unfolding links_ok_def by auto
      then show ?thesis using i(3)[OF b[of y]] px None by (simp add: st)
    qed
  qed
  show "counts_ok s'"
    unfolding counts_ok_def n
  proof (intro allI impI)
    fix t assume t: "t < length (types s)"
    have "(\<Sum>x\<leftarrow>xs. visible_len (itm s' x)) = (\<Sum>x\<leftarrow>xs. visible_len (itm s x))" if "set xs \<subseteq> set (listing s t)" for xs
    proof -
      have "map (\<lambda>x. visible_len (itm s' x)) xs = map (\<lambda>x. visible_len (itm s x)) xs"
        using that i(6) dll_bounds[OF listing_dll[OF assms(1) t]] by (auto simp: subset_iff)
      then show ?thesis by (rule arg_cong)
    qed
    note v = this[of us] this[of vs] this[of "listing s t"] and l = d(2)[OF t]
    have "t_length (ty s' t) = t_length (ty s t) + (if t = p then visible_len (itm s a) else 0)" using assms(3) t by (simp add: inserted_def)
    then show "t_length (ty s' t) = (\<Sum>x\<leftarrow>listing s' t. visible_len (itm s' x))"
      using v l i(6)[OF a(1)] doc_okD(4)[OF assms(1)] t assms(4) by (cases "t = p") (simp_all add: counts_ok_def)
  qed
qed

lemma inserted_doc_ok:
  assumes "doc_ok s" "fresh_item s a p" "inserted s a p us vs s'" "listing s p = us @ vs"
  shows "doc_ok s'" "sequence s' p = concat (map (\<lambda>x. unit_ids (itm s x)) us) @ unit_ids (itm s a) @ concat (map (\<lambda>x. unit_ids (itm s x)) vs)"
    "t < length (types s) \<Longrightarrow> t \<noteq> p \<Longrightarrow> sequence s' t = sequence s t" "unat (NextClock s' c) = unat (NextClock s c) + (if c = iclient (itm s a) then isize (itm s a) else 0)"
proof -
  have a: "a < length (heap s)" "a \<notin> stored s" "p < length (types s)" "Parent (itm s a) = Some p"
    "ItemContent (itm s a) = ContentType (Some t) \<Longrightarrow> t < length (types s)" for t using assms(2) by (simp_all add: fresh_item_def)
  have n: "length (types s') = length (types s)" "t < length (types s) \<Longrightarrow> t_item (ty s' t) = t_item (ty s t)" "t < length (types s) \<Longrightarrow> itemMap (ty s' t) = itemMap (ty s t)" for t
    using assms(3) by (simp_all add: inserted_def)
  note st = inserted_store[OF assms(1-3)] and i = inserted_item[OF assms(3)] and d = inserted_dll[OF assms]
  have b: "x < length (heap s)" if "x \<in> insert a (stored s)" for x using that a(1) stored_bound[OF assms(1)] by blast
  have cont: "container s' x = container s x" if "x \<in> insert a (stored s)" for x
  proof -
    have "t < length (types s)" if "Parent (itm s x) = Some t" for t using that \<open>x \<in> _\<close> parent_bound[OF assms(1), of x] a(3,4) by auto
    then show ?thesis using i(3)[OF b[OF that]] n(2) by (auto simp: container_def split: option.splits)
  qed
  have "up s' \<subseteq> insert (a, the (container s a)) (up s)" using cont by (auto simp: up_container st(2))
  moreover have na: "(x, a) \<notin> up s" for x using container_stored[OF assms(1)] a(2) by (auto simp: up_container)
  have "acyclic (if container s a = None then up s else insert (a, the (container s a)) (up s))"
  proof (cases "container s a")
    case (Some c)
    have "c \<in> stored s" using Some t_item_stored[OF assms(1) a(3)] a(4) by (auto simp: container_def)
    then have "(c, a) \<notin> (up s)\<^sup>*" using na a(2) by (auto elim: rtranclE)
    then show ?thesis using Some doc_okD(5)[OF assms(1)] by (simp add: acyclic_insert nest_ok_def)
  qed (use doc_okD(5)[OF assms(1)] in \<open>simp add: nest_ok_def\<close>)
  moreover have "up s' \<subseteq> (if container s a = None then up s else insert (a, the (container s a)) (up s))" using cont by (auto simp: up_container st(2))
  ultimately have ac: "acyclic (up s')" using acyclic_subset by blast
  have "t < length (types s')" if "x \<in> stored s'" "ItemContent (itm s' x) = ContentType (Some t)" for x t
    using that i(2)[OF b] nested_bound[OF assms(1)] a(5) by (auto simp: st(2) n(1))
  moreover have "x \<in> stored s' \<and> ItemContent (itm s' x) = ContentType (Some t)" if "t < length (types s')" "t_item (ty s' t) = Some x" for x t
    using that t_item_stored[OF assms(1)] n i(2)[OF b] by (auto simp: st(2))
  ultimately have "nest_ok s'" using ac unfolding nest_ok_def by blast
  moreover have "entries_ok s'" using doc_okD(6)[OF assms(1)] n by (simp add: entries_ok_def st(2))
  ultimately show ok: "doc_ok s'" using st(1) inserted_lists[OF assms] by (simp add: doc_ok_def)
  have u: "map (\<lambda>x. unit_ids (itm s' x)) xs = map (\<lambda>x. unit_ids (itm s x)) xs" if "set xs \<subseteq> insert a (set (listing s t))" "t < length (types s)" for xs t
    using that i(1,2) dll_bounds[OF listing_dll[OF assms(1) that(2)]] a(1) by (intro map_cong refl unit_ids_cong) auto
  have "map (\<lambda>x. unit_ids (itm s' x)) (us @ a # vs) = map (\<lambda>x. unit_ids (itm s x)) (us @ a # vs)" by (rule u[OF _ a(3)]) (use assms(4) in auto)
  from arg_cong[OF this, of concat] show "sequence s' p = concat (map (\<lambda>x. unit_ids (itm s x)) us) @ unit_ids (itm s a) @ concat (map (\<lambda>x. unit_ids (itm s x)) vs)"
    unfolding sequence_def d(2)[OF a(3)] by simp
  show "sequence s' t = sequence s t" if "t < length (types s)" "t \<noteq> p"
  proof -
    have "map (\<lambda>x. unit_ids (itm s' x)) (listing s t) = map (\<lambda>x. unit_ids (itm s x)) (listing s t)" by (rule u[OF _ that(1)]) auto
    then show ?thesis unfolding sequence_def d(2)[OF that(1)] using that(2) by (simp only: if_False)
  qed
  show "unat (NextClock s' c) = unat (NextClock s c) + (if c = iclient (itm s a) then isize (itm s a) else 0)"
    using NextClock_correct[OF doc_okD(1)[OF ok]] NextClock_correct[OF doc_okD(1)[OF assms(1)]] st(3)[of c] by simp
qed

end
