(* ===== verification/Item_Steps.thy ===== *)
theory Item_Steps
  imports Item_Placement
begin

text \<open>
  What the steps of integration after the linking may do to a document: they split items, mark them deleted or moved and
  arbitrate moves.  None of them changes the order of the units of a type or the clocks.
\<close>

subsection \<open>Evolution of a document\<close>

text \<open>No live item outside a given set is in a deleted container.\<close>

definition orphan_but :: "iaddr set \<Rightarrow> St \<Rightarrow> bool" where
  "orphan_but A s \<longleftrightarrow> (\<forall>x \<in> stored s - A. \<forall>b. container s x = Some b \<longrightarrow> Deleted (itm s b) \<longrightarrow> Deleted (itm s x))"

abbreviation orphan_ok :: "St \<Rightarrow> bool" where
  "orphan_ok \<equiv> orphan_but {}"

text \<open>Items of one unit, which cannot be split.\<close>

definition atomic :: "St \<Rightarrow> iaddr set \<Rightarrow> bool" where
  "atomic s A \<longleftrightarrow> (\<forall>x \<in> A. isize (itm s x) \<le> 1)"

definition evolves :: "St \<Rightarrow> St \<Rightarrow> bool" where
  "evolves s s' \<longleftrightarrow> refines s s' \<and> (\<forall>x < length (heap s). x \<in> stored s' \<longrightarrow> x \<in> stored s) \<and>
     (\<forall>x \<in> stored s'. \<forall>t. ItemContent (itm s' x) = ContentType t \<longleftrightarrow> x < length (heap s) \<and> ItemContent (itm s x) = ContentType t) \<and>
     (\<forall>t < length (types s). t_item (ty s' t) = t_item (ty s t)) \<and> (nested_ok s \<longrightarrow> nested_ok s') \<and>
     (\<forall>A. A \<subseteq> stored s \<longrightarrow> atomic s A \<longrightarrow> atomic s' A \<and> (orphan_but A s \<longrightarrow> orphan_but A s'))"

lemma evolves_refines: "evolves s s' \<Longrightarrow> refines s s'" "evolves s s' \<Longrightarrow> doc_ok s'"
  by (simp_all add: evolves_def refines_def)

lemma evolvesD:
  assumes "evolves s s'"
  shows "x < length (heap s) \<Longrightarrow> x \<in> stored s' \<Longrightarrow> x \<in> stored s"
    "x \<in> stored s' \<Longrightarrow> ItemContent (itm s' x) = ContentType t \<longleftrightarrow> x < length (heap s) \<and> ItemContent (itm s x) = ContentType t"
    "u < length (types s) \<Longrightarrow> t_item (ty s' u) = t_item (ty s u)" "nested_ok s \<Longrightarrow> nested_ok s'"
    "A \<subseteq> stored s \<Longrightarrow> atomic s A \<Longrightarrow> atomic s' A" "A \<subseteq> stored s \<Longrightarrow> atomic s A \<Longrightarrow> orphan_but A s \<Longrightarrow> orphan_but A s'"
  using assms unfolding evolves_def by blast+

lemma evolves_trans: "evolves s s' \<Longrightarrow> evolves s' s'' \<Longrightarrow> evolves s s''"
proof -
  assume a: "evolves s s'" and b: "evolves s' s''"
  have r: "refines s s'" "refines s' s''" using a b by (simp_all add: evolves_def)
  have l: "length (heap s) \<le> length (heap s')" "length (types s') = length (types s)" "stored s' \<subseteq> stored s''" "stored s \<subseteq> stored s'" using r by (auto simp: refines_def)
  note d = evolvesD[OF a] and e = evolvesD[OF b]
  have 1: "x \<in> stored s" if "x < length (heap s)" "x \<in> stored s''" for x using d(1)[OF that(1)] e(1)[of x] that l(1) by linarith
  have 2: "ItemContent (itm s'' x) = ContentType t \<longleftrightarrow> x < length (heap s) \<and> ItemContent (itm s x) = ContentType t" if "x \<in> stored s''" for x t
  proof (cases "x \<in> stored s'")
    case True
    show ?thesis unfolding e(2)[OF that] d(2)[OF True] using stored_bound[OF evolves_refines(2)[OF a] True] by simp
  next
    case False
    then have "\<not> x < length (heap s')" using e(1) that by blast
    then show ?thesis unfolding e(2)[OF that] using l(1) by simp
  qed
  have 3: "t_item (ty s'' t) = t_item (ty s t)" if "t < length (types s)" for t using d(3)[OF that] e(3)[of t] l(2) that by simp
  have 4: "atomic s'' A \<and> (orphan_but A s \<longrightarrow> orphan_but A s'')" if "A \<subseteq> stored s" "atomic s A" for A
  proof -
    have "A \<subseteq> stored s'" using that(1) l(4) by blast
    then show ?thesis using d(5,6)[OF that] e(5,6)[of A] by blast
  qed
  show ?thesis unfolding evolves_def using refines_trans[OF r] 1 2 3 4 d(4) e(4) by blast
qed

lemma evolves_refl [simp]: "doc_ok s \<Longrightarrow> evolves s s"
  using stored_bound[of s] by (auto simp: evolves_def)

lemma alike_evolves:
  assumes "doc_ok s" "alike s s'" "doc_ok s'" "\<And>x. x < length (heap s) \<Longrightarrow> Deleted (itm s x) \<Longrightarrow> Deleted (itm s' x)"
    "\<And>A. orphan_but A s \<Longrightarrow> orphan_but A s'"
  shows "evolves s s'"
proof -
  note st = alike_stored[OF assms(2)] and it = alike_item[OF assms(2)]
  have l: "length (types s') = length (types s)" "length (heap s') = length (heap s)" "t < length (types s) \<Longrightarrow> t_item (ty s' t) = t_item (ty s t)" for t
    using assms(2) by (auto simp: alike_def)
  have "same_head (itm s x) (itm s' x)" if "x < length (heap s)" for x
    using it[OF that] assms(4)[of x] that by (auto simp: same_head_def same_links_def)
  then have r: "refines s s'" using assms alike_listing(3)[OF assms(1,2)] alike_NextClock[OF assms(1,2)] st l by (simp add: refines_def)
  have c: "ItemContent (itm s' x) = ItemContent (itm s x)" if "x \<in> stored s" for x
    using it[OF stored_bound[OF assms(1) that]] by (simp add: same_links_def)
  have "nested_ok s'" if "nested_ok s" unfolding nested_ok_def st
  proof (intro ballI allI impI)
    fix a t assume a: "a \<in> stored s" "ItemContent (itm s' a) = ContentType (Some t)"
    then have "ItemContent (itm s a) = ContentType (Some t)" using c by simp
    then show "t_item (ty s' t) = Some a" using nested_item[OF that a(1)] nested_bound[OF assms(1) a(1)] l(3) by simp
  qed
  moreover have "atomic s' A" if "A \<subseteq> stored s" "atomic s A" for A using that c by (auto simp: atomic_def isize_def)
  ultimately show ?thesis using r st c l(3) stored_bound[OF assms(1)] assms(5) unfolding evolves_def by auto
qed

lemma alike_orphan:
  assumes "doc_ok s" "alike s s'" "\<And>x. x \<in> stored s \<Longrightarrow> Deleted (itm s' x) = Deleted (itm s x)" "orphan_but A s"
  shows "orphan_but A s'"
  using assms(3,4) alike_container[OF assms(1,2)] alike_stored[OF assms(2)] container_stored[OF assms(1)] unfolding orphan_but_def by (metis DiffD1)

lemma inert_evolves:
  assumes "doc_ok s" "inert s s'"
  shows "evolves s s'"
proof -
  have d: "Deleted (itm s' x) = Deleted (itm s x)" if "x < length (heap s)" for x using assms(2) that by (simp add: inert_def)
  then have "orphan_but A s \<Longrightarrow> orphan_but A s'" for A using alike_orphan[OF assms(1) inert_alike[OF assms(2)]] stored_bound[OF assms(1)] by blast
  then show ?thesis using alike_evolves[OF assms(1) inert_alike[OF assms(2)] inert_doc_ok[OF assms]] d by blast
qed

lemma delete_evolves:
  assumes "doc_ok s" "nested_ok s" "a \<in> stored s"
  obtains s' where "item_delete a s = Inr s'" "evolves s s'" "marks s (if Deleted (itm s a) then {} else sub s a) s'" "Deleted (itm s' a)"
    "\<forall>A. orphan_but A s \<longrightarrow> orphan_but A s'"
proof -
  obtain s' where s': "item_delete a s = Inr s'" "marks s (if Deleted (itm s a) then {} else sub s a) s'" by (rule item_delete_marks[OF assms])
  let ?D = "if Deleted (itm s a) then {} else sub s a"
  have al: "alike s s'" using s'(2) by (simp add: marks_def)
  have d: "Deleted (itm s' x) \<longleftrightarrow> Deleted (itm s x) \<or> x \<in> ?D" if "x < length (heap s)" for x using s'(2) that by (simp add: marks_def)
  have orph: "orphan_but A s'" if o': "orphan_but A s" for A
    unfolding orphan_but_def alike_stored[OF al]
  proof (intro ballI allI impI)
    fix x b assume "x \<in> stored s - A" and x: "container s' x = Some b" "Deleted (itm s' b)"
    then have xs: "x \<in> stored s" "x \<notin> A" by auto
    note x = xs(1) x
    have c: "container s x = Some b" using alike_container[OF assms(1) al x(1)] x(2) by simp
    have lt: "x < length (heap s)" "b < length (heap s)" using stored_bound[OF assms(1)] x(1) container_stored[OF assms(1) x(1) c] by auto
    show "Deleted (itm s' x)"
    proof (cases "Deleted (itm s x) \<or> Deleted (itm s b)")
      case True
      then show ?thesis using o' xs c d[OF lt(1)] unfolding orphan_but_def by blast
    next
      case False
      then have "b \<in> sub s a" "\<not> Deleted (itm s a)" using x(3) d[OF lt(2)] by (auto split: if_splits)
      moreover have "(x, b) \<in> live_up s" using False c x(1) by (simp add: live_up_def up_container)
      ultimately have "x \<in> ?D" by (simp add: sub_def converse_rtrancl_into_rtrancl)
      then show ?thesis using d[OF lt(1)] by blast
    qed
  qed
  then have "evolves s s'" using alike_evolves[OF assms(1) al marks_doc_ok[OF assms(1) s'(2)]] d stored_bound[OF assms(1)] by blast
  moreover have "Deleted (itm s' a)" using d[OF stored_bound[OF assms(1,3)]] by auto
  ultimately show thesis using that s' orph by blast
qed

text \<open>Splits, and the moves that ask for them.\<close>

lemma Splice_kinds: "Splice k c = Inr (l, r) \<Longrightarrow> l \<noteq> ContentType t \<and> r \<noteq> ContentType t \<and> c \<noteq> ContentType t"
  by (cases c) (auto split: if_splits prod.splits)

lemma split_evolves:
  assumes "doc_ok s" "a \<in> stored s" "0 < k" "k < isize (itm s a)" "split_of s a k s'"
  shows "evolves s s'"
proof -
  note st = split_store_ok(2)[OF assms] and o' = split_others[OF assms(5)] and r = split_refines[OF assms]
  obtain l q where h: "Splice k (ItemContent (itm s a)) = Inr (l, q)" "itm s' a = (itm s a)\<lparr>ItemContent := l, Right := Some (length (heap s))\<rparr>"
      "itm s' (length (heap s)) = right_half (itm s a) a k q"
    and ts: "\<And>t. t < length (types s) \<Longrightarrow> t_item (ty s' t) = t_item (ty s t)" "length (types s') = length (types s)"
    using assms(5) by (auto simp: split_of_def same_shape_def)
  note sp = Splice_kinds[OF h(1)]
  have c: "ItemContent (itm s' x) = ContentType t \<longleftrightarrow> x < length (heap s) \<and> ItemContent (itm s x) = ContentType t" if "x \<in> stored s'" for x t
  proof -
    have "x = length (heap s) \<or> x < length (heap s)" using that st stored_bound[OF assms(1)] by auto
    then consider "x = a" "x < length (heap s)" | "x = length (heap s)" | "x \<noteq> a" "x < length (heap s)" by blast
    then show ?thesis by cases (use h sp o'(2) in \<open>auto simp: right_half_def\<close>)
  qed
  have "nested_ok s'" if "nested_ok s"
    unfolding nested_ok_def
  proof (intro ballI allI impI)
    fix x t assume x: "x \<in> stored s'" "ItemContent (itm s' x) = ContentType (Some t)"
    then have "x \<in> stored s" "ItemContent (itm s x) = ContentType (Some t)" using c[OF x(1)] st by auto
    then show "t_item (ty s' t) = Some x" using nested_item[OF that] nested_bound[OF assms(1)] ts by simp
  qed
  moreover have "atomic s' A" if "A \<subseteq> stored s" "atomic s A" for A
    unfolding atomic_def
  proof
    fix x assume "x \<in> A"
    then have x: "isize (itm s x) \<le> 1" "x < length (heap s)" using that stored_bound[OF assms(1)] by (auto simp: atomic_def)
    then have "ItemContent (itm s' x) = ItemContent (itm s x)" using o'(2)[OF x(2)] assms(3,4) by (cases "x = a") auto
    then show "isize (itm s' x) \<le> 1" using x(1) by (simp add: isize_def)
  qed
  moreover have "orphan_but A s'" if "atomic s A" "orphan_but A s" for A
    unfolding orphan_but_def
  proof (intro ballI allI impI)
    fix x b assume xA: "x \<in> stored s' - A" and x: "container s' x = Some b" "Deleted (itm s' b)"
    have x: "x \<in> stored s'" "container s' x = Some b" "Deleted (itm s' b)" using xA x by auto
    define y where "y = (if x = length (heap s) then a else x)"
    have y: "y \<in> stored s" using x(1) st assms(2) by (auto simp: y_def)
    have i: "Parent (itm s' x) = Parent (itm s y)" "Deleted (itm s' x) = Deleted (itm s y)"
      using h o'(4,5)[of x] stored_bound[OF assms(1) y] by (cases "x = a"; auto simp: y_def right_half_def split: if_splits)+
    have yb: "container s y = Some b" using x(2) i(1) ts(1) parent_bound[OF assms(1) y] by (auto simp: container_def split: option.splits)
    note b = container_stored[OF assms(1) y yb]
    have "Deleted (itm s b)" using x(3) h(2) o'(5)[OF stored_bound[OF assms(1) b]] by (cases "b = a") auto
    moreover have "y \<notin> A" using xA that(1) assms(3,4) by (auto simp: y_def atomic_def)
    ultimately show "Deleted (itm s' x)" using that(2) y yb i(2) unfolding orphan_but_def by blast
  qed
  ultimately show ?thesis using r c ts st unfolding evolves_def by auto
qed

lemma splitItem_evolves:
  assumes "doc_ok s" "a \<in> stored s" "0 < k" "k < isize (itm s a)"
  obtains s' where "splitItem a k s = Inr (length (heap s), s')" "evolves s s'" "length (heap s) \<in> stored s'" "a \<in> stored s'"
proof -
  obtain s' where s': "splitItem a k s = Inr (length (heap s), s')" "split_of s a k s'" "refines s s'" by (rule splitItem_refines[OF assms])
  show thesis using that[OF s'(1) split_evolves[OF assms s'(2)]] split_store_ok(2)[OF assms s'(2)] assms(2) by simp
qed

lemma resolveMovedItem_evolves:
  assumes "doc_ok s"
  obtains tg s' where "resolveMovedItem i n s = Inr (tg, s')" "evolves s s'"
proof (cases "Find s i")
  case None
  then show ?thesis using that[of None s] assms by (simp add: resolveMovedItem_def)
next
  case (Some a)
  have f: "a \<in> stored s" "holds s i a" using find_stored[OF assms Some] by auto
  then have h: "istart (itm s a) \<le> unat (IdClock i)" "unat (IdClock i) < istop (itm s a)" by (auto simp: holds_def)
  obtain b s1 where 1: "(if iclock (itm s a) < IdClock i then splitItem a (unat (IdClock i - iclock (itm s a))) s else Inr (a, s)) = Inr (b, s1)"
      "evolves s s1" "b \<in> stored s1"
  proof (cases "iclock (itm s a) < IdClock i")
    case True
    let ?k = "unat (IdClock i - iclock (itm s a))"
    have "?k = unat (IdClock i) - istart (itm s a)" using True by (simp add: unat_sub word_less_nat_alt word_le_nat_alt)
    then have "0 < ?k" "?k < isize (itm s a)" using True h by (auto simp: word_less_nat_alt)
    from splitItem_evolves[OF assms f(1) this] obtain s1 where "splitItem a ?k s = Inr (length (heap s), s1)" "evolves s s1" "length (heap s) \<in> stored s1" by blast
    then show ?thesis using that True by simp
  qed (use that assms f in auto)
  note ok = evolves_refines(2)[OF 1(2)]
  show ?thesis
  proof (cases "n > 0 \<and> ContentLen (ItemContent (itm s1 b)) > n")
    case True
    then have "0 < nat n" "nat n < isize (itm s1 b)" by (auto simp: isize_def)
    from splitItem_evolves[OF ok 1(3) this] obtain s2 where "splitItem b (nat n) s1 = Inr (length (heap s1), s2)" "evolves s1 s2" by blast
    then show ?thesis using that[of "Some b" s2] Some 1 True evolves_trans by (simp add: resolveMovedItem_def)
  next
    case False
    then show ?thesis using that[of "Some b" s1] Some 1 by (auto simp: resolveMovedItem_def)
  qed
qed

lemma resolve_moves_evolves: "doc_ok s \<Longrightarrow> \<exists>rest s'. resolve_moves mvs remaining s = Inr (rest, s') \<and> evolves s s'"
proof (induction mvs arbitrary: remaining s)
  case (Cons mv mvs)
  have "resolve_moves (mv # mvs) remaining s = resolve_moves mvs remaining s" if "\<nexists>i n. ItemContent (itm s mv) = ContentMove (Some i) n \<and> \<not> Deleted (itm s mv)"
    using that by (auto split: content.splits option.splits)
  then consider (mv) i n where "ItemContent (itm s mv) = ContentMove (Some i) n" "\<not> Deleted (itm s mv)"
    | (skip) "resolve_moves (mv # mvs) remaining s = resolve_moves mvs remaining s" by blast
  then show ?case
  proof cases
    case mv
    obtain tg s1 where 1: "resolveMovedItem i n s = Inr (tg, s1)" "evolves s s1" by (rule resolveMovedItem_evolves[OF Cons.prems])
    have go: ?thesis if "inert s1 s2" "resolve_moves (mv # mvs) remaining s = resolve_moves mvs rem s2" for rem s2
    proof -
      have 2: "evolves s s2" by (rule evolves_trans[OF 1(2) inert_evolves[OF evolves_refines(2)[OF 1(2)] that(1)]])
      from Cons.IH[OF evolves_refines(2)[OF 2], of rem] show ?thesis unfolding that(2) using evolves_trans[OF 2] by blast
    qed
    show ?thesis
    proof (cases "\<exists>t. tg = Some t \<and> moveBeats s1 mv (MovedBy (itm s1 t))")
      case True
      then obtain t where t: "tg = Some t" "moveBeats s1 mv (MovedBy (itm s1 t))" by blast
      have "inert s1 (when_some (Parent (itm s1 mv)) clearMarkers (setMovedBy t (Some mv) s1))"
        by (rule inert_trans[OF inert_setMovedBy inert_when[OF inert_clearMarkers]])
      then show ?thesis by (rule go) (use t mv 1(1) in simp)
    next
      case False
      then show ?thesis using go[OF inert_refl, of "if tg = None then remaining @ [mv] else remaining"] mv 1(1) by (cases tg) auto
    qed
  qed (use Cons in auto)
qed auto

lemma resolvePendingMoves_evolves:
  assumes "doc_ok s"
  obtains s' where "resolvePendingMoves c s = Inr s'" "evolves s s'"
proof (cases "map_list (pendingMoves s) c = []")
  case False
  obtain rest s1 where 1: "resolve_moves (map_list (pendingMoves s) c) [] s = Inr (rest, s1)" "evolves s s1" using resolve_moves_evolves[OF assms] by blast
  have "inert s1 (s1\<lparr>pendingMoves := m\<rparr>)" for m by (simp add: inert_fields)
  then have "evolves s (s1\<lparr>pendingMoves := m\<rparr>)" for m using evolves_trans[OF 1(2)] inert_evolves[OF evolves_refines(2)[OF 1(2)]] by blast
  then show ?thesis using that False 1(1) by (simp add: resolvePendingMoves_def Let_def)
qed (use assms that in \<open>simp add: resolvePendingMoves_def\<close>)

lemma arbitrate_move_evolves:
  assumes "doc_ok s"
  shows "\<exists>s'. arbitrate_move a s = Inr s' \<and> evolves s s'"
proof (cases "\<exists>i n. ItemContent (itm s a) = ContentMove (Some i) n \<and> \<not> Deleted (itm s a)")
  case True
  then obtain i n where m: "ItemContent (itm s a) = ContentMove (Some i) n" "\<not> Deleted (itm s a)" by blast
  obtain tg s1 where 1: "resolveMovedItem i n s = Inr (tg, s1)" "evolves s s1" by (rule resolveMovedItem_evolves[OF assms])
  have go: ?thesis if "inert s1 s2" "arbitrate_move a s = Inr s2" for s2
    using evolves_trans[OF 1(2) inert_evolves[OF evolves_refines(2)[OF 1(2)] that(1)]] that(2) by blast
  show ?thesis
  proof (cases tg)
    case None
    show ?thesis by (rule go[of "addPendingMove (Client i) a s1"]) (use m 1(1) None in \<open>simp_all add: inert_fields addPendingMove_def arbitrate_move_def\<close>)
  next
    case (Some t)
    show ?thesis by (rule go[of "if moveBeats s1 a (MovedBy (itm s1 t)) then setMovedBy t (Some a) s1 else s1"]) (use m 1(1) Some in \<open>simp_all add: arbitrate_move_def\<close>)
  qed
next
  case False
  then have "arbitrate_move a s = Inr s" by (auto simp: arbitrate_move_def split: content.splits option.splits)
  then show ?thesis using assms by simp
qed

end
