(* ===== verification/Integrate_Facts.thy ===== *)
theory Integrate_Facts
  imports Item_Steps
begin

text \<open>
  Integration as a whole: the conflict scan ends at a place between the origins of the item, and integration always
  returns a well-formed document with the units of the item at that place.
\<close>

subsection \<open>The conflict scan\<close>

lemma scan_step:
  "scan s it (Suc n) (Some z) left conf before = Inr left \<or>
   (\<exists>c b. scan s it (Suc n) (Some z) left conf before = scan s it n (Right (itm s z)) left c b) \<or>
   (\<exists>c b. scan s it (Suc n) (Some z) left conf before = scan s it n (Right (itm s z)) (Some z) c b)"
  unfolding scan.simps Let_def by (auto split: option.splits)

lemma scan_stops:
  assumes "seg (heap s) prev o' zs nxt lst" "nxt = None \<or> nxt = Right it" "length zs < n"
  obtains us vs where "zs = us @ vs" "scan s it n o' left conf before = Inr (if us = [] then left else left_end us)"
proof -
  have "\<exists>us vs. zs = us @ vs \<and> scan s it n o' left conf before = Inr (if us = [] then left else left_end us)"
    using assms
  proof (induction zs arbitrary: prev o' n left conf before)
    case Nil
    then obtain m where "n = Suc m" by (cases n) auto
    moreover have "Right it = Some r" if "o' = Some r" for r using Nil that by auto
    ultimately show ?case by (cases o') auto
  next
    case (Cons z zs)
    then obtain m where n: "n = Suc m" "length zs < m" by (cases n) auto
    have sg: "seg (heap s) (Some z) (Right (itm s z)) zs nxt lst" and o': "o' = Some z" using Cons.prems(1) by auto
    let ?go = "\<lambda>l c b. scan s it m (Right (itm s z)) l c b"
    have stop: ?case if "scan s it n o' left conf before = Inr left" using that by (intro exI[of _ "[]"] exI[of _ "z # zs"]) simp
    have same: ?case if "scan s it n o' left conf before = ?go left c b" for c b
    proof -
      obtain us vs where u: "zs = us @ vs" "?go left c b = Inr (if us = [] then left else left_end us)"
        using Cons.IH[OF sg Cons.prems(2) n(2), of left c b] by blast
      show ?thesis
      proof (cases "us = []")
        case True
        then show ?thesis using stop that u(2) by simp
      next
        case False
        then show ?thesis using that u by (intro exI[of _ "z # us"] exI[of _ vs]) (simp add: left_end_def)
      qed
    qed
    have moved: ?case if "scan s it n o' left conf before = ?go (Some z) c b" for c b
    proof -
      obtain us vs where u: "zs = us @ vs" "?go (Some z) c b = Inr (if us = [] then Some z else left_end us)"
        using Cons.IH[OF sg Cons.prems(2) n(2), of "Some z" c b] by blast
      then show ?thesis using that by (intro exI[of _ "z # us"] exI[of _ vs]) (simp add: left_end_def)
    qed
    show ?case using scan_step[of s it m z left conf before] stop same moved unfolding n(1) o' by blast
  qed
  then show thesis using that by blast
qed

text \<open>The place of an item: at or after its left neighbour and before its right one.\<close>

lemma find_left_stops:
  assumes "doc_ok s" "p < length (types s)" "a < length (heap s)" "a \<notin> stored s" "listing s p = us @ zs @ ws"
    and "Left (itm s a) = left_end us" "Right (itm s a) = right_end ws \<or> ws = []"
  obtains vs rest where "zs = vs @ rest" "find_left a p s = Inr (left_end (us @ vs))"
proof -
  have d: "dll s p (us @ zs @ ws)" using listing_dll[OF assms(1,2)] assms(5) by simp
  obtain lst where t: "seg (heap s) (left_end us) (right_end (zs @ ws)) (zs @ ws) None lst" "next_of s p (left_end us) = right_end (zs @ ws)"
    by (rule dll_parts[OF d])
  then obtain q m where z: "seg (heap s) (left_end us) (right_end (zs @ ws)) zs q m" "seg (heap s) m q ws None lst" by (auto simp: seg_append)
  have q: "q = None \<or> q = Right (itm s a)" using seg_ends[OF z(2)] assms(7) by (auto simp: right_end_def)
  have "set (a # zs) \<subseteq> {..<length (heap s)}" "distinct (a # zs)"
    using dll_bounds[OF d] dll_distinct[OF d] assms(3,4) listing_iff[OF assms(1,2), of a] assms(5) by auto
  then have "length (a # zs) \<le> length (heap s)" by (metis card_lessThan card_mono distinct_card finite_lessThan)
  then have n: "length zs < length (heap s)" by simp
  obtain vs rest where v: "zs = vs @ rest"
    "scan s (itm s a) (length (heap s)) (next_of s p (left_end us)) (left_end us) {} {} = Inr (if vs = [] then left_end us else left_end vs)"
    using scan_stops[OF z(1) q n] t(2) by metis
  have "find_left a p s = Inr (left_end us) \<or> find_left a p s = scan s (itm s a) (length (heap s)) (next_of s p (left_end us)) (left_end us) {} {}"
    unfolding find_left_def Let_def assms(6) next_of_def by (auto split: if_splits)
  moreover have "(if vs = [] then left_end us else left_end vs) = left_end (us @ vs)" by (simp add: left_end_def)
  ultimately show thesis using that[of "[]" zs] that[OF v(1)] v(2) by auto
qed

subsection \<open>The steps around the linking\<close>

text \<open>The document depends only on the stored cells of the heap.\<close>

definition agree_stored :: "St \<Rightarrow> St \<Rightarrow> bool" where
  "agree_stored s s' \<longleftrightarrow> clients s' = clients s \<and> types s' = types s \<and> length (heap s) \<le> length (heap s') \<and> (\<forall>x \<in> stored s. itm s' x = itm s x)"

lemma agree_ok:
  assumes "doc_ok s" "agree_stored s s'"
  shows "doc_ok s'" "stored s' = stored s" "t < length (types s) \<Longrightarrow> listing s' t = listing s t"
    "t < length (types s) \<Longrightarrow> sequence s' t = sequence s t" "NextClock s' c = NextClock s c" "nested_ok s' = nested_ok s" "orphan_ok s' = orphan_ok s"
proof -
  have i: "itm s' x = itm s x" if "x \<in> stored s" for x using that assms(2) by (simp add: agree_stored_def)
  have g: "clients s' = clients s" "types s' = types s" "length (heap s) \<le> length (heap s')" using assms(2) by (simp_all add: agree_stored_def)
  show st: "stored s' = stored s" by (simp add: stored_def g)
  have it: "x \<in> set (items_of s c) \<Longrightarrow> itm s' x = itm s x" for x c using i by (auto simp: stored_def)
  have r: "run (heap s') c 0 (items_of s c)" "run_end (heap s') 0 (items_of s c) = run_end (heap s) 0 (items_of s c)" for c
    using run_cong[of "items_of s c" "heap s" "heap s'" c 0] it store_okD(1)[OF doc_okD(1)[OF assms(1)]] less_le_trans[OF _ g(3)] by auto
  have so: "store_ok s'" using doc_okD(1)[OF assms(1)] r by (simp add: store_ok_def g(1))
  have d: "dll s' t (listing s t)" if "t < length (types s)" for t
    by (rule dll_cong[OF listing_dll[OF assms(1) that]]) (use i listing_iff[OF assms(1) that] g less_le_trans[OF _ g(3)] in auto)
  have l: "listing s' t = listing s t" if "t < length (types s)" for t by (rule dll_listing[OF d[OF that]])
  then show "t < length (types s) \<Longrightarrow> listing s' t = listing s t" .
  have m: "map (\<lambda>x. g (itm s' x)) (listing s t) = map (\<lambda>x. g (itm s x)) (listing s t)" if "t < length (types s)" for t and g :: "Item \<Rightarrow> 'b"
    using i listing_iff[OF assms(1) that] by auto
  show "sequence s' t = sequence s t" if "t < length (types s)"
    unfolding sequence_def l[OF that] by (rule arg_cong[OF m[OF that]])
  have "t_length (ty s' t) = (\<Sum>x\<leftarrow>listing s' t. visible_len (itm s' x))" if t: "t < length (types s)" for t
    unfolding l[OF t] m[OF t] using doc_okD(4)[OF assms(1)] t by (simp add: counts_ok_def g(2))
  then have co: "counts_ok s'" by (simp add: counts_ok_def g(2))
  have c: "container s' x = container s x" if "x \<in> stored s" for x unfolding container_def i[OF that] g(2) by (rule refl)
  have "lists_ok s'"
  proof -
    have "{x \<in> stored s. Parent (itm s' x) = Some t} = {x \<in> stored s. Parent (itm s x) = Some t}" for t by (rule Collect_cong) (metis i)
    then show ?thesis using doc_okD(2)[OF assms(1)] d l i unfolding lists_ok_def st g(2) by simp
  qed
  moreover have "links_ok s'" using doc_okD(3)[OF assms(1)] unfolding links_ok_def st by (metis i)
  moreover have "nest_ok s'"
  proof -
    have "up s' = up s" unfolding up_def st using c by auto
    then show ?thesis using doc_okD(5)[OF assms(1)] unfolding nest_ok_def st by (metis i g(2))
  qed
  moreover have "entries_ok s'" using doc_okD(6)[OF assms(1)] by (simp add: entries_ok_def st g(2))
  ultimately show "doc_ok s'" using so co by (simp add: doc_ok_def)
  show "NextClock s' c = NextClock s c"
    using NextClock_correct[OF so, of c] NextClock_correct[OF doc_okD(1)[OF assms(1)], of c] r(2)[of c] by (simp add: word_unat_eq_iff g(1))
  show "nested_ok s' = nested_ok s" unfolding nested_ok_def st by (metis i g(2))
  have "Deleted (itm s' b) = Deleted (itm s b)" if "container s x = Some b" "x \<in> stored s" for x b
    using i container_stored[OF assms(1) that(2,1)] by simp
  then show "orphan_ok s' = orphan_ok s" unfolding orphan_but_def st using c i by auto
qed

lemma upd_agree: "a \<notin> stored s \<Longrightarrow> agree_stored s (upd a f s)"
  by (auto simp: agree_stored_def nth_update_if)

lemmas upd_unstored = agree_ok[OF _ upd_agree]

lemma alloc_agree: "doc_ok s \<Longrightarrow> agree_stored s (s\<lparr>heap := heap s @ its\<rparr>)"
  using stored_bound[of s] by (simp add: agree_stored_def nth_append)

lemma rest_simps [simp]:
  "docs (upd a f s) = docs s" "pendingMoves (upd a f s) = pendingMoves s" "docs (updt t g s) = docs s" "pendingMoves (updt t g s) = pendingMoves s"
  by (simp_all add: upd_def updt_def)

lemma rest_calls:
  "docs (insertItem b s) = docs s" "pendingMoves (insertItem b s) = pendingMoves s" "docs (rekey it a b s) = docs s" "pendingMoves (rekey it a b s) = pendingMoves s"
  "docs (when_some p clearMarkers s) = docs s" "pendingMoves (when_some p clearMarkers s) = pendingMoves s"
  "docs (when_some r (\<lambda>x. upd x f) s) = docs s" "pendingMoves (when_some r (\<lambda>x. upd x f) s) = pendingMoves s"
proof -
  show "docs (insertItem b s) = docs s" "pendingMoves (insertItem b s) = pendingMoves s" by (simp_all add: insertItem_def Let_def)
  show "docs (rekey it a b s) = docs s" "pendingMoves (rekey it a b s) = pendingMoves s" by (simp_all add: rekey_def split: option.splits)
  show "docs (when_some p clearMarkers s) = docs s" "pendingMoves (when_some p clearMarkers s) = pendingMoves s" by (cases p; simp add: clearMarkers_def)+
  show "docs (when_some r (\<lambda>x. upd x f) s) = docs s" "pendingMoves (when_some r (\<lambda>x. upd x f) s) = pendingMoves s" by (cases r; simp)+
qed

lemma split_frame: "splitItem x k s = Inr (b, s') \<Longrightarrow> docs s' = docs s \<and> pendingMoves s' = pendingMoves s"
  by (cases "Splice k (ItemContent (itm s x))") (auto simp: splitItem_def Let_def rest_calls)

lemma split_unstored:
  assumes "doc_ok s" "b \<in> stored s" "split_of s b k s'" "x < length (heap s)" "x \<notin> stored s"
  shows "itm s' x = itm s x"
proof -
  have "Right (itm s b) \<noteq> Some x" using doc_okD(3)[OF assms(1)] assms(2,5) unfolding links_ok_def by blast
  then show ?thesis using split_others(7)[OF assms(3,4)] assms(2,5) by blast
qed

text \<open>States that agree on the cells that are not stored, on subdocuments and on deferred moves.\<close>

definition same_rest :: "St \<Rightarrow> St \<Rightarrow> bool" where
  "same_rest s s' \<longleftrightarrow> docs s' = docs s \<and> pendingMoves s' = pendingMoves s \<and> (\<forall>x < length (heap s). x \<notin> stored s \<longrightarrow> itm s' x = itm s x)"

lemma splitItem_rest:
  assumes "doc_ok s" "a \<in> stored s" "0 < k" "k < isize (itm s a)" "splitItem a k s = Inr (b, s')"
  shows "evolves s s' \<and> same_rest s s'"
proof -
  obtain s'' where s'': "splitItem a k s = Inr (length (heap s), s'')" "split_of s a k s''" "refines s s''" by (rule splitItem_refines[OF assms(1-4)])
  then have "s'' = s'" using assms(5) by simp
  then show ?thesis using split_evolves[OF assms(1-4) s''(2)] split_frame[OF assms(5)] split_unstored[OF assms(1,2) s''(2)] by (simp add: same_rest_def)
qed

lemma cleanStart_evolves:
  assumes "doc_ok s"
  obtains r s' where "getItemCleanStart i s = Inr (r, s')" "evolves s s'" "same_rest s s'" "r = None \<longleftrightarrow> Find s i = None"
    "\<forall>b. r = Some b \<longrightarrow> b \<in> stored s' \<and> ItemID (itm s' b) = i"
proof (cases "Find s i")
  case None
  then show ?thesis using that[of None s] assms by (simp add: getItemCleanStart_def same_rest_def)
next
  case (Some a)
  obtain b s' where b: "getItemCleanStart i s = Inr (Some b, s')" "refines s s'" "b \<in> stored s'" "ItemID (itm s' b) = i"
    by (rule getItemCleanStart_correct[OF assms Some])
  have f: "a \<in> stored s" "holds s i a" using find_stored[OF assms Some] by auto
  have "evolves s s' \<and> same_rest s s'"
  proof (cases "iclock (itm s a) = IdClock i \<or> IdClock i < iclock (itm s a)")
    case True
    then show ?thesis using b(1) Some assms by (auto simp: getItemCleanStart_def same_rest_def split: if_splits)
  next
    case False
    let ?k = "unat (IdClock i - iclock (itm s a))"
    have sp: "splitItem a ?k s = Inr (b, s')" using b(1) Some False
      by (cases "splitItem a ?k s") (auto simp: getItemCleanStart_def)
    have lt: "istart (itm s a) < unat (IdClock i)" using False by (auto simp: word_less_nat_alt word_unat_eq_iff)
    then have "?k = unat (IdClock i) - istart (itm s a)" by (simp add: unat_sub word_le_nat_alt)
    then show ?thesis using splitItem_rest[OF assms f(1) _ _ sp] lt f(2) by (auto simp: holds_def)
  qed
  then show ?thesis using that[OF b(1)] b(3,4) Some by auto
qed

lemma sequence_empty: "doc_ok s \<Longrightarrow> t < length (types s) \<Longrightarrow> sequence s t = [] \<longleftrightarrow> (\<forall>x \<in> stored s. Parent (itm s x) \<noteq> Some t)"
proof -
  assume a: "doc_ok s" "t < length (types s)"
  have "unit_ids (itm s x) \<noteq> []" if "x \<in> stored s" for x
    using good_size store_member(3)[OF doc_okD(1)[OF a(1)]] stored_client[OF doc_okD(1)[OF a(1)]] that by (fastforce simp: unit_ids_def)
  then show ?thesis using listing_iff[OF a] by (auto simp: sequence_def)
qed

lemma fresh_evolves:
  assumes "doc_ok s" "evolves s s'" "same_rest s s'" "fresh_item s a p"
  shows "fresh_item s' a p" "itm s' a = itm s a"
proof -
  note d = evolvesD[OF assms(2)] and f = assms(4)[unfolded fresh_item_def]
  have r: "length (heap s) \<le> length (heap s')" "length (types s') = length (types s)" "NextClock s' c = NextClock s c"
    "t < length (types s) \<Longrightarrow> sequence s' t = sequence s t" for c t
    using evolves_refines(1)[OF assms(2)] by (auto simp: refines_def)
  show i: "itm s' a = itm s a" using assms(3) f by (simp add: same_rest_def)
  have ns: "a \<notin> stored s'" using d(1) f by blast
  have "t < length (types s') \<and> t \<noteq> p \<and> t_item (ty s' t) = None \<and> (\<forall>x \<in> stored s'. Parent (itm s' x) \<noteq> Some t \<and> ItemContent (itm s' x) \<noteq> ContentType (Some t))"
    if c: "ItemContent (itm s a) = ContentType (Some t)" for t
  proof -
    have t: "t < length (types s)" "t \<noteq> p" "t_item (ty s t) = None" "\<forall>x \<in> stored s. Parent (itm s x) \<noteq> Some t \<and> ItemContent (itm s x) \<noteq> ContentType (Some t)"
      using f c by blast+
    have "sequence s' t = []" using r(4)[OF t(1)] sequence_empty[OF assms(1) t(1)] t(4) by simp
    then have "\<forall>x \<in> stored s'. Parent (itm s' x) \<noteq> Some t" using sequence_empty[OF evolves_refines(2)[OF assms(2)]] t(1) r(2) by simp
    moreover have "ItemContent (itm s' x) \<noteq> ContentType (Some t)" if "x \<in> stored s'" for x
      using d(2)[OF that, of "Some t"] d(1)[of x] t(4) that by blast
    ultimately show ?thesis using t(1,2) d(3)[OF t(1)] t(3) r(2) by simp
  qed
  then show "fresh_item s' a p" using f i r ns unfolding fresh_item_def by simp
qed

text \<open>The right neighbour.\<close>

lemma resolve_right_ok:
  assumes "doc_ok s" "fresh_item s a p"
  obtains s' r where "resolve_right a s = Inr s'" "refines s s'" "fresh_item s' a p" "itm s' a = (itm s a)\<lparr>Right := r\<rparr>" "docs s' = docs s"
    "pendingMoves s' = pendingMoves s" "nested_ok s \<longrightarrow> nested_ok s'" "orphan_ok s \<longrightarrow> orphan_ok s'"
    "Right (itm s a) = None \<Longrightarrow> OriginRight (itm s a) = Some i \<Longrightarrow> r = None \<and> Find s i = None \<or> (\<exists>b. r = Some b \<and> b \<in> stored s' \<and> ItemID (itm s' b) = i)"
    "Right (itm s a) \<noteq> None \<or> OriginRight (itm s a) = None \<Longrightarrow> s' = s"
proof (cases "Right (itm s a) = None \<and> OriginRight (itm s a) \<noteq> None")
  case True
  then obtain j where j: "Right (itm s a) = None" "OriginRight (itm s a) = Some j" by blast
  obtain r s1 where 1: "getItemCleanStart j s = Inr (r, s1)" "evolves s s1" "same_rest s s1" "r = None \<longleftrightarrow> Find s j = None"
      "\<forall>b. r = Some b \<longrightarrow> b \<in> stored s1 \<and> ItemID (itm s1 b) = j"
    by (rule cleanStart_evolves[OF assms(1), where i = j])
  note ok = evolves_refines[OF 1(2)] and fr = fresh_evolves[OF assms(1) 1(2,3) assms(2)] and d = evolvesD[OF 1(2)]
  have a: "a < length (heap s)" "a < length (heap s1)" "a \<notin> stored s1" "a \<notin> stored s" using assms(2) fr(1) by (simp_all add: fresh_item_def)
  define s' where "s' = upd a (\<lambda>x. x\<lparr>Right := r\<rparr>) s1"
  note u = upd_unstored[OF ok(2) a(3), where f = "\<lambda>x. x\<lparr>Right := r\<rparr>", folded s'_def]
  have i: "itm s' x = (if x = a then (itm s1 a)\<lparr>Right := r\<rparr> else itm s1 x)" for x using a(2) by (simp add: s'_def nth_update_if)
  have ia: "itm s' a = (itm s a)\<lparr>Right := r\<rparr>" using i fr(2) by simp
  have res: "resolve_right a s = Inr s'" by (simp add: resolve_right_def j 1(1) s'_def)
  have rf: "refines s s'"
  proof -
    have "same_head (itm s x) (itm s' x)" if "x < length (heap s)" for x
      using ok(1) that i fr(2) by (auto simp: refines_def same_head_def)
    then show ?thesis using ok(1) u(1-5) by (simp add: refines_def s'_def)
  qed
  have "itm s' x = itm s1 x" if "x \<in> stored s1" for x using i a(3) that by auto
  then have fi: "fresh_item s' a p" using fr(1) u(2,5) unfolding fresh_item_def by (simp add: i isize_def good_def) (simp add: s'_def)
  have rr: "r = None \<and> Find s i = None \<or> (\<exists>b. r = Some b \<and> b \<in> stored s' \<and> ItemID (itm s' b) = i)" if "OriginRight (itm s a) = Some i"
    using 1(4,5) j(2) that i a(3) u(2) by (cases r) auto
  show ?thesis
    by (rule that[OF res rf fi ia]) (use 1(3) u(6,7) d(4) d(6)[of "{}"] rr j in \<open>auto simp: same_rest_def s'_def atomic_def\<close>)
next
  case False
  then have "resolve_right a s = Inr s" by (auto simp: resolve_right_def split: option.splits)
  moreover have "itm s a = (itm s a)\<lparr>Right := Right (itm s a)\<rparr>" by simp
  ultimately show ?thesis using that[of s "Right (itm s a)"] assms False by auto
qed

text \<open>Changes of the types that leave the heads of the lists alone.\<close>

lemma updt_frame:
  assumes "\<And>y. t_start (f y) = t_start y \<and> t_length (f y) = t_length y"
  shows "stored (updt p f s) = stored s" "listing (updt p f s) t = listing s t" "sequence (updt p f s) t = sequence s t"
    "NextClock (updt p f s) c = NextClock s c" "store_ok (updt p f s) = store_ok s" "lists_ok (updt p f s) = lists_ok s"
    "links_ok (updt p f s) = links_ok s" "counts_ok (updt p f s) = counts_ok s"
proof -
  have t: "t_start (ty (updt p f s) t) = t_start (ty s t)" "t_length (ty (updt p f s) t) = t_length (ty s t)" for t using assms by (simp_all add: nth_update_if)
  show st: "stored (updt p f s) = stored s" by (simp add: stored_def)
  show l: "listing (updt p f s) t = listing s t" for t unfolding listing_def t by simp
  show "sequence (updt p f s) t = sequence s t" unfolding sequence_def l by simp
  show "NextClock (updt p f s) c = NextClock s c" "store_ok (updt p f s) = store_ok s" by (simp_all add: NextClock_def store_ok_def Let_def)
  show "lists_ok (updt p f s) = lists_ok s" unfolding lists_ok_def dll_def l st t by simp
  show "links_ok (updt p f s) = links_ok s" unfolding links_ok_def st by simp
  show "counts_ok (updt p f s) = counts_ok s" unfolding counts_ok_def l t by simp
qed

lemma remap_evolves:
  assumes "doc_ok s" "a \<in> stored s"
  shows "evolves s (updt p (\<lambda>y. y\<lparr>itemMap := map_put key a (itemMap y)\<rparr>) s)" (is "evolves s ?s")
    and "orphan_but A (updt p (\<lambda>y. y\<lparr>itemMap := map_put key a (itemMap y)\<rparr>) s) = orphan_but A s"
proof -
  have f: "t_start (y\<lparr>itemMap := map_put key a (itemMap y)\<rparr>) = t_start y \<and> t_length (y\<lparr>itemMap := map_put key a (itemMap y)\<rparr>) = t_length y" for y by simp
  note u = updt_frame[OF f, of p s]
  have t: "t_item (ty ?s t) = t_item (ty s t)" for t by (simp add: nth_update_if)
  have c: "container ?s x = container s x" for x unfolding container_def t by simp
  have "up ?s = up s" unfolding up_def c u by simp
  then have "nest_ok ?s = nest_ok s" unfolding nest_ok_def u t by simp
  moreover have "entries_ok ?s" using doc_okD(6)[OF assms(1)] assms(2) by (auto simp: entries_ok_def u nth_update_if)
  ultimately have ok: "doc_ok ?s" using assms(1) u by (simp add: doc_ok_def)
  show o': "orphan_but A ?s = orphan_but A s" for A unfolding orphan_but_def c u t by simp
  have "nested_ok ?s = nested_ok s" "atomic ?s A = atomic s A" for A unfolding nested_ok_def atomic_def c u t by simp_all
  then show "evolves s ?s" using o' ok u t stored_bound[OF assms(1)] by (auto simp: evolves_def refines_def same_head_def)
qed

lemma same_key_right_scans:
  "seg (heap s) prev q zs None lst \<Longrightarrow> length zs \<le> n \<Longrightarrow> same_key_right s k n q = Inr (\<exists>z \<in> set zs. ParentSub (itm s z) = k)"
proof (induction zs arbitrary: prev q n)
  case (Cons z zs)
  then show ?case by (cases n) auto
qed simp

lemma right_chain:
  assumes "doc_ok s" "a \<in> stored s" "Parent (itm s a) = Some p"
  obtains us vs lst where "listing s p = us @ a # vs" "seg (heap s) (Some a) (Right (itm s a)) vs None lst"
proof -
  note pb = parent_bound[OF assms]
  have "a \<in> set (listing s p)" using listing_iff[OF assms(1) pb] assms by simp
  then obtain us vs where l: "listing s p = us @ a # vs" by (meson split_list)
  then obtain lst where "seg (heap s) (Some a) (Right (itm s a)) vs None lst" using listing_dll[OF assms(1) pb] by (auto simp: dll_def seg_append)
  then show thesis using that l by blast
qed

lemma last_write_wins_evolves:
  assumes "doc_ok s" "nested_ok s" "a \<in> stored s" "Parent (itm s a) = Some p"
  obtains s' where "last_write_wins a p s = Inr s'" "evolves s s'" "\<forall>A. orphan_but A s \<longrightarrow> orphan_but A s'"
proof (cases "ParentSub (itm s a)")
  case None
  then show ?thesis using that assms by (simp add: last_write_wins_def)
next
  case (Some key)
  let ?prev = "map_of (itemMap (ty s p)) key"
  obtain us vs lst where v: "seg (heap s) (Some a) (Right (itm s a)) vs None lst" by (rule right_chain[OF assms(1,3,4)])
  have "\<exists>b. (if ?prev \<noteq> None \<and> ?prev \<noteq> Left (itm s a) then same_key_right s (Some key) (length (heap s)) (Right (itm s a)) else Inr False) = Inr b"
    by (auto simp: same_key_right_scans[OF v seg_length[OF v]])
  then obtain b where b: "(if ?prev \<noteq> None \<and> ?prev \<noteq> Left (itm s a) then same_key_right s (Some key) (length (heap s)) (Right (itm s a)) else Inr False) = Inr b" ..
  show ?thesis
  proof (cases b)
    case True
    obtain s' where "item_delete a s = Inr s'" "evolves s s'" "\<forall>A. orphan_but A s \<longrightarrow> orphan_but A s'" by (rule delete_evolves[OF assms(1-3)])
    then show ?thesis using that Some b True by (simp add: last_write_wins_def Let_def)
  next
    case False
    obtain s1 where s1: "(case ?prev of Some ex \<Rightarrow> if ex \<noteq> a \<and> \<not> Deleted (itm s ex) then item_delete ex s else Inr s | None \<Rightarrow> Inr s) = Inr s1" "evolves s s1"
      "\<forall>A. orphan_but A s \<longrightarrow> orphan_but A s1"
    proof (cases "\<exists>ex. ?prev = Some ex \<and> ex \<noteq> a \<and> \<not> Deleted (itm s ex)")
      case True
      then obtain ex where ex: "?prev = Some ex" "ex \<noteq> a" "\<not> Deleted (itm s ex)" by blast
      have "ex \<in> stored s" using doc_okD(6)[OF assms(1)] ex(1) parent_bound[OF assms(1,3,4)] by (simp add: entries_ok_def)
      from delete_evolves[OF assms(1,2) this] show ?thesis using that ex by auto
    next
      case False
      then show ?thesis using that[of s] assms by (cases ?prev) auto
    qed
    have st: "a \<in> stored s1" using evolves_refines(1)[OF s1(2)] assms(3) by (auto simp: refines_def)
    note rm = remap_evolves[OF evolves_refines(2)[OF s1(2)] st]
    show ?thesis using that[OF _ evolves_trans[OF s1(2) rm(1)]] rm(2) Some b s1(1,3) False by (simp add: last_write_wins_def Let_def)
  qed
qed

lemma delete_in_deleted_ok:
  assumes "doc_ok s" "nested_ok s" "a \<in> stored s" "Parent (itm s a) = Some p"
  obtains s' where "delete_in_deleted a p s = Inr s'" "evolves s s'" "orphan_but {a} s \<longrightarrow> orphan_ok s'"
proof (cases "\<exists>b. t_item (ty s p) = Some b \<and> Deleted (itm s b) \<and> \<not> Deleted (itm s a)")
  case True
  obtain s' where s': "item_delete a s = Inr s'" "evolves s s'" "Deleted (itm s' a)" "\<forall>A. orphan_but A s \<longrightarrow> orphan_but A s'"
    by (rule delete_evolves[OF assms(1-3)])
  have "orphan_ok s'" if "orphan_but {a} s" using s'(3,4) that unfolding orphan_but_def by auto
  then show ?thesis using that[of s'] s' True by (auto simp: delete_in_deleted_def)
next
  case False
  then have "delete_in_deleted a p s = Inr s" by (auto simp: delete_in_deleted_def split: option.splits)
  moreover have "orphan_ok s" if "orphan_but {a} s" using that False assms(4) unfolding orphan_but_def by (auto simp: container_def)
  ultimately show ?thesis using that assms by simp
qed

lemma register_subdoc_inert:
  assumes "\<forall>d. ItemContent (itm s a) = ContentDoc (Some d) \<longrightarrow> d_item (docs s ! d) = None \<or> d_item (docs s ! d) = Some a"
  obtains s' where "register_subdoc a s = Inr s'" "inert s s'" "pendingMoves s' = pendingMoves s"
proof (cases "\<exists>d. ItemContent (itm s a) = ContentDoc (Some d)")
  case True
  then obtain d where d: "ItemContent (itm s a) = ContentDoc (Some d)" by blast
  define s1 where "s1 = addSubdocAdded d (s\<lparr>docs := (docs s)[d := (docs s ! d)\<lparr>d_item := Some a\<rparr>]\<rparr>)"
  have "register_subdoc a s = Inr (if shouldLoad (docs s1 ! d) then addSubdocLoaded d s1 else s1)"
    using assms d by (auto simp: register_subdoc_def Let_def s1_def)
  then show ?thesis using that by (auto simp: s1_def addSubdocAdded_def addSubdocLoaded_def inert_fields)
next
  case False
  then show ?thesis using that[of s] by (auto simp: register_subdoc_def split: content.splits option.splits)
qed

text \<open>The back pointer of a nested type.\<close>

definition nested_but :: "iaddr \<Rightarrow> St \<Rightarrow> bool" where
  "nested_but a s \<longleftrightarrow> (\<forall>x \<in> stored s. x \<noteq> a \<longrightarrow> (\<forall>t. ItemContent (itm s x) = ContentType (Some t) \<longrightarrow> t_item (ty s t) = Some x))"

lemma attach_ok:
  assumes "doc_ok s" "a \<in> stored s" "nested_but a s" "ItemContent (itm s a) = ContentType (Some t)" "t_item (ty s t) = None"
    and "\<And>x. x \<in> stored s \<Longrightarrow> Parent (itm s x) \<noteq> Some t"
  defines "s' \<equiv> updt t (\<lambda>y. y\<lparr>t_item := Some a\<rparr>) s"
  shows "refines s s'" "nested_ok s'" "stored s' = stored s" "orphan_but A s \<Longrightarrow> orphan_but A s'"
proof -
  have f: "t_start (y\<lparr>t_item := Some a\<rparr>) = t_start y \<and> t_length (y\<lparr>t_item := Some a\<rparr>) = t_length y" for y by simp
  note u = updt_frame[OF f, of t s, folded s'_def]
  show "stored s' = stored s" by (rule u(1))
  have tb: "t < length (types s)" by (rule nested_bound[OF assms(1,2,4)])
  have h: "heap s' = heap s" "length (types s') = length (types s)" by (simp_all add: s'_def)
  have ti: "t_item (ty s' v) = (if v = t then Some a else t_item (ty s v))" "itemMap (ty s' v) = itemMap (ty s v)" for v using tb by (simp_all add: s'_def nth_update_if)
  have c: "container s' x = container s x" if "x \<in> stored s" for x
    using assms(6)[OF that] by (auto simp: container_def h(1) ti split: option.splits)
  have "up s' = up s" unfolding up_def u(1) using c by auto
  then have "acyclic (up s')" using doc_okD(5)[OF assms(1)] by (simp add: nest_ok_def)
  moreover have "x \<in> stored s \<and> ItemContent (itm s x) = ContentType (Some v)" if "v < length (types s)" "t_item (ty s' v) = Some x" for v x
    using that t_item_stored[OF assms(1) that(1)] assms(2,4) by (auto simp: ti(1) split: if_splits)
  ultimately have "nest_ok s'" using nested_bound[OF assms(1)] unfolding nest_ok_def u(1) h by blast
  moreover have "entries_ok s'" using doc_okD(6)[OF assms(1)] by (simp add: entries_ok_def u(1) h ti(2))
  ultimately have "doc_ok s'" using assms(1) u by (simp add: doc_ok_def)
  then show "refines s s'" using u h by (simp add: refines_def same_head_def)
  show "nested_ok s'" unfolding nested_ok_def u(1) h(1)
  proof (intro ballI allI impI)
    fix x v assume x: "x \<in> stored s" "ItemContent (itm s x) = ContentType (Some v)"
    show "t_item (ty s' v) = Some x"
    proof (cases "x = a")
      case False
      then have "t_item (ty s v) = Some x" using assms(3) x unfolding nested_but_def by blast
      then show ?thesis using assms(5) ti(1) by auto
    qed (use x assms(4) ti(1) in auto)
  qed
  show "orphan_but A s'" if "orphan_but A s" using that c unfolding orphan_but_def u(1) h(1) by simp
qed

lemma note_content_ok:
  assumes "doc_ok s" "a \<in> stored s" "nested_but a s" "ItemContent (itm s a) \<noteq> ContentType None"
    and "\<And>t. ItemContent (itm s a) = ContentType (Some t) \<Longrightarrow> t_item (ty s t) = None \<and> (\<forall>x \<in> stored s. Parent (itm s x) \<noteq> Some t)"
  obtains s' where "note_content a p s = Inr s'" "refines s s'" "nested_ok s'" "heap s' = heap s" "stored s' = stored s" "\<forall>A. orphan_but A s \<longrightarrow> orphan_but A s'"
proof (cases "\<exists>t. ItemContent (itm s a) = ContentType (Some t)")
  case True
  then obtain t where t: "ItemContent (itm s a) = ContentType (Some t)" by blast
  have "\<And>x. x \<in> stored s \<Longrightarrow> Parent (itm s x) \<noteq> Some t" "t_item (ty s t) = None" using assms(5)[OF t] by auto
  note at = attach_ok[OF assms(1-3) t this(2,1)]
  show ?thesis using that[of "updt t (\<lambda>y. y\<lparr>t_item := Some a\<rparr>) s"] at t by (simp add: note_content_def)
next
  case False
  define s' where "s' = (case ItemContent (itm s a) of
     ContentMove _ _ \<Rightarrow> clearMarkers p s | ContentString _ _ \<Rightarrow> s\<lparr>newItems := newItems s @ [a]\<rparr>
   | ContentFormat _ _ \<Rightarrow> updt p (\<lambda>y. y\<lparr>hasFormatting := True, fmtGen := fmtGen y + 1, cleanFormatting := True\<rparr>) s | _ \<Rightarrow> s)"
  have "note_content a p s = Inr s'" using False assms(4) by (auto simp: note_content_def s'_def split: content.splits option.splits)
  moreover have h: "heap s' = heap s" "clients s' = clients s" by (simp_all add: s'_def split: content.splits)
  moreover have i: "inert s s'" unfolding s'_def by (auto intro!: inert_updt inert_fields split: content.splits)
  moreover have "nested_ok s" using assms(3) False unfolding nested_but_def nested_ok_def by metis
  moreover have "\<forall>A. orphan_but A s \<longrightarrow> orphan_but A s'" using alike_orphan[OF assms(1) inert_alike[OF i]] h(1) by auto
  ultimately show ?thesis using that[of s'] inert_evolves[OF assms(1) i] evolves_refines evolvesD(4)[OF inert_evolves[OF assms(1) i]] by (simp add: stored_def)
qed

subsection \<open>Integration as a whole\<close>

text \<open>A subdocument is not yet held by another item, and a nested type is there.\<close>

definition holdable :: "St \<Rightarrow> iaddr \<Rightarrow> bool" where
  "holdable s a \<longleftrightarrow> ItemContent (itm s a) \<noteq> ContentType None \<and>
     (\<forall>d. ItemContent (itm s a) = ContentDoc (Some d) \<longrightarrow> d_item (docs s ! d) = None \<or> d_item (docs s ! d) = Some a)"

lemma placed_rest: "docs (Append a (count_in a p (link a p left s))) = docs s" "pendingMoves (Append a (count_in a p (link a p left s))) = pendingMoves s"
proof -
  have k: "docs (count_in a p s) = docs s" "pendingMoves (count_in a p s) = pendingMoves s" for s
    by (simp_all add: count_in_def Let_def updateMarkerChanges_def dropUncountedMarkersAt_def clearMarkers_def split: option.splits)
  have l: "docs (link a p left s) = docs s" "pendingMoves (link a p left s) = pendingMoves s"
    by (cases left; simp add: link_def Let_def invalidateFirstLiveCache_def rest_calls)+
  show "docs (Append a (count_in a p (link a p left s))) = docs s" "pendingMoves (Append a (count_in a p (link a p left s))) = pendingMoves s"
    by (simp_all add: Append_def Let_def k l)
qed

lemma inserted_orphan:
  assumes "doc_ok s" "fresh_item s a p" "inserted s a p us vs s'" "orphan_ok s"
  shows "orphan_but {a} s'"
  unfolding orphan_but_def inserted_store(2)[OF assms(1-3)]
proof (intro ballI allI impI)
  fix x b assume x: "x \<in> insert a (stored s) - {a}" "container s' x = Some b" "Deleted (itm s' b)"
  then have xs: "x \<in> stored s" by blast
  note i = inserted_item[OF assms(3)]
  have t: "t_item (ty s' t) = t_item (ty s t)" if "t < length (types s)" for t using assms(3) that by (simp add: inserted_def)
  have c: "container s x = Some b"
    using x(2) i(3)[OF stored_bound[OF assms(1) xs]] parent_bound[OF assms(1) xs] t by (auto simp: container_def split: option.splits)
  then have "Deleted (itm s b)" using x(3) i(5)[OF stored_bound[OF assms(1) container_stored[OF assms(1) xs c]]] by simp
  then show "Deleted (itm s' x)" using assms(4) xs c i(5)[OF stored_bound[OF assms(1) xs]] unfolding orphan_but_def by auto
qed

lemma inserted_nested:
  assumes "doc_ok s" "fresh_item s a p" "inserted s a p us vs s'" "nested_ok s"
  shows "nested_but a s'"
  unfolding nested_but_def inserted_store(2)[OF assms(1-3)]
proof (intro ballI allI impI)
  fix x t assume x: "x \<in> insert a (stored s)" "x \<noteq> a" "ItemContent (itm s' x) = ContentType (Some t)"
  then have xs: "x \<in> stored s" by blast
  have "ItemContent (itm s x) = ContentType (Some t)" using x(3) inserted_item(2)[OF assms(3) stored_bound[OF assms(1) xs]] by simp
  then show "t_item (ty s' t) = Some x" using nested_item[OF assms(4) xs] nested_bound[OF assms(1) xs] assms(3) by (simp add: inserted_def)
qed

lemma evolves_nested_but:
  assumes "doc_ok s" "evolves s s'" "nested_but a s"
  shows "nested_but a s'"
  unfolding nested_but_def
proof (intro ballI allI impI)
  fix x t assume x: "x \<in> stored s'" "x \<noteq> a" "ItemContent (itm s' x) = ContentType (Some t)"
  note d = evolvesD[OF assms(2)]
  have c: "x < length (heap s)" "ItemContent (itm s x) = ContentType (Some t)" using d(2)[OF x(1)] x(3) by auto
  have xs: "x \<in> stored s" by (rule d(1)[OF c(1) x(1)])
  then show "t_item (ty s' t) = Some x" using d(3)[OF nested_bound[OF assms(1) xs c(2)]] assms(3) x(2) c(2) unfolding nested_but_def by simp
qed

text \<open>Moves are arbitrated after the item is linked; an item that no deferred move waits for stays whole.\<close>

lemma moves_evolve:
  assumes "doc_ok s" "a \<in> stored s"
  obtains s1 s2 where "arbitrate_move a s = Inr s1" "resolvePendingMoves (iclient (itm s1 a)) s1 = Inr s2" "evolves s s2"
    "isize (itm s a) \<le> 1 \<or> map_list (pendingMoves s) (iclient (itm s a)) = [] \<Longrightarrow> orphan_but {a} s \<Longrightarrow> orphan_but {a} s2"
proof -
  obtain s1 where 1: "arbitrate_move a s = Inr s1" "evolves s s1" using arbitrate_move_evolves[OF assms(1)] by blast
  obtain s2 where 2: "resolvePendingMoves (iclient (itm s1 a)) s1 = Inr s2" "evolves s1 s2" by (rule resolvePendingMoves_evolves[OF evolves_refines(2)[OF 1(2)]])
  note e = evolves_trans[OF 1(2) 2(2)]
  have "orphan_but {a} s2" if h: "isize (itm s a) \<le> 1 \<or> map_list (pendingMoves s) (iclient (itm s a)) = []" and o': "orphan_but {a} s"
  proof (cases "isize (itm s a) \<le> 1")
    case True
    then show ?thesis using evolvesD(6)[OF e, of "{a}"] assms(2) o' by (simp add: atomic_def)
  next
    case False
    then have "\<nexists>i n. ItemContent (itm s a) = ContentMove i n" by (auto simp: isize_def)
    then have "s1 = s" using 1(1) by (auto simp: arbitrate_move_def split: content.splits)
    then have "s2 = s" using 2(1) h False by (simp add: resolvePendingMoves_def)
    then show ?thesis using o' by simp
  qed
  then show thesis using that 1(1) 2(1) e by blast
qed

lemma fresh_type:
  assumes "doc_ok s" "fresh_item s a p" "inserted s a p us vs s1" "listing s p = us @ vs" "evolves s1 s2" "ItemContent (itm s a) = ContentType (Some t)"
  shows "t_item (ty s2 t) = None \<and> (\<forall>x \<in> stored s2. Parent (itm s2 x) \<noteq> Some t)"
proof -
  have t: "t < length (types s)" "t \<noteq> p" "t_item (ty s t) = None" "\<forall>x \<in> stored s. Parent (itm s x) \<noteq> Some t"
    using assms(2,6) unfolding fresh_item_def by blast+
  have n: "length (types s1) = length (types s)" "t_item (ty s1 t) = t_item (ty s t)" using assms(3) t(1) by (simp_all add: inserted_def)
  have l: "length (types s2) = length (types s1)" "sequence s2 t = sequence s1 t" using evolves_refines(1)[OF assms(5)] t(1) n(1) by (simp_all add: refines_def)
  have "sequence s2 t = []" using inserted_doc_ok(3)[OF assms(1-4) t(1,2)] l(2) sequence_empty[OF assms(1) t(1)] t(4) by simp
  then show ?thesis using sequence_empty[OF evolves_refines(2)[OF assms(5)], of t] evolvesD(3)[OF assms(5), of t] t(1,3) n l by simp
qed

lemma place_ok:
  assumes "doc_ok s" "fresh_item s a p" "nested_ok s" "holdable s a" "listing s p = us @ vs"
  obtains s1 s' where "inserted s a p us vs s1" "place a p (left_end us) s = Inr s'" "refines s1 s'" "nested_ok s'"
    "isize (itm s a) \<le> 1 \<or> map_list (pendingMoves s) (iclient (itm s a)) = [] \<Longrightarrow> orphan_ok s \<Longrightarrow> orphan_ok s'"
proof -
  have f: "a < length (heap s)" "a \<notin> stored s" "p < length (types s)" "Parent (itm s a) = Some p" using assms(2) by (simp_all add: fresh_item_def)
  define s1 where "s1 = Append a (count_in a p (link a p (left_end us) s))"
  have ins: "inserted s a p us vs s1" unfolding s1_def by (rule placed[OF assms(1) f(3,1,2) assms(5)])
  note ok1 = inserted_doc_ok(1)[OF assms(1,2) ins assms(5)] and i1 = inserted_item[OF ins f(1)] and r1 = placed_rest[of a p "left_end us" s, folded s1_def]
  have a1: "a \<in> stored s1" using inserted_store(2)[OF assms(1,2) ins] by simp
  have "\<forall>d. ItemContent (itm s1 a) = ContentDoc (Some d) \<longrightarrow> d_item (docs s1 ! d) = None \<or> d_item (docs s1 ! d) = Some a"
    using assms(4) i1(2) r1 by (simp add: holdable_def)
  then obtain s2 where 2: "register_subdoc a s1 = Inr s2" "inert s1 s2" "pendingMoves s2 = pendingMoves s1" by (rule register_subdoc_inert)
  note e2 = inert_evolves[OF ok1 2(2)]
  have h2: "a \<in> stored s2" "itm s1 a = itm s1 a" and j2: "ItemID (itm s2 a) = ItemID (itm s1 a)" "ItemContent (itm s2 a) = ItemContent (itm s1 a)"
    using a1 alike_stored[OF inert_alike[OF 2(2)]] alike_item[OF inert_alike[OF 2(2)] stored_bound[OF ok1 a1]] by (simp_all add: same_links_def)
  obtain s3 s4 where m: "arbitrate_move a s2 = Inr s3" "resolvePendingMoves (iclient (itm s3 a)) s3 = Inr s4" "evolves s2 s4"
    "isize (itm s2 a) \<le> 1 \<or> map_list (pendingMoves s2) (iclient (itm s2 a)) = [] \<Longrightarrow> orphan_but {a} s2 \<Longrightarrow> orphan_but {a} s4"
    by (rule moves_evolve[OF evolves_refines(2)[OF e2] h2(1)]) blast
  note e4 = evolves_trans[OF e2 m(3)] and ok4 = evolves_refines(2)[OF evolves_trans[OF e2 m(3)]]
  have a4: "a \<in> stored s4" using evolves_refines(1)[OF e4] a1 by (auto simp: refines_def)
  have kind: "ItemContent (itm s4 a) = ContentType t \<longleftrightarrow> ItemContent (itm s a) = ContentType t" for t
    using evolvesD(2)[OF e4 a4] i1(2) stored_bound[OF ok1 a1] by simp
  have nt: "t_item (ty s4 t) = None \<and> (\<forall>x \<in> stored s4. Parent (itm s4 x) \<noteq> Some t)" if "ItemContent (itm s4 a) = ContentType (Some t)" for t
    using fresh_type[OF assms(1,2) ins assms(5) e4] that kind by blast
  obtain s5 where 5: "note_content a p s4 = Inr s5" "refines s4 s5" "nested_ok s5" "heap s5 = heap s4" "stored s5 = stored s4" "\<forall>A. orphan_but A s4 \<longrightarrow> orphan_but A s5"
    by (rule note_content_ok[OF ok4 a4 evolves_nested_but[OF ok1 e4 inserted_nested[OF assms(1,2) ins assms(3)]]])
      (use assms(4) kind nt in \<open>auto simp: holdable_def\<close>)
  note r5 = refines_trans[OF evolves_refines(1)[OF e4] 5(2)]
  have p5: "Parent (itm s5 a) = Some p" using r5 stored_bound[OF ok1 a1] i1(3) f(4) by (auto simp: refines_def same_head_def)
  obtain s6 where 6: "last_write_wins a p s5 = Inr s6" "evolves s5 s6" "\<forall>A. orphan_but A s5 \<longrightarrow> orphan_but A s6"
    by (rule last_write_wins_evolves[OF refines_doc_ok[OF r5] 5(3) _ p5]) (use a4 5(5) in simp)
  have a6: "a \<in> stored s6" "Parent (itm s6 a) = Some p" using evolves_refines(1)[OF 6(2)] a4 5(5) p5 stored_bound[OF refines_doc_ok[OF r5], of a] by (auto simp: refines_def same_head_def)
  obtain s7 where 7: "delete_in_deleted a p s6 = Inr s7" "evolves s6 s7" "orphan_but {a} s6 \<longrightarrow> orphan_ok s7"
    by (rule delete_in_deleted_ok[OF evolves_refines(2)[OF 6(2)] evolvesD(4)[OF 6(2) 5(3)] a6])
  define s8 where "s8 = addChanged p (parentSubKey (ParentSub (itm s7 a))) s7"
  have e8: "evolves s7 s8" unfolding s8_def by (rule inert_evolves[OF evolves_refines(2)[OF 7(2)] inert_addChanged])
  note e = evolves_trans[OF 6(2) evolves_trans[OF 7(2) e8]]
  have "place a p (left_end us) s = Inr s8" by (simp add: place_def s1_def[symmetric] 2 m 5 6 7 s8_def)
  moreover have "refines s1 s8" by (rule refines_trans[OF r5 evolves_refines(1)[OF e]])
  moreover have "nested_ok s8" by (rule evolvesD(4)[OF e 5(3)])
  moreover have "orphan_ok s8" if "isize (itm s a) \<le> 1 \<or> map_list (pendingMoves s) (iclient (itm s a)) = []" "orphan_ok s"
  proof -
    have "isize (itm s2 a) = isize (itm s a)" "iclient (itm s2 a) = iclient (itm s a)" using j2 i1(1,2) by (simp_all add: isize_def)
    moreover have "orphan_but {a} s2" using alike_orphan[OF ok1 inert_alike[OF 2(2)] _ inserted_orphan[OF assms(1,2) ins that(2)]] 2(2) stored_bound[OF ok1] by (simp add: inert_def)
    ultimately have "orphan_ok s7" using m(4) that(1) 2(3) r1(2) 5(6) 6(3) 7(3) by simp
    then show ?thesis using evolvesD(6)[OF e8, of "{}"] by (simp add: atomic_def)
  qed
  ultimately show thesis using that[OF ins] by blast
qed

end
