(* ===== verification/Integrate_Total.thy ===== *)
theory Integrate_Total
  imports Integrate_Facts
begin

text \<open>
  Integration of a ready item returns, keeps the document well formed and adds the units of the item that are not known
  yet at one place of its parent.
\<close>

subsection \<open>Items that are ready\<close>

text \<open>
  The first \<open>k\<close> units of the item are known already.  Its left neighbour, which for \<open>k > 0\<close> is the item with the last
  known unit of the client, is in the same parent.
\<close>

definition ready :: "St \<Rightarrow> iaddr \<Rightarrow> taddr \<Rightarrow> nat \<Rightarrow> bool" where
  "ready s a p k \<longleftrightarrow> a < length (heap s) \<and> a \<notin> stored s \<and> Parent (itm s a) = Some p \<and> p < length (types s) \<and> good (itm s a) \<and>
     istart (itm s a) + k = unat (NextClock s (iclient (itm s a))) \<and> k < isize (itm s a) \<and> istop (itm s a) < 2 ^ 64 \<and>
     (\<forall>t. ItemContent (itm s a) = ContentType (Some t) \<longrightarrow> t < length (types s) \<and> t \<noteq> p \<and> t_item (ty s t) = None \<and>
        (\<forall>x \<in> stored s. Parent (itm s x) \<noteq> Some t \<and> ItemContent (itm s x) \<noteq> ContentType (Some t))) \<and>
     (if k = 0 then Left (itm s a) = None \<or> (\<exists>l \<in> stored s. Left (itm s a) = Some l \<and> Parent (itm s l) = Some p)
      else \<forall>l. holds s \<lparr>Client = iclient (itm s a), IdClock = NextClock s (iclient (itm s a)) - 1\<rparr> l \<longrightarrow> Parent (itm s l) = Some p)"

definition left_in :: "St \<Rightarrow> iaddr \<Rightarrow> taddr \<Rightarrow> bool" where
  "left_in s a p \<longleftrightarrow> Left (itm s a) = None \<or> (\<exists>l \<in> stored s. Left (itm s a) = Some l \<and> Parent (itm s l) = Some p)"

lemma last_unit:
  assumes "doc_ok s" "0 < NextClock s c"
  obtains l where "getItemCleanEnd c (NextClock s c - 1) s = Inr (Some l, s)" "holds s \<lparr>Client = c, IdClock = NextClock s c - 1\<rparr> l"
    "iclock (itm s l) + ilen (itm s l) - 1 = NextClock s c - 1" "iclient (itm s l) = c" "l \<in> stored s"
proof -
  let ?i = "\<lparr>Client = c, IdClock = NextClock s c - 1\<rparr>"
  note ok = doc_okD(1)[OF assms(1)]
  have n: "unat (NextClock s c - 1) + 1 = unat (NextClock s c)" using assms(2) by (subst unat_sub) (auto simp: word_le_nat_alt word_less_nat_alt)
  have "Find s ?i \<noteq> None" using Find_iff_known[OF ok, of ?i] n by (simp add: word_less_nat_alt)
  then obtain l where l: "Find s ?i = Some l" by blast
  then have h: "holds s ?i l" using Find_correct[OF ok] by blast
  then have m: "l \<in> set (items_of s c)" by (simp add: holds_def)
  note sm = store_member[OF ok m]
  have "istop (itm s l) = unat (NextClock s c)" using h sm(4) NextClock_correct[OF ok, of c] n by (simp add: holds_def)
  then have "iclock (itm s l) + ilen (itm s l) = NextClock s c" using sm(7) by (simp add: word_unat_eq_iff)
  then show thesis using that[of l] l h sm(2) m by (auto simp: getItemCleanEnd_def stored_def)
qed

lemma Splice_doc: "Splice k c = Inr (l, r) \<Longrightarrow> r \<noteq> ContentDoc d"
  by (cases c) (auto split: if_splits prod.splits)

lemma skip_prefix_ok:
  assumes "doc_ok s" "ready s a p k"
  obtains f where "skip_prefix a k s = Inr (upd a f s)" "fresh_item (upd a f s) a p" "left_in (upd a f s) a p"
    "iclient (f (itm s a)) = iclient (itm s a)" "istart (f (itm s a)) = istart (itm s a) + k" "isize (f (itm s a)) = isize (itm s a) - k"
    "OriginRight (f (itm s a)) = OriginRight (itm s a)" "Right (f (itm s a)) = Right (itm s a)" "ParentSub (f (itm s a)) = ParentSub (itm s a)" "holdable s a \<Longrightarrow> holdable (upd a f s) a"
    "k = 0 \<Longrightarrow> f = (\<lambda>i. i)"
proof (cases "k = 0")
  case True
  have "upd a (\<lambda>i. i) s = s" by (simp add: upd_def)
  then show ?thesis using that[of "\<lambda>i. i"] True assms(2) by (simp add: skip_prefix_def ready_def fresh_item_def left_in_def)
next
  case False
  let ?it = "itm s a" let ?c = "iclient (itm s a)"
  have r: "a < length (heap s)" "a \<notin> stored s" "Parent ?it = Some p" "p < length (types s)" "good ?it" "istart ?it + k = unat (NextClock s ?c)" "k < isize ?it" "istop ?it < 2 ^ 64"
    "\<And>l. holds s \<lparr>Client = ?c, IdClock = NextClock s ?c - 1\<rparr> l \<Longrightarrow> Parent (itm s l) = Some p"
    using assms(2) False by (simp_all add: ready_def)
  have nc: "iclock ?it + of_nat k = NextClock s ?c"
  proof -
    have "of_nat (istart ?it + k) = NextClock s ?c" unfolding r(6) by simp
    then show ?thesis by simp
  qed
  define s1 where "s1 = upd a (\<lambda>i. i\<lparr>ItemID := (ItemID i)\<lparr>IdClock := iclock i + of_nat k\<rparr>\<rparr>) s"
  note u1 = upd_unstored[OF assms(1) r(2), where f = "\<lambda>i. i\<lparr>ItemID := (ItemID i)\<lparr>IdClock := iclock i + of_nat k\<rparr>\<rparr>", folded s1_def]
  have i1: "itm s1 a = ?it\<lparr>ItemID := (ItemID ?it)\<lparr>IdClock := NextClock s ?c\<rparr>\<rparr>" "x \<in> stored s \<Longrightarrow> itm s1 x = itm s x" for x
    using r(1,2) nc by (auto simp: s1_def nth_update_if)
  have pos: "0 < NextClock s1 ?c" using r(6) False by (simp add: u1(5) word_less_nat_alt)
  obtain l where l: "getItemCleanEnd ?c (NextClock s ?c - 1) s1 = Inr (Some l, s1)" "holds s1 \<lparr>Client = ?c, IdClock = NextClock s ?c - 1\<rparr> l"
      "iclock (itm s1 l) + ilen (itm s1 l) - 1 = NextClock s ?c - 1" "iclient (itm s1 l) = ?c" "l \<in> stored s1"
    by (rule last_unit[OF u1(1) pos, unfolded u1(5)])
  have ls: "l \<in> stored s" "l \<noteq> a" "itm s1 l = itm s l" using l(5) u1(2) r(2) i1(2) by auto
  have "items_of s1 = items_of s" by (simp add: s1_def)
  then have pl: "Parent (itm s l) = Some p" using r(9)[of l] l(2) ls(3) by (simp add: holds_def)
  obtain lc rc where sp: "Splice k (ItemContent ?it) = Inr (lc, rc)" "good (?it\<lparr>ItemContent := rc\<rparr>)" "ContentLen rc = ContentLen (ItemContent ?it) - int k"
    by (rule good_splits[OF r(5) _ r(7)]) (use False in auto)
  define f where "f = (\<lambda>i. i\<lparr>ItemID := (ItemID i)\<lparr>IdClock := iclock i + of_nat k\<rparr>, Left := Some l,
     Origin := Some \<lparr>Client = ?c, IdClock = NextClock s ?c - 1\<rparr>, ItemContent := rc\<rparr>)"
  have "skip_prefix a k s = Inr (upd a f s)"
    using False l(1,3,4) ls r(1) i1(1) sp(1) unfolding skip_prefix_def s1_def[symmetric]
    by (simp add: Let_def f_def s1_def upd_def nth_update_if nc)
  moreover have fi: "itm (upd a f s) a = f ?it" using r(1) by simp
  moreover have sz: "isize (f ?it) = isize ?it - k" "istart (f ?it) = istart ?it + k" "good (f ?it)"
    using sp(2,3) r(6) by (simp_all add: f_def isize_def nc good_def nat_diff_distrib)
  moreover note u = upd_unstored[OF assms(1) r(2), where f = f]
  have "fresh_item (upd a f s) a p"
    unfolding fresh_item_def u(2,5) fi using r sz Splice_kinds[OF sp(1)] by (simp add: f_def)
  moreover have "left_in (upd a f s) a p" unfolding left_in_def u(2) fi using ls pl by (auto simp: f_def nth_update_if)
  moreover have "holdable (upd a f s) a" unfolding holdable_def fi using Splice_kinds[OF sp(1)] Splice_doc[OF sp(1)] by (simp add: f_def)
  ultimately show ?thesis using that[of f] False by (simp add: f_def)
qed

subsection \<open>What integration adds\<close>

definition units_of :: "St \<Rightarrow> iaddr list \<Rightarrow> (ClientID \<times> nat) list" where
  "units_of s xs = concat (map (\<lambda>x. unit_ids (itm s x)) xs)"

lemma units_append [simp]: "units_of s (xs @ ys) = units_of s xs @ units_of s ys"
  by (simp add: units_of_def)

lemma sequence_units: "sequence s t = units_of s (listing s t)"
  by (simp add: sequence_def units_of_def)

text \<open>The units of an item after the first \<open>k\<close>.\<close>

definition new_units :: "Item \<Rightarrow> nat \<Rightarrow> (ClientID \<times> nat) list" where
  "new_units it k = map (\<lambda>n. (iclient it, istart it + n)) [k..<isize it]"

lemma new_units_skip:
  assumes "iclient j = iclient i" "istart j = istart i + k" "isize j = isize i - k"
  shows "unit_ids j = new_units i k"
  by (rule nth_equalityI) (simp_all add: unit_ids_def new_units_def assms add.assoc)

definition added :: "St \<Rightarrow> ClientID \<Rightarrow> taddr \<Rightarrow> (ClientID \<times> nat) list \<Rightarrow> (ClientID \<times> nat) list \<Rightarrow> (ClientID \<times> nat) list \<Rightarrow> St \<Rightarrow> bool" where
  "added s c p us ns vs s' \<longleftrightarrow> sequence s p = us @ vs \<and> sequence s' p = us @ ns @ vs \<and> length (types s') = length (types s) \<and>
     (\<forall>t < length (types s). t \<noteq> p \<longrightarrow> sequence s' t = sequence s t) \<and>
     (\<forall>d. unat (NextClock s' d) = unat (NextClock s d) + (if d = c then length ns else 0)) \<and>
     stored s \<subseteq> stored s' \<and> (\<forall>x \<in> stored s. same_head (itm s x) (itm s' x))"

lemma place_adds:
  assumes "doc_ok s" "fresh_item s a p" "nested_ok s" "holdable s a" "listing s p = us @ vs"
  obtains s' where "place a p (left_end us) s = Inr s'" "doc_ok s'" "nested_ok s'" "added s (iclient (itm s a)) p (units_of s us) (unit_ids (itm s a)) (units_of s vs) s'"
    "isize (itm s a) \<le> 1 \<or> map_list (pendingMoves s) (iclient (itm s a)) = [] \<Longrightarrow> orphan_ok s \<Longrightarrow> orphan_ok s'"
proof -
  have p: "p < length (types s)" using assms(2) by (simp add: fresh_item_def)
  obtain s1 s' where s': "inserted s a p us vs s1" "place a p (left_end us) s = Inr s'" "refines s1 s'" "nested_ok s'"
    "isize (itm s a) \<le> 1 \<or> map_list (pendingMoves s) (iclient (itm s a)) = [] \<Longrightarrow> orphan_ok s \<Longrightarrow> orphan_ok s'"
    by (rule place_ok[OF assms]) blast
  note d = inserted_doc_ok[OF assms(1,2) s'(1) assms(5)] and st = inserted_store(2)[OF assms(1,2) s'(1)] and i = inserted_item[OF s'(1)]
  have n: "length (types s1) = length (types s)" "length (heap s1) = length (heap s)" using s'(1) by (simp_all add: inserted_def)
  have "same_head (itm s x) (itm s' x)" if "x \<in> stored s" for x
  proof -
    have "same_head (itm s1 x) (itm s' x)" using s'(3) stored_bound[OF assms(1) that] n(2) by (simp add: refines_def)
    then show ?thesis using i[OF stored_bound[OF assms(1) that]] by (simp add: same_head_def)
  qed
  then have "added s (iclient (itm s a)) p (units_of s us) (unit_ids (itm s a)) (units_of s vs) s'"
    using s'(3) d(2-4) n p st assms(5) by (auto simp: added_def refines_def sequence_units[of s p] units_of_def unit_ids_def[of "itm s a"])
  then show thesis using that s' refines_doc_ok by blast
qed

lemma left_split:
  assumes "doc_ok s" "p < length (types s)" "left_in s a p"
  obtains us vs where "listing s p = us @ vs" "Left (itm s a) = left_end us"
proof (cases "Left (itm s a)")
  case None
  then show ?thesis using that[of "[]" "listing s p"] by (simp add: left_end_def)
next
  case (Some l)
  then have "l \<in> set (listing s p)" using assms(3) listing_iff[OF assms(1,2)] by (auto simp: left_in_def)
  then obtain us vs where "listing s p = us @ l # vs" by (meson split_list)
  then show ?thesis using that[of "us @ [l]" vs] Some by (simp add: left_end_def)
qed

lemma added_via:
  assumes "added s1 c p us ns vs s'" "p < length (types s)" "length (types s1) = length (types s)" "\<And>t. t < length (types s) \<Longrightarrow> sequence s1 t = sequence s t"
    and "\<And>c. NextClock s1 c = NextClock s c" "stored s \<subseteq> stored s1" "\<And>x. x \<in> stored s \<Longrightarrow> same_head (itm s x) (itm s1 x)"
  shows "added s c p us ns vs s'"
proof -
  have "same_head (itm s x) (itm s' x)" if "x \<in> stored s" for x
  proof -
    have "same_head (itm s1 x) (itm s' x)" using assms(1,6) that unfolding added_def by blast
    then show ?thesis using assms(7)[OF that] by (simp add: same_head_def)
  qed
  then show ?thesis using assms(1-6) unfolding added_def by auto
qed

lemma integrate_adds:
  assumes "doc_ok s" "nested_ok s" "ready s a p k" "holdable s a"
  obtains s' us vs where "integrate a k s = Inr s'" "doc_ok s'" "nested_ok s'" "added s (iclient (itm s a)) p us (new_units (itm s a) k) vs s'"
    "isize (itm s a) \<le> Suc k \<or> map_list (pendingMoves s) (iclient (itm s a)) = [] \<Longrightarrow> orphan_ok s \<Longrightarrow> orphan_ok s'"
proof -
  have r: "a < length (heap s)" "a \<notin> stored s" "Parent (itm s a) = Some p" "p < length (types s)" using assms(3) by (simp_all add: ready_def)
  obtain f where f: "skip_prefix a k s = Inr (upd a f s)" "fresh_item (upd a f s) a p" "left_in (upd a f s) a p"
      "iclient (f (itm s a)) = iclient (itm s a)" "istart (f (itm s a)) = istart (itm s a) + k" "isize (f (itm s a)) = isize (itm s a) - k" "holdable (upd a f s) a"
    by (rule skip_prefix_ok[OF assms(1,3)]) (use assms(4) in blast)
  define s1 where "s1 = upd a f s"
  note u = upd_unstored[OF assms(1) r(2), where f = f, folded s1_def]
  have i1: "itm s1 a = f (itm s a)" "x \<in> stored s \<Longrightarrow> itm s1 x = itm s x" for x using r(1,2) by (auto simp: s1_def nth_update_if)
  have fr1: "fresh_item s1 a p" using f(2) by (simp add: s1_def)
  obtain s2 q where 2: "resolve_right a s1 = Inr s2" "refines s1 s2" "fresh_item s2 a p" "itm s2 a = (itm s1 a)\<lparr>Right := q\<rparr>" "docs s2 = docs s1"
      "pendingMoves s2 = pendingMoves s1" "nested_ok s1 \<longrightarrow> nested_ok s2" "orphan_ok s1 \<longrightarrow> orphan_ok s2"
    by (rule resolve_right_ok[OF u(1) fr1]) blast
  have li: "left_in s2 a p"
  proof -
    have "Parent (itm s2 l) = Parent (itm s1 l) \<and> l \<in> stored s2" if "l \<in> stored s1" for l
      using 2(2) that stored_bound[OF u(1) that] by (auto simp: refines_def same_head_def)
    then show ?thesis using f(3) 2(4) unfolding left_in_def s1_def[symmetric] by auto
  qed
  have p2: "p < length (types s2)" "a < length (heap s2)" "a \<notin> stored s2" "Parent (itm s1 a) = Some p" using 2(3) fr1 by (simp_all add: fresh_item_def)
  note ok2 = refines_doc_ok[OF 2(2)]
  obtain us vs where l: "listing s2 p = us @ vs" "Left (itm s2 a) = left_end us" by (rule left_split[OF ok2 p2(1) li])
  obtain zs rest where z: "vs = zs @ rest" "find_left a p s2 = Inr (left_end (us @ zs))"
    by (rule find_left_stops[OF ok2 p2(1-3), of us vs "[]"]) (use l in auto)
  have hd2: "holdable s2 a" using f(7) 2(4,5) unfolding holdable_def s1_def[symmetric] by simp
  obtain s' where s': "place a p (left_end (us @ zs)) s2 = Inr s'" "doc_ok s'" "nested_ok s'"
      "added s2 (iclient (itm s2 a)) p (units_of s2 (us @ zs)) (unit_ids (itm s2 a)) (units_of s2 rest) s'"
      "isize (itm s2 a) \<le> 1 \<or> map_list (pendingMoves s2) (iclient (itm s2 a)) = [] \<Longrightarrow> orphan_ok s2 \<Longrightarrow> orphan_ok s'"
    by (rule place_adds[OF ok2 2(3) _ hd2, of "us @ zs" rest]) (use 2(7) u(6) assms(2) l z in \<open>auto\<close>)
  have "integrate a k s = Inr s'" unfolding integrate_def f(1) s1_def[symmetric] using p2(4) 2(1) z(2) s'(1) by simp
  moreover have ids: "unit_ids (itm s2 a) = new_units (itm s a) k" "iclient (itm s2 a) = iclient (itm s a)" "isize (itm s2 a) = isize (itm s a) - k"
    using new_units_skip[of "itm s2 a" "itm s a" k] f(4-6) 2(4) i1(1) by (simp_all add: isize_def)
  have "added s (iclient (itm s a)) p (units_of s2 (us @ zs)) (new_units (itm s a) k) (units_of s2 rest) s'"
  proof (rule added_via[OF s'(4)[unfolded ids(1,2)] r(4)])
    show "same_head (itm s x) (itm s2 x)" if "x \<in> stored s" for x
      using 2(2) stored_bound[OF u(1), of x] that u(2) i1(2)[OF that] by (auto simp: refines_def same_head_def)
  qed (use 2(2) u in \<open>auto simp: refines_def s1_def\<close>)
  moreover have "pendingMoves s1 = pendingMoves s" by (simp add: s1_def)
  ultimately show thesis using that s'(2,3,5) 2(6,8) u(7) ids(2,3) by (auto simp: le_diff_conv)
qed

lemma integrate_between_ok:
  assumes "doc_ok s" "nested_ok s" "ready s a p 0" "holdable s a" "listing s p = us @ zs @ r # ws" "Left (itm s a) = left_end us"
    and "Right (itm s a) = Some r \<or> Right (itm s a) = None \<and> OriginRight (itm s a) = Some (ItemID (itm s r))"
  obtains s' xs ys where "integrate a 0 s = Inr s'" "doc_ok s'" "zs = xs @ ys"
    "sequence s' p = units_of s (us @ xs) @ unit_ids (itm s a) @ units_of s (ys @ r # ws)"
proof -
  have q: "a < length (heap s)" "a \<notin> stored s" "Parent (itm s a) = Some p" "p < length (types s)" using assms(3) by (simp_all add: ready_def)
  have rs: "r \<in> stored s" using listing_iff[OF assms(1) q(4), of r] assms(5) by simp
  note m = stored_item[OF assms(1) rs]
  have "holds s (ItemID (itm s r)) r" using m good_size[OF m(1)] by (simp add: holds_def)
  then have "Find s (ItemID (itm s r)) = Some r" using Find_correct[OF doc_okD(1)[OF assms(1)]] by blast
  then have gs: "getItemCleanStart (ItemID (itm s r)) s = Inr (Some r, s)" by (simp add: getItemCleanStart_def)
  define s2 where "s2 = upd a (\<lambda>i. i\<lparr>Right := Some r\<rparr>) s"
  have rr: "resolve_right a s = Inr s2"
  proof (cases "Right (itm s a)")
    case None
    then show ?thesis using assms(7) gs by (simp add: resolve_right_def s2_def)
  next
    case (Some y)
    then have "(itm s a)\<lparr>Right := Some r\<rparr> = itm s a" using assms(7) by simp
    then have "s2 = s" by (simp add: s2_def upd_def)
    then show ?thesis using Some by (simp add: resolve_right_def)
  qed
  note u = upd_unstored[OF assms(1) q(2), where f = "\<lambda>i. i\<lparr>Right := Some r\<rparr>", folded s2_def]
  have i2: "itm s2 a = (itm s a)\<lparr>Right := Some r\<rparr>" "x \<in> stored s \<Longrightarrow> itm s2 x = itm s x" "types s2 = types s" "docs s2 = docs s" "length (heap s2) = length (heap s)" for x
    using q(1,2) by (auto simp: s2_def nth_update_if)
  have fr: "fresh_item s2 a p" using assms(3) u(2,5) i2(2) unfolding fresh_item_def by (simp add: ready_def i2 isize_def good_def)
  have l2: "listing s2 p = us @ zs @ r # ws" using u(3)[OF q(4)] assms(5) by simp
  obtain xs ys where z: "zs = xs @ ys" "find_left a p s2 = Inr (left_end (us @ xs))"
    by (rule find_left_stops[OF u(1) _ _ _ l2]) (use q u(2) i2 assms(6) in \<open>auto simp: right_end_def\<close>)
  obtain s' where s': "place a p (left_end (us @ xs)) s2 = Inr s'" "doc_ok s'" "nested_ok s'"
      "added s2 (iclient (itm s2 a)) p (units_of s2 (us @ xs)) (unit_ids (itm s2 a)) (units_of s2 (ys @ r # ws)) s'"
    by (rule place_adds[OF u(1) fr, where us = "us @ xs" and vs = "ys @ r # ws"]) (use assms(2,4) u(6) i2 l2 z(1) in \<open>auto simp: holdable_def\<close>)
  have e: "units_of s2 xs = units_of s xs" if "set xs \<subseteq> set (listing s p)" for xs
  proof -
    have "map (\<lambda>x. unit_ids (itm s2 x)) xs = map (\<lambda>x. unit_ids (itm s x)) xs" using that i2(2) listing_iff[OF assms(1) q(4)] by auto
    then show ?thesis unfolding units_of_def by (rule arg_cong)
  qed
  have "units_of s2 (us @ xs) = units_of s (us @ xs)" by (rule e) (use assms(5) z(1) in auto)
  moreover have "units_of s2 (ys @ r # ws) = units_of s (ys @ r # ws)" by (rule e) (use assms(5) z(1) in auto)
  moreover have "unit_ids (itm s2 a) = unit_ids (itm s a)" by (rule unit_ids_cong) (simp_all add: i2(1))
  ultimately have "sequence s' p = units_of s (us @ xs) @ unit_ids (itm s a) @ units_of s (ys @ r # ws)" using s'(4) by (simp only: added_def)
  moreover have "Parent (itm s2 a) = Some p" using q(3) i2(1) by simp
  ultimately show thesis using that[OF _ s'(2) z(1)] q(3) z(2) s'(1) rr by (simp add: integrate_def skip_prefix_def)
qed

subsection \<open>Properties\<close>

text \<open>
  The text abc, with three items that have arrived: the run cd of the same client, whose first unit is known, and a letter
  of each of two other clients after c.
\<close>

definition late_items :: "Item list" where
  "late_items = [plain_item 1 2 None None 0 (ContentString [0x63, 0x64] 2),
     (plain_item 3 0 (Some \<lparr>Client = 1, IdClock = 2\<rparr>) None 0 (ContentString [0x78] 1))\<lparr>Left := Some 0\<rparr>,
     (plain_item 2 0 (Some \<lparr>Client = 1, IdClock = 2\<rparr>) None 0 (ContentString [0x79] 1))\<lparr>Left := Some 0\<rparr>]"

definition late_doc :: St where
  "late_doc = abc_doc\<lparr>heap := heap abc_doc @ late_items\<rparr>"

lemma late_items_good:
  "good (plain_item 1 2 None None 0 (ContentString [0x63, 0x64] 2))" "good (plain_item c k l r p (ContentString [0x78] 1))"
  "good (plain_item c k l r p (ContentString [0x79] 1))"
  by (simp_all add: good_def plain_item_def utf16Len.simps valid_utf8.simps utf8_eval)

lemma late_parts [simp]:
  "heap late_doc = [plain_item 1 0 None None 0 (ContentString [0x61, 0x62, 0x63] 3), plain_item 1 2 None None 0 (ContentString [0x63, 0x64] 2),
     (plain_item 3 0 (Some \<lparr>Client = 1, IdClock = 2\<rparr>) None 0 (ContentString [0x78] 1))\<lparr>Left := Some 0\<rparr>,
     (plain_item 2 0 (Some \<lparr>Client = 1, IdClock = 2\<rparr>) None 0 (ContentString [0x79] 1))\<lparr>Left := Some 0\<rparr>]"
  "length (types late_doc) = 1" "t_item (ty late_doc 0) = None" "items_of late_doc c = (if c = 1 then [0] else [])" "pendingMoves late_doc = []"
  by (simp_all add: late_doc_def late_items_def) (simp_all add: abc_doc_def new_state_def new_type_def map_list_def)

lemma late_ok: "doc_ok late_doc" "stored late_doc = {0}" "listing late_doc 0 = [0]" "nested_ok late_doc" "orphan_ok late_doc"
  "NextClock late_doc c = (if c = 1 then 3 else 0)"
proof -
  note g = agree_ok[OF abc_ok(1) alloc_agree[OF abc_ok(1), of late_items], folded late_doc_def]
  show "doc_ok late_doc" "stored late_doc = {0}" using g(1,2) abc_ok(2) by simp_all
  have "dll abc_doc 0 [0]" by (simp add: dll_def plain_item_def)
  then show "listing late_doc 0 = [0]" using g(3)[of 0] dll_listing by simp
  have "nested_ok abc_doc" by (simp add: nested_ok_def abc_ok plain_item_def)
  then show "nested_ok late_doc" using g(6) by simp
  show "orphan_ok late_doc" by (simp add: orphan_but_def \<open>stored late_doc = {0}\<close> container_def plain_item_def)
  show "NextClock late_doc c = (if c = 1 then 3 else 0)" by (simp add: NextClock_def Let_def plain_item_def ilen_def)
qed

lemma late_ready: "ready late_doc 1 0 1" "holdable late_doc 1" "isize (itm late_doc 1) = 2" "iclient (itm late_doc 1) = 1"
proof -
  show "holdable late_doc 1" by (simp add: holdable_def plain_item_def)
  show sz: "isize (itm late_doc 1) = 2" by (simp add: isize_def plain_item_def)
  show cl: "iclient (itm late_doc 1) = 1" by (simp add: plain_item_def)
  have "Parent (itm late_doc l) = Some 0" if "holds late_doc \<lparr>Client = 1, IdClock = 2\<rparr> l" for l
    using that by (auto simp: holds_def plain_item_def split: if_splits)
  moreover have "istart (itm late_doc 1) = 2" "Parent (itm late_doc 1) = Some 0" "\<forall>t. ItemContent (itm late_doc 1) \<noteq> ContentType t" "good (itm late_doc 1)"
    using late_items_good(1) by (simp_all add: plain_item_def)
  ultimately show "ready late_doc 1 0 1" using sz cl late_ok(2,6) unfolding ready_def by simp
qed

text \<open>
  C2: integrating a ready item always returns.  The document stays well formed, the units of the item that were not known
  are added at one place of its parent, every other type is unchanged, and the clock of its client advances by their number.
\<close>

theorem integrate_inserts:
  assumes "doc_ok s" "nested_ok s" "ready s a p k" "holdable s a"
  shows "\<exists>s' us vs. integrate a k s = Inr s' \<and> doc_ok s' \<and> nested_ok s' \<and> sequence s p = us @ vs \<and> sequence s' p = us @ new_units (itm s a) k @ vs \<and>
    (\<forall>t < length (types s). t \<noteq> p \<longrightarrow> sequence s' t = sequence s t) \<and>
    (\<forall>c. unat (NextClock s' c) = unat (NextClock s c) + (if c = iclient (itm s a) then isize (itm s a) - k else 0))"
proof -
  obtain s' us vs where s': "integrate a k s = Inr s'" "doc_ok s'" "nested_ok s'" "added s (iclient (itm s a)) p us (new_units (itm s a) k) vs s'"
    by (rule integrate_adds[OF assms])
  have "length (new_units (itm s a) k) = isize (itm s a) - k" by (simp add: new_units_def)
  then show ?thesis using s' unfolding added_def by (intro exI[of _ s'] exI[of _ us] exI[of _ vs]) simp
qed

theorem integrate_inserts_witness:
  "\<exists>s' us vs. integrate 1 1 late_doc = Inr s' \<and> doc_ok s' \<and> sequence s' 0 = us @ [(1, 3)] @ vs \<and> NextClock s' 1 = 4"
proof -
  obtain s' us vs where s': "integrate 1 1 late_doc = Inr s'" "doc_ok s'" "sequence s' 0 = us @ new_units (itm late_doc 1) 1 @ vs"
      "\<forall>c. unat (NextClock s' c) = unat (NextClock late_doc c) + (if c = iclient (itm late_doc 1) then isize (itm late_doc 1) - 1 else 0)"
    using integrate_inserts[OF late_ok(1,4) late_ready(1,2)] by blast
  have "new_units (itm late_doc 1) 1 = [(1, 3)]" by (simp add: new_units_def isize_def plain_item_def upt_rec)
  moreover have "unat (NextClock s' 1) = unat (4 :: u64)" using s'(4) late_ready(3,4) late_ok(6) by simp
  ultimately show ?thesis using s' by (metis word_unat_eq_iff)
qed

text \<open>
  C5: nothing is left alive in a deleted container.  If no live item of the document is in a deleted item, then
  integration keeps it so: an item that arrives in a deleted parent is deleted.  A deferred move may split the item
  during its own integration, so the item must be a single unit or have no move waiting for its client.
\<close>

theorem integrate_no_orphans:
  assumes "doc_ok s" "nested_ok s" "ready s a p k" "holdable s a" "orphan_ok s" "integrate a k s = Inr s'"
    and "isize (itm s a) = Suc k \<or> map_list (pendingMoves s) (iclient (itm s a)) = []"
  shows "orphan_ok s'"
proof -
  have "isize (itm s a) \<le> Suc k \<or> map_list (pendingMoves s) (iclient (itm s a)) = []" using assms(7) by auto
  then show ?thesis using integrate_adds[OF assms(1-4)] assms(5,6) by (metis Inr_inject)
qed

text \<open>A deleted nested text, and a letter of another client that arrives in it.\<close>

definition gone_doc :: St where
  "gone_doc = new_state [(plain_item 1 0 None None 0 (ContentType (Some 1)))\<lparr>Deleted := True\<rparr>, plain_item 2 0 None None 1 (ContentString [0x78] 1)]
     [(new_type YArray)\<lparr>t_start := Some 0\<rparr>, (new_type YText)\<lparr>t_item := Some 0\<rparr>] [(1, [0])]"

lemma gone_parts [simp]:
  "heap gone_doc = [(plain_item 1 0 None None 0 (ContentType (Some 1)))\<lparr>Deleted := True\<rparr>, plain_item 2 0 None None 1 (ContentString [0x78] 1)]"
  "types gone_doc = [(new_type YArray)\<lparr>t_start := Some 0\<rparr>, (new_type YText)\<lparr>t_item := Some 0\<rparr>]"
  "distinct (map fst (clients gone_doc))" "items_of gone_doc c = (if c = 1 then [0] else [])"
  by (simp_all add: gone_doc_def new_state_def map_list_def)

lemma gone_ok: "doc_ok gone_doc" "nested_ok gone_doc" "orphan_ok gone_doc" "stored gone_doc = {0}" "container gone_doc 1 = Some 0"
proof -
  show st: "stored gone_doc = {0}" by (auto simp: stored_def split: if_splits)
  have s: "store_ok gone_doc" by (simp add: store_ok_def plain_item_def isize_def good_def)
  have d: "dll gone_doc 0 [0]" "dll gone_doc 1 []" by (simp_all add: dll_def plain_item_def new_type_def)
  note l = d[THEN dll_listing]
  have e: "{a \<in> stored gone_doc. Parent (itm gone_doc a) = Some 0} = {0}" "{a \<in> stored gone_doc. Parent (itm gone_doc a) = Some 1} = {}"
    unfolding st by (auto simp: plain_item_def)
  have "dll gone_doc t (listing gone_doc t) \<and> set (listing gone_doc t) = {a \<in> stored gone_doc. Parent (itm gone_doc a) = Some t}"
    if "t < length (types gone_doc)" for t
  proof -
    have "t = 0 \<or> t = 1" using that by (simp add: less_two)
    then show ?thesis using d by (elim disjE) (simp_all only: l e list.set simp_thms)
  qed
  moreover have "t < length (types gone_doc)" if "a \<in> stored gone_doc" "Parent (itm gone_doc a) = Some t" for a t
    using that by (auto simp: st plain_item_def)
  ultimately have "lists_ok gone_doc" unfolding lists_ok_def by blast
  moreover have "links_ok gone_doc" by (simp add: links_ok_def st plain_item_def)
  moreover have "counts_ok gone_doc" using l by (simp add: counts_ok_def less_two visible_len_def plain_item_def new_type_def)
  moreover have c: "container gone_doc 0 = None" by (simp add: container_def plain_item_def new_type_def)
  then have "container gone_doc x = None" if "x \<in> stored gone_doc" for x using that st by simp
  then have "up gone_doc = {}" by (auto simp: up_def)
  then have "nest_ok gone_doc" by (auto simp: nest_ok_def st plain_item_def less_two new_type_def acyclic_def)
  moreover have "entries_ok gone_doc" by (simp add: entries_ok_def less_two new_type_def)
  ultimately show "doc_ok gone_doc" using s by (simp add: doc_ok_def)
  show "nested_ok gone_doc" by (simp add: nested_ok_def st plain_item_def)
  show "orphan_ok gone_doc" using c by (simp add: orphan_but_def st)
  show "container gone_doc 1 = Some 0" by (simp add: container_def plain_item_def)
qed

lemma gone_ready: "ready gone_doc 1 1 0" "holdable gone_doc 1" "isize (itm gone_doc 1) = 1"
proof -
  show "holdable gone_doc 1" by (simp add: holdable_def plain_item_def)
  show sz: "isize (itm gone_doc 1) = 1" by (simp add: isize_def plain_item_def)
  have "NextClock gone_doc 2 = 0" by (simp add: NextClock_def Let_def)
  then show "ready gone_doc 1 1 0" using sz late_items_good(2)[of 2 0 None None 1] gone_ok(4) by (simp add: ready_def plain_item_def)
qed

theorem integrate_no_orphans_witness:
  "container gone_doc 1 = Some 0 \<and> Deleted (itm gone_doc 0) \<and> \<not> Deleted (itm gone_doc 1) \<and> (\<exists>s'. integrate 1 0 gone_doc = Inr s' \<and> orphan_ok s')"
proof -
  obtain s' where s': "integrate 1 0 gone_doc = Inr s'" by (rule integrate_adds[OF gone_ok(1,2) gone_ready(1,2)])
  have "orphan_ok s'" by (rule integrate_no_orphans[OF gone_ok(1,2) gone_ready(1,2) gone_ok(3) s']) (simp add: isize_def plain_item_def)
  then show ?thesis using s' gone_ok(5) by (simp add: plain_item_def)
qed

text \<open>
  C3: an item is placed between its origins: after its left neighbour and before the item at its right origin, with
  the items that were between them split in two by it and kept in order.
\<close>

theorem integrate_between_origins:
  assumes "doc_ok s" "nested_ok s" "ready s a p 0" "holdable s a" "listing s p = us @ zs @ r # ws" "Left (itm s a) = left_end us"
    and "Right (itm s a) = Some r \<or> Right (itm s a) = None \<and> OriginRight (itm s a) = Some (ItemID (itm s r))"
  shows "\<exists>s' xs ys. integrate a 0 s = Inr s' \<and> zs = xs @ ys \<and>
    sequence s' p = units_of s (us @ xs) @ unit_ids (itm s a) @ units_of s (ys @ r # ws)"
  using integrate_between_ok[OF assms] by metis

text \<open>The text abc as two items, with a letter of another client between them.\<close>

definition mid_doc :: St where
  "mid_doc = new_state [(plain_item 1 0 None None 0 (ContentString [0x61] 1))\<lparr>Right := Some 1\<rparr>,
     (plain_item 1 1 (Some \<lparr>Client = 1, IdClock = 0\<rparr>) None 0 (ContentString [0x62] 1))\<lparr>Left := Some 0\<rparr>,
     (plain_item 2 0 (Some \<lparr>Client = 1, IdClock = 0\<rparr>) (Some \<lparr>Client = 1, IdClock = 1\<rparr>) 0 (ContentString [0x78] 1))\<lparr>Left := Some 0\<rparr>]
     [(new_type YText)\<lparr>t_start := Some 0, t_length := 2\<rparr>] [(1, [0, 1])]"

lemma mid_parts [simp]:
  "heap mid_doc = [(plain_item 1 0 None None 0 (ContentString [0x61] 1))\<lparr>Right := Some 1\<rparr>,
     (plain_item 1 1 (Some \<lparr>Client = 1, IdClock = 0\<rparr>) None 0 (ContentString [0x62] 1))\<lparr>Left := Some 0\<rparr>,
     (plain_item 2 0 (Some \<lparr>Client = 1, IdClock = 0\<rparr>) (Some \<lparr>Client = 1, IdClock = 1\<rparr>) 0 (ContentString [0x78] 1))\<lparr>Left := Some 0\<rparr>]"
  "types mid_doc = [(new_type YText)\<lparr>t_start := Some 0, t_length := 2\<rparr>]" "items_of mid_doc c = (if c = 1 then [0, 1] else [])" "distinct (map fst (clients mid_doc))"
  by (simp_all add: mid_doc_def new_state_def map_list_def)

lemma mid_ok: "doc_ok mid_doc" "nested_ok mid_doc" "stored mid_doc = {0, 1}" "listing mid_doc 0 = [0, 1]"
proof -
  show st: "stored mid_doc = {0, 1}" by (auto simp: stored_def split: if_splits)
  have "utf16Len [0x61] = 1" "valid_utf8 [0x61]" "utf16Len [0x62] = 1" "valid_utf8 [0x62]" by (simp_all add: utf16Len.simps valid_utf8.simps utf8_eval)
  then have s: "store_ok mid_doc" by (simp add: store_ok_def plain_item_def isize_def good_def)
  have d: "dll mid_doc 0 [0, 1]" by (simp add: dll_def plain_item_def)
  show l: "listing mid_doc 0 = [0, 1]" by (rule dll_listing[OF d])
  have e: "{a \<in> stored mid_doc. Parent (itm mid_doc a) = Some 0} = {0, 1}" unfolding st by (auto simp: plain_item_def)
  have "lists_ok mid_doc" unfolding lists_ok_def using d e by (auto simp: l st plain_item_def)
  moreover have "links_ok mid_doc" by (simp add: links_ok_def st plain_item_def)
  moreover have "counts_ok mid_doc" using l by (simp add: counts_ok_def visible_len_def plain_item_def)
  moreover have "container mid_doc x = None" if "x \<in> stored mid_doc" for x using that by (auto simp: st container_def plain_item_def new_type_def)
  then have "up mid_doc = {}" by (auto simp: up_def)
  then have "nest_ok mid_doc" by (simp add: nest_ok_def st plain_item_def acyclic_def new_type_def)
  moreover have "entries_ok mid_doc" by (simp add: entries_ok_def new_type_def)
  ultimately show "doc_ok mid_doc" using s by (simp add: doc_ok_def)
  show "nested_ok mid_doc" by (simp add: nested_ok_def st plain_item_def)
qed

theorem integrate_between_origins_witness: "\<exists>s'. integrate 2 0 mid_doc = Inr s' \<and> sequence s' 0 = [(1, 0), (2, 0), (1, 1)]"
proof -
  have n: "NextClock mid_doc 2 = 0" by (simp add: NextClock_def Let_def)
  have "ready mid_doc 2 0 0" unfolding ready_def mid_ok(3) using late_items_good(2)[of 2 0] n
    by (simp add: plain_item_def isize_def good_def)
  moreover have "holdable mid_doc 2" by (simp add: holdable_def plain_item_def)
  moreover have "listing mid_doc 0 = [0] @ [] @ 1 # []" by (simp add: mid_ok(4))
  moreover have "Left (itm mid_doc 2) = left_end [0]" "Right (itm mid_doc 2) = None \<and> OriginRight (itm mid_doc 2) = Some (ItemID (itm mid_doc 1))"
    by (simp_all add: plain_item_def left_end_def)
  ultimately obtain s' xs ys where "integrate 2 0 mid_doc = Inr s'" "[] = xs @ ys"
      "sequence s' 0 = units_of mid_doc ([0] @ xs) @ unit_ids (itm mid_doc 2) @ units_of mid_doc (ys @ 1 # [])"
    using integrate_between_origins[OF mid_ok(1,2), of 2 0 "[0]" "[]" 1 "[]"] by blast
  then show ?thesis by (simp add: units_of_def unit_ids_def isize_def plain_item_def)
qed

end
