(* ===== verification/Convergence.thy ===== *)
theory Convergence
  imports Integrate_Total "HOL-Library.Multiset"
begin

text \<open>
  Convergence of concurrent insertions: items that several clients insert at the same place end up ordered by client,
  whatever the order in which they are integrated.
\<close>

subsection \<open>Plain items\<close>

text \<open>Contents without effect outside the list, such as text, values and deleted runs.\<close>

definition plain :: "content \<Rightarrow> bool" where
  "plain c \<longleftrightarrow> (\<forall>t. c \<noteq> ContentType t) \<and> (\<forall>d. c \<noteq> ContentDoc d) \<and> (\<forall>i n. c \<noteq> ContentMove i n)"

text \<open>A type that is not inside a deleted item.\<close>

definition live_type :: "St \<Rightarrow> taddr \<Rightarrow> bool" where
  "live_type s p \<longleftrightarrow> p < length (types s) \<and> (\<forall>b. t_item (ty s p) = Some b \<longrightarrow> \<not> Deleted (itm s b))"

lemma place_plain:
  assumes "doc_ok s" "fresh_item s a p" "listing s p = us @ vs" "plain (ItemContent (itm s a))" "ParentSub (itm s a) = None"
    and "live_type s p" "map_list (pendingMoves s) (iclient (itm s a)) = []"
  obtains s1 s' where "inserted s a p us vs s1" "place a p (left_end us) s = Inr s'" "inert s1 s'" "pendingMoves s' = pendingMoves s"
proof -
  have f: "a < length (heap s)" "a \<notin> stored s" "p < length (types s)" using assms(2) by (simp_all add: fresh_item_def)
  define s1 where "s1 = Append a (count_in a p (link a p (left_end us) s))"
  have ins: "inserted s a p us vs s1" unfolding s1_def by (rule placed[OF assms(1) f(3,1,2) assms(3)])
  note i = inserted_item[OF ins f(1)] and r = placed_rest[of a p "left_end us" s, folded s1_def]
  have pl: "plain (ItemContent (itm s1 a))" "ParentSub (itm s1 a) = None" "iclient (itm s1 a) = iclient (itm s a)" using assms(4,5) i by simp_all
  define s2 where "s2 = (case ItemContent (itm s1 a) of ContentString _ _ \<Rightarrow> s1\<lparr>newItems := newItems s1 @ [a]\<rparr>
   | ContentFormat _ _ \<Rightarrow> updt p (\<lambda>y. y\<lparr>hasFormatting := True, fmtGen := fmtGen y + 1, cleanFormatting := True\<rparr>) s1 | _ \<Rightarrow> s1)"
  have i2: "inert s1 s2" unfolding s2_def by (auto intro!: inert_updt inert_fields split: content.splits)
  have h2: "heap s2 = heap s1" "t_item (ty s2 t) = t_item (ty s1 t)" "pendingMoves s2 = pendingMoves s1" for t
    unfolding s2_def by (simp_all add: nth_update_if split: content.splits)
  have "t_item (ty s1 p) = t_item (ty s p)" using ins f(3) by (simp add: inserted_def)
  moreover have "Deleted (itm s1 b) = Deleted (itm s b)" if "t_item (ty s p) = Some b" for b
    using inserted_item(5)[OF ins stored_bound[OF assms(1)]] t_item_stored[OF assms(1) f(3) that] by blast
  ultimately have lv: "delete_in_deleted a p s2 = Inr s2" using assms(6) h2 by (auto simp: delete_in_deleted_def live_type_def split: option.splits)
  have n: "note_content a p s1 = Inr s2" using pl(1) by (auto simp: note_content_def s2_def plain_def split: content.splits)
  have "place a p (left_end us) s = Inr (addChanged p (parentSubKey (ParentSub (itm s2 a))) s2)"
  proof -
    have "register_subdoc a s1 = Inr s1" "arbitrate_move a s1 = Inr s1"
      using pl(1) by (auto simp: register_subdoc_def arbitrate_move_def plain_def split: content.splits option.splits)
    moreover have "resolvePendingMoves (iclient (itm s1 a)) s1 = Inr s1" using assms(7) pl(3) r by (simp add: resolvePendingMoves_def)
    moreover have "last_write_wins a p s2 = Inr s2" using pl(2) h2(1) by (simp add: last_write_wins_def)
    ultimately show ?thesis using n lv by (simp add: place_def s1_def[symmetric])
  qed
  then show thesis using that[OF ins] inert_trans[OF i2 inert_addChanged] h2(3) r by (simp add: addChanged_def)
qed

subsection \<open>Items at the same place\<close>

text \<open>Items between the same neighbours that come from the same origins, of a given item.\<close>

definition rival :: "Item \<Rightarrow> Item \<Rightarrow> bool" where
  "rival it j \<longleftrightarrow> ParentSub j = ParentSub it \<and> Origin j = Origin it \<and> OriginRight j = OriginRight it"

lemma scan_rivals:
  assumes "seg (heap s) prev o' zs (Right it) lst" "length zs < n" "\<forall>z \<in> set zs. rival it (itm s z)"
    and "iclient it \<notin> (\<lambda>z. iclient (itm s z)) ` set zs" "Right it \<notin> Some ` set zs"
  shows "scan s it n o' left conf before =
    Inr (let xs = takeWhile (\<lambda>z. iclient (itm s z) < iclient it) zs in if xs = [] then left else left_end xs)"
  using assms
proof (induction zs arbitrary: prev o' n left conf before)
  case Nil
  then obtain m where "n = Suc m" by (cases n) auto
  then show ?case using Nil by (cases "Right it") auto
next
  case (Cons z zs)
  then obtain m where n: "n = Suc m" "length zs < m" by (cases n) auto
  have sg: "seg (heap s) (Some z) (Right (itm s z)) zs (Right it) lst" and o': "o' = Some z" and r: "rival it (itm s z)" "Right it \<noteq> Some z"
    using Cons.prems by auto
  show ?case
  proof (cases "iclient (itm s z) < iclient it")
    case True
    have "scan s it n o' left conf before = scan s it m (Right (itm s z)) (Some z) {} (insert z before)"
      using True r unfolding n(1) o' by (simp add: rival_def Let_def)
    also have "\<dots> = Inr (let xs = takeWhile (\<lambda>z. iclient (itm s z) < iclient it) zs in if xs = [] then Some z else left_end xs)"
      by (rule Cons.IH[OF sg n(2)]) (use Cons.prems in auto)
    finally show ?thesis using True by (simp add: Let_def left_end_def)
  next
    case False
    then show ?thesis using r unfolding n(1) o' by (simp add: rival_def Let_def)
  qed
qed

text \<open>An item takes its place among its rivals by client.\<close>

lemma find_left_rivals:
  assumes "doc_ok s" "p < length (types s)" "a < length (heap s)" "a \<notin> stored s" "listing s p = us @ zs @ vs"
    and "Left (itm s a) = left_end us" "Right (itm s a) = right_end vs" "ParentSub (itm s a) = None"
    and "\<forall>z \<in> set zs. rival (itm s a) (itm s z)" "iclient (itm s a) \<notin> (\<lambda>z. iclient (itm s z)) ` set zs"
  shows "find_left a p s = Inr (left_end (us @ takeWhile (\<lambda>z. iclient (itm s z) < iclient (itm s a)) zs))"
proof -
  let ?xs = "takeWhile (\<lambda>z. iclient (itm s z) < iclient (itm s a)) zs"
  have d: "dll s p (us @ zs @ vs)" using listing_dll[OF assms(1,2)] assms(5) by simp
  obtain lst where t: "seg (heap s) (left_end us) (right_end (zs @ vs)) (zs @ vs) None lst" "next_of s p (left_end us) = right_end (zs @ vs)"
    by (rule dll_parts[OF d])
  then obtain q m where z: "seg (heap s) (left_end us) (right_end (zs @ vs)) zs q m" "seg (heap s) m q vs None lst" by (auto simp: seg_append)
  have q: "q = Right (itm s a)" using seg_ends[OF z(2)] assms(7) by (auto simp: right_end_def)
  have "set (a # zs) \<subseteq> {..<length (heap s)}" "distinct (a # zs)" "Right (itm s a) \<notin> Some ` set zs"
    using dll_bounds[OF d] dll_distinct[OF d] assms(3,4,7) listing_iff[OF assms(1,2), of a] assms(5) by (auto simp: right_end_def)
  then have n: "length zs < length (heap s)" "Right (itm s a) \<notin> Some ` set zs"
    by (metis card_lessThan card_mono distinct_card finite_lessThan length_Cons Suc_le_lessD, simp)
  have sc: "scan s (itm s a) (length (heap s)) (right_end (zs @ vs)) (left_end us) {} {} = Inr (if ?xs = [] then left_end us else left_end ?xs)"
    using scan_rivals[OF z(1)[unfolded q] n(1) assms(9,10) n(2)] by (simp add: Let_def)
  have e: "(if ?xs = [] then left_end us else left_end ?xs) = left_end (us @ ?xs)" by (simp add: left_end_def)
  show ?thesis
  proof (cases "zs = []")
    case True
    then show ?thesis using t(2) assms(6-8) by (auto simp: find_left_def Let_def next_of_def split: option.splits)
  next
    case False
    then have "right_end (zs @ vs) = Some (hd zs)" "hd zs \<in> set zs" by (simp_all add: right_end_def)
    then have "right_end (zs @ vs) \<noteq> None" "right_end (zs @ vs) \<noteq> Right (itm s a)" using n(2) by (simp, metis imageI)
    moreover have "(case left_end us of None \<Rightarrow> t_start (ty s p) | Some l \<Rightarrow> Right (itm s l)) = right_end (zs @ vs)" using t(2) by (simp add: next_of_def)
    ultimately show ?thesis using sc e assms(6,8) by (simp add: find_left_def Let_def)
  qed
qed

subsection \<open>Any order of integration\<close>

text \<open>An item of a client that waits to be inserted between two parts of a list.\<close>

definition waiting :: "St \<Rightarrow> taddr \<Rightarrow> iaddr list \<Rightarrow> iaddr list \<Rightarrow> iaddr \<Rightarrow> bool" where
  "waiting s p us vs b \<longleftrightarrow> b < length (heap s) \<and> b \<notin> stored s \<and> Parent (itm s b) = Some p \<and> good (itm s b) \<and> plain (ItemContent (itm s b)) \<and>
     istart (itm s b) = unat (NextClock s (iclient (itm s b))) \<and> istop (itm s b) < 2 ^ 64 \<and> ParentSub (itm s b) = None \<and>
     Left (itm s b) = left_end us \<and> Right (itm s b) = right_end vs \<and> (vs = [] \<longrightarrow> OriginRight (itm s b) = None) \<and>
     map_list (pendingMoves s) (iclient (itm s b)) = []"

abbreviation client_of :: "St \<Rightarrow> iaddr \<Rightarrow> ClientID" where
  "client_of s x \<equiv> iclient (itm s x)"

lemma insort_takeWhile: "insort_key f b zs = takeWhile (\<lambda>z. f z < f b) zs @ b # dropWhile (\<lambda>z. f z < f b) zs"
  by (induction zs) (auto simp: not_le)

lemma integrate_rival:
  assumes "doc_ok s" "live_type s p" "listing s p = us @ zs @ vs" "waiting s p us vs b" "\<forall>z \<in> set zs. rival (itm s b) (itm s z)"
    and "client_of s b \<notin> client_of s ` set zs"
  obtains s1 s' where "integrate b 0 s = Inr s'" "inert s1 s'" "pendingMoves s' = pendingMoves s" "fresh_item s b p"
    "inserted s b p (us @ takeWhile (\<lambda>z. client_of s z < client_of s b) zs) (dropWhile (\<lambda>z. client_of s z < client_of s b) zs @ vs) s1"
proof -
  let ?xs = "takeWhile (\<lambda>z. client_of s z < client_of s b) zs" and ?ys = "dropWhile (\<lambda>z. client_of s z < client_of s b) zs"
  have w: "b < length (heap s)" "b \<notin> stored s" "Parent (itm s b) = Some p" "plain (ItemContent (itm s b))" "ParentSub (itm s b) = None" "Left (itm s b) = left_end us"
    "Right (itm s b) = right_end vs" "vs = [] \<longrightarrow> OriginRight (itm s b) = None" "map_list (pendingMoves s) (client_of s b) = []" "p < length (types s)"
    using assms(2,4) by (simp_all add: waiting_def live_type_def)
  have fr: "fresh_item s b p" using assms(4) w(4,10) by (auto simp: fresh_item_def waiting_def plain_def)
  have fl: "find_left b p s = Inr (left_end (us @ ?xs))" by (rule find_left_rivals[OF assms(1) w(10,1,2) assms(3) w(6,7,5) assms(5,6)])
  have l: "listing s p = (us @ ?xs) @ (?ys @ vs)" using assms(3) by simp
  obtain s1 s' where s': "inserted s b p (us @ ?xs) (?ys @ vs) s1" "place b p (left_end (us @ ?xs)) s = Inr s'" "inert s1 s'" "pendingMoves s' = pendingMoves s"
    by (rule place_plain[OF assms(1) fr l w(4,5) assms(2) w(9)])
  have "resolve_right b s = Inr s" using w(7,8) by (auto simp: resolve_right_def right_end_def split: option.splits)
  then have "integrate b 0 s = Inr s'" using w(3) fl s'(2) by (simp add: integrate_def skip_prefix_def)
  then show thesis using that s' fr by blast
qed

text \<open>What one step leaves of the items that still wait and of those already there.\<close>

definition same_item :: "Item \<Rightarrow> Item \<Rightarrow> bool" where
  "same_item i j \<longleftrightarrow> ItemID j = ItemID i \<and> ItemContent j = ItemContent i \<and> Origin j = Origin i \<and> OriginRight j = OriginRight i \<and> ParentSub j = ParentSub i"

lemma same_item_trans: "same_item i j \<Longrightarrow> same_item j k \<Longrightarrow> same_item i k"
  by (simp add: same_item_def)

lemma ends_mem: "left_end xs = Some x \<Longrightarrow> x \<in> set xs" "right_end xs = Some x \<Longrightarrow> x \<in> set xs"
  by (auto simp: left_end_def right_end_def split: if_splits)

lemma rival_step:
  assumes "doc_ok s" "live_type s p" "listing s p = us @ zs @ vs" "waiting s p us vs b" "\<forall>z \<in> set zs. rival (itm s b) (itm s z)"
    and "client_of s b \<notin> client_of s ` set zs"
  obtains s' where "integrate b 0 s = Inr s'" "doc_ok s'" "live_type s' p" "listing s' p = us @ insort_key (client_of s) b zs @ vs" "length (heap s') = length (heap s)" "length (types s') = length (types s)"
    "\<And>x. x < length (heap s) \<Longrightarrow> same_item (itm s x) (itm s' x)" "\<And>x. waiting s p us vs x \<Longrightarrow> client_of s x \<noteq> client_of s b \<Longrightarrow> waiting s' p us vs x"
    "\<And>t. t < length (types s) \<Longrightarrow> t \<noteq> p \<Longrightarrow> sequence s' t = sequence s t"
proof -
  let ?xs = "us @ takeWhile (\<lambda>z. client_of s z < client_of s b) zs" and ?ys = "dropWhile (\<lambda>z. client_of s z < client_of s b) zs @ vs"
  obtain s1 s' where s': "integrate b 0 s = Inr s'" "inert s1 s'" "pendingMoves s' = pendingMoves s" "fresh_item s b p" "inserted s b p ?xs ?ys s1"
    by (rule integrate_rival[OF assms])
  have l: "listing s p = ?xs @ ?ys" using assms(3) by simp
  have b: "b < length (heap s)" "p < length (types s)" using s'(4) by (simp_all add: fresh_item_def)
  note d1 = inserted_doc_ok[OF assms(1) s'(4,5) l] and al = inert_alike[OF s'(2)] and i = inserted_item[OF s'(5)]
  have n: "length (heap s1) = length (heap s)" "length (types s1) = length (types s)" "t_item (ty s1 p) = t_item (ty s p)" using s'(5) b(2) by (simp_all add: inserted_def)
  have n': "length (heap s') = length (heap s1)" "length (types s') = length (types s1)" "t_item (ty s' p) = t_item (ty s1 p)"
    using al b(2) n by (simp_all add: alike_def)
  have it: "same_links (itm s1 x) (itm s' x)" "Deleted (itm s' x) = Deleted (itm s1 x)" if "x < length (heap s)" for x
    using alike_item[OF al, of x] s'(2) that n by (simp_all add: inert_def)
  have same: "same_item (itm s x) (itm s' x)" "Deleted (itm s' x) = Deleted (itm s x)" if "x < length (heap s)" for x
    using it[OF that] i[OF that] by (simp_all add: same_item_def same_links_def)
  have lv: "live_type s' p"
    using assms(2) n n' same(2)[OF stored_bound[OF assms(1)]] t_item_stored[OF assms(1) b(2)] by (auto simp: live_type_def)
  have li: "listing s' p = us @ insort_key (client_of s) b zs @ vs"
    using alike_listing(2)[OF d1(1) al] inserted_dll(2)[OF assms(1) s'(4,5) l b(2)] b(2) n by (simp add: insort_takeWhile)
  have st: "stored s' = insert b (stored s)" using alike_stored[OF al] inserted_store(2)[OF assms(1) s'(4,5)] by simp
  have "waiting s' p us vs x" if x: "waiting s p us vs x" "client_of s x \<noteq> client_of s b" for x
  proof -
    have xb: "x < length (heap s)" "x \<notin> stored s" "x \<noteq> b" using x by (auto simp: waiting_def)
    then have "x \<notin> set (listing s p)" using listing_iff[OF assms(1) b(2)] by blast
    moreover have "set (listing s p) = set ?xs \<union> set ?ys" unfolding l by (rule set_append)
    ultimately have "left_end ?xs \<noteq> Some x" "right_end ?ys \<noteq> Some x" using ends_mem(1)[of ?xs x] ends_mem(2)[of ?ys x] by blast+
    then have "itm s1 x = itm s x" using s'(5) xb by (simp add: inserted_def)
    then have sl: "same_links (itm s x) (itm s' x)" using it(1)[OF xb(1)] by simp
    have "NextClock s' (client_of s x) = NextClock s (client_of s x)" using alike_NextClock[OF d1(1) al] d1(4)[of "client_of s x"] x(2) by (simp add: word_unat_eq_iff)
    then show ?thesis using x(1) sl xb st n n' s'(3) by (simp add: waiting_def same_links_def isize_def good_def)
  qed
  moreover have "sequence s' t = sequence s t" if "t < length (types s)" "t \<noteq> p" for t
    using alike_listing(3)[OF d1(1) al] d1(3)[OF that] that n by simp
  ultimately show thesis using that[OF s'(1) inert_doc_ok[OF d1(1) s'(2)] lv li] same(1) n n' by simp
qed

fun integrate_all :: "iaddr list \<Rightarrow> St \<Rightarrow> fault + St" where
  "integrate_all [] s = Inr s"
| "integrate_all (b # bs) s = ebind (integrate b 0 s) (integrate_all bs)"

text \<open>Items of different clients with the same origins that wait at the same place.\<close>

definition rivals :: "St \<Rightarrow> taddr \<Rightarrow> iaddr list \<Rightarrow> iaddr list \<Rightarrow> iaddr set \<Rightarrow> bool" where
  "rivals s p us vs B \<longleftrightarrow> inj_on (client_of s) B \<and> (\<forall>b \<in> B. waiting s p us vs b \<and> (\<forall>c \<in> B. rival (itm s b) (itm s c)))"

lemma insort_key_cong: "(\<And>x. x \<in> insert b (set zs) \<Longrightarrow> f x = g x) \<Longrightarrow> insort_key f b zs = insort_key g b zs"
  by (induction zs) auto

lemma fold_insort_cong: "(\<And>x. x \<in> set bs \<union> set zs \<Longrightarrow> f x = g x) \<Longrightarrow> fold (insort_key f) bs zs = fold (insort_key g) bs zs"
proof (induction bs arbitrary: zs)
  case (Cons b bs)
  have "insort_key f b zs = insort_key g b zs" by (rule insort_key_cong) (use Cons.prems in auto)
  then show ?case using Cons.IH[of "insort_key g b zs"] Cons.prems by (auto simp: set_insort_key)
qed simp

lemma integrate_all_sorts:
  assumes "doc_ok s" "live_type s p" "listing s p = us @ zs @ vs" "distinct bs" "set zs \<inter> set bs = {}" "set zs \<subseteq> {..<length (heap s)}"
    and "inj_on (client_of s) (set zs \<union> set bs)" "\<forall>b \<in> set bs. waiting s p us vs b \<and> (\<forall>c \<in> set zs \<union> set bs. rival (itm s b) (itm s c))"
  shows "\<exists>s'. integrate_all bs s = Inr s' \<and> doc_ok s' \<and> listing s' p = us @ fold (insort_key (client_of s)) bs zs @ vs \<and>
    (\<forall>x < length (heap s). same_item (itm s x) (itm s' x)) \<and> (\<forall>t < length (types s). t \<noteq> p \<longrightarrow> sequence s' t = sequence s t)"
  using assms
proof (induction bs arbitrary: s zs)
  case Nil
  then show ?case by (auto simp: same_item_def)
next
  case (Cons b bs)
  note w = Cons.prems(8)
  have "client_of s b \<notin> client_of s ` set zs" using Cons.prems(5,7) by (auto simp: inj_on_def)
  then obtain s1 where 1: "integrate b 0 s = Inr s1" "doc_ok s1" "live_type s1 p" "listing s1 p = us @ insort_key (client_of s) b zs @ vs" "length (heap s1) = length (heap s)"
      "length (types s1) = length (types s)" "\<And>x. x < length (heap s) \<Longrightarrow> same_item (itm s x) (itm s1 x)"
      "\<And>x. waiting s p us vs x \<Longrightarrow> client_of s x \<noteq> client_of s b \<Longrightarrow> waiting s1 p us vs x" "\<And>t. t < length (types s) \<Longrightarrow> t \<noteq> p \<Longrightarrow> sequence s1 t = sequence s t"
    using rival_step[OF Cons.prems(1-3), of b] w by (metis UnCI list.set_intros(1))
  have lt: "x < length (heap s)" if "x \<in> set zs \<union> set (b # bs)" for x using that Cons.prems(6) w by (auto simp: waiting_def)
  have c: "client_of s1 x = client_of s x" "rival (itm s1 x) (itm s1 y) = rival (itm s x) (itm s y)" if "x \<in> set zs \<union> set (b # bs)" "y \<in> set zs \<union> set (b # bs)" for x y
    using 1(7)[OF lt[OF that(1)]] 1(7)[OF lt[OF that(2)]] by (simp_all add: same_item_def rival_def)
  have ne: "client_of s x \<noteq> client_of s b" if "x \<in> set bs" for x using that Cons.prems(4,7) by (auto simp: inj_on_def)
  have "\<exists>s'. integrate_all bs s1 = Inr s' \<and> doc_ok s' \<and> listing s' p = us @ fold (insort_key (client_of s1)) bs (insort_key (client_of s) b zs) @ vs \<and>
      (\<forall>x < length (heap s1). same_item (itm s1 x) (itm s' x)) \<and> (\<forall>t < length (types s1). t \<noteq> p \<longrightarrow> sequence s' t = sequence s1 t)"
  proof (rule Cons.IH[OF 1(2-4)])
    show "inj_on (client_of s1) (set (insort_key (client_of s) b zs) \<union> set bs)" using Cons.prems(7) c(1) by (auto simp: inj_on_def set_insort_key)
    show "\<forall>x \<in> set bs. waiting s1 p us vs x \<and> (\<forall>y \<in> set (insort_key (client_of s) b zs) \<union> set bs. rival (itm s1 x) (itm s1 y))"
      using w 1(8) ne c(2) by (auto simp: set_insort_key)
  qed (use Cons.prems lt 1(5) in \<open>auto simp: set_insort_key\<close>)
  then obtain s' where s': "integrate_all bs s1 = Inr s'" "doc_ok s'" "listing s' p = us @ fold (insort_key (client_of s1)) bs (insort_key (client_of s) b zs) @ vs"
    "\<forall>x < length (heap s1). same_item (itm s1 x) (itm s' x)" "\<forall>t < length (types s1). t \<noteq> p \<longrightarrow> sequence s' t = sequence s1 t" by blast
  have e: "fold (insort_key (client_of s1)) bs (insort_key (client_of s) b zs) = fold (insort_key (client_of s)) bs (insort_key (client_of s) b zs)"
    by (rule fold_insort_cong) (use c(1) in \<open>auto simp: set_insort_key\<close>)
  have "integrate_all (b # bs) s = Inr s'" by (simp add: 1(1) s'(1))
  moreover have "listing s' p = us @ fold (insort_key (client_of s)) (b # bs) zs @ vs" using s'(3) e by simp
  moreover have "same_item (itm s x) (itm s' x)" if "x < length (heap s)" for x using same_item_trans[OF 1(7)[OF that]] s'(4) that 1(5) by simp
  moreover have "sequence s' t = sequence s t" if "t < length (types s)" "t \<noteq> p" for t using 1(9)[OF that] s'(5) that 1(6) by simp
  ultimately show ?case using s'(2) by blast
qed

subsection \<open>Properties\<close>

lemma sort_key_order: "mset cs = mset bs \<Longrightarrow> inj_on f (set bs) \<Longrightarrow> sort_key f cs = sort_key f bs"
  using sort_key_inj_key_eq[of cs "sort_key f bs" f] by (metis mset_sort set_mset_mset sorted_sort_key)

lemma rivals_sorted:
  assumes "doc_ok s" "live_type s p" "listing s p = us @ vs" "rivals s p us vs (set bs)" "distinct bs"
  shows "\<exists>s'. integrate_all bs s = Inr s' \<and> doc_ok s' \<and> sequence s' p = units_of s us @ units_of s (sort_key (client_of s) bs) @ units_of s vs \<and>
    (\<forall>t < length (types s). t \<noteq> p \<longrightarrow> sequence s' t = sequence s t)"
proof -
  have r: "inj_on (client_of s) (set bs)" "\<forall>b \<in> set bs. waiting s p us vs b \<and> (\<forall>c \<in> set bs. rival (itm s b) (itm s c))" using assms(4) by (auto simp: rivals_def)
  obtain s' where s': "integrate_all bs s = Inr s'" "doc_ok s'" "listing s' p = us @ sort_key (client_of s) bs @ vs"
      "\<forall>x < length (heap s). same_item (itm s x) (itm s' x)" "\<forall>t < length (types s). t \<noteq> p \<longrightarrow> sequence s' t = sequence s t"
    using integrate_all_sorts[OF assms(1,2), of us "[]" vs bs] assms(3,5) r sort_key_conv_fold[OF r(1)] by auto
  have p: "p < length (types s)" using assms(2) by (simp add: live_type_def)
  have "units_of s' xs = units_of s xs" if "set xs \<subseteq> {..<length (heap s)}" for xs
  proof -
    have "map (\<lambda>x. unit_ids (itm s' x)) xs = map (\<lambda>x. unit_ids (itm s x)) xs" using that s'(4) by (auto simp: same_item_def intro!: unit_ids_cong)
    then show ?thesis unfolding units_of_def by (rule arg_cong)
  qed
  moreover have "set us \<union> set vs \<subseteq> {..<length (heap s)}" using dll_bounds[OF listing_dll[OF assms(1) p]] assms(3) by auto
  moreover have "set bs \<subseteq> {..<length (heap s)}" using r(2) by (auto simp: waiting_def)
  ultimately have "sequence s' p = units_of s us @ units_of s (sort_key (client_of s) bs) @ units_of s vs" by (simp add: sequence_units s'(3))
  then show ?thesis using s' by blast
qed

text \<open>
  C1: concurrent insertions converge.  When clients insert plain items at the same place, with the same origins, then
  every order of integrating them succeeds and gives the same sequence: the units in between are ordered by client, and
  no other type changes.
\<close>

theorem concurrent_inserts_converge:
  assumes "doc_ok s" "live_type s p" "listing s p = us @ vs" "rivals s p us vs (set bs)" "distinct bs" "mset cs = mset bs"
  shows "\<exists>s1 s2. integrate_all bs s = Inr s1 \<and> integrate_all cs s = Inr s2 \<and> doc_ok s1 \<and> doc_ok s2 \<and>
    sequence s1 p = units_of s us @ units_of s (sort_key (client_of s) bs) @ units_of s vs \<and> (\<forall>t < length (types s). sequence s1 t = sequence s2 t)"
proof -
  have cs: "set cs = set bs" "distinct cs" using assms(5,6) by (metis set_mset_mset, metis mset_eq_imp_distinct_iff)
  have k: "sort_key (client_of s) cs = sort_key (client_of s) bs" by (rule sort_key_order[OF assms(6)]) (use assms(4) in \<open>simp add: rivals_def\<close>)
  obtain s1 where s1: "integrate_all bs s = Inr s1" "doc_ok s1" "sequence s1 p = units_of s us @ units_of s (sort_key (client_of s) bs) @ units_of s vs"
      "\<forall>t < length (types s). t \<noteq> p \<longrightarrow> sequence s1 t = sequence s t"
    using rivals_sorted[OF assms(1-5)] by blast
  obtain s2 where s2: "integrate_all cs s = Inr s2" "doc_ok s2" "sequence s2 p = units_of s us @ units_of s (sort_key (client_of s) cs) @ units_of s vs"
      "\<forall>t < length (types s). t \<noteq> p \<longrightarrow> sequence s2 t = sequence s t"
    using rivals_sorted[OF assms(1-3) _ cs(2)] assms(4) cs(1) by auto
  have "sequence s1 t = sequence s2 t" if "t < length (types s)" for t using s1(3,4) s2(3,4) k that by (cases "t = p") auto
  then show ?thesis using s1 s2 by blast
qed

theorem concurrent_inserts_converge_witness:
  "\<exists>s1 s2. integrate_all [2, 3] late_doc = Inr s1 \<and> integrate_all [3, 2] late_doc = Inr s2 \<and>
    sequence s1 0 = [(1, 0), (1, 1), (1, 2), (2, 0), (3, 0)] \<and> sequence s2 0 = sequence s1 0"
proof -
  have i: "itm late_doc 2 = (plain_item 3 0 (Some \<lparr>Client = 1, IdClock = 2\<rparr>) None 0 (ContentString [0x78] 1))\<lparr>Left := Some 0\<rparr>"
    "itm late_doc 3 = (plain_item 2 0 (Some \<lparr>Client = 1, IdClock = 2\<rparr>) None 0 (ContentString [0x79] 1))\<lparr>Left := Some 0\<rparr>" by simp_all
  have g: "good (itm late_doc 2)" "good (itm late_doc 3)" unfolding i using late_items_good(2,3) by (simp_all add: good_def)
  have "waiting late_doc 0 [0] [] 2" "waiting late_doc 0 [0] [] 3"
    unfolding waiting_def late_ok(2,6) using g unfolding i by (simp_all add: plain_item_def plain_def isize_def left_end_def right_end_def map_list_def)
  moreover have "rival (itm late_doc 2) (itm late_doc 3)" "rival (itm late_doc 3) (itm late_doc 2)" unfolding i by (simp_all add: rival_def plain_item_def)
  moreover have c: "client_of late_doc 2 = 3" "client_of late_doc 3 = 2" unfolding i by (simp_all add: plain_item_def)
  ultimately have r: "rivals late_doc 0 [0] [] (set [2, 3])" by (auto simp: rivals_def rival_def)
  have l: "live_type late_doc 0" "listing late_doc 0 = [0] @ []" "distinct [2, 3 :: nat]" "mset [3, 2 :: nat] = mset [2, 3]" by (simp_all add: live_type_def late_ok(3))
  have e: "units_of late_doc [0] = [(1, 0), (1, 1), (1, 2)]" "units_of late_doc [3, 2] = [(2, 0), (3, 0)]" "units_of late_doc [] = []"
    by (simp_all add: units_of_def unit_ids_def isize_def plain_item_def upt_rec)
  have k: "sort_key (client_of late_doc) [2, 3] = [3, 2]" using c by (simp del: late_parts)
  show ?thesis using concurrent_inserts_converge[OF late_ok(1) l(1,2) r l(3,4)] unfolding e k by fastforce
qed

end
