(* ===== verification/Map_Entries.thy ===== *)
theory Map_Entries
  imports Integrate_Facts
begin

text \<open>
  The entries of maps.  The entry of a key is the rightmost item of the key, and all others are deleted; integrating an
  item with a key keeps it so, and the scan for a later item may be skipped where the code skips it.
\<close>

subsection \<open>The last item of a key\<close>

definition keyed :: "St \<Rightarrow> gostring \<Rightarrow> iaddr \<Rightarrow> bool" where
  "keyed s key x \<longleftrightarrow> ParentSub (itm s x) = Some key"

definition key_last :: "St \<Rightarrow> gostring \<Rightarrow> iaddr list \<Rightarrow> iaddr option" where
  "key_last s key xs = (case rev (filter (keyed s key) xs) of [] \<Rightarrow> None | y # _ \<Rightarrow> Some y)"

lemma key_last_append [simp]: "key_last s key (xs @ ys) = (case key_last s key ys of None \<Rightarrow> key_last s key xs | Some y \<Rightarrow> Some y)"
  by (auto simp: key_last_def split: list.splits)

lemma key_last_simps [simp]: "key_last s key [] = None" "key_last s key [x] = (if keyed s key x then Some x else None)"
  by (simp_all add: key_last_def)

lemma key_last_None: "key_last s key xs = None \<longleftrightarrow> (\<forall>x \<in> set xs. \<not> keyed s key x)"
  by (simp add: key_last_def filter_empty_conv[symmetric] split: list.splits)

lemma key_last_Some: "key_last s key xs = Some y \<Longrightarrow> y \<in> set xs \<and> keyed s key y"
proof -
  assume "key_last s key xs = Some y"
  then obtain ys where "filter (keyed s key) xs = ys @ [y]" by (auto simp: key_last_def split: list.splits)
  then have "y \<in> set (filter (keyed s key) xs)" by simp
  then show ?thesis by simp
qed

text \<open>The entry of a key among given items: the last one, and the only one that may be alive.\<close>

definition entry_ok :: "St \<Rightarrow> taddr \<Rightarrow> gostring \<Rightarrow> iaddr list \<Rightarrow> bool" where
  "entry_ok s p key xs \<longleftrightarrow> map_of (itemMap (ty s p)) key = key_last s key xs \<and>
     (\<forall>x \<in> set xs. keyed s key x \<longrightarrow> map_of (itemMap (ty s p)) key \<noteq> Some x \<longrightarrow> Deleted (itm s x))"

lemma superseded_iff:
  assumes "doc_ok s" "a \<in> stored s" "Parent (itm s a) = Some p" "listing s p = us @ a # vs" "map_of (itemMap (ty s p)) key = key_last s key (us @ vs)"
  shows "(if map_of (itemMap (ty s p)) key \<noteq> None \<and> map_of (itemMap (ty s p)) key \<noteq> Left (itm s a)
      then same_key_right s (Some key) (length (heap s)) (Right (itm s a)) else Inr False) = Inr (\<exists>x \<in> set vs. keyed s key x)"
proof -
  note pb = parent_bound[OF assms(1-3)] and d = listing_dll[OF assms(1) parent_bound[OF assms(1-3)]]
  obtain q m lst where u: "seg (heap s) None (t_start (ty s p)) us q m" and v: "seg (heap s) m q (a # vs) None lst"
    using d assms(4) by (auto simp: dll_def seg_append)
  have vr: "seg (heap s) (Some a) (Right (itm s a)) vs None lst" and lf: "Left (itm s a) = left_end us" using v seg_next[OF u] by (auto simp: left_end_def)
  have sk: "same_key_right s (Some key) (length (heap s)) (Right (itm s a)) = Inr (\<exists>x \<in> set vs. keyed s key x)"
    using same_key_right_scans[OF vr seg_length[OF vr]] by (simp add: keyed_def)
  have "\<forall>x \<in> set vs. \<not> keyed s key x" if "map_of (itemMap (ty s p)) key = None \<or> map_of (itemMap (ty s p)) key = Left (itm s a)"
  proof (rule ccontr)
    assume "\<not> ?thesis"
    then obtain y where y: "key_last s key vs = Some y" using key_last_None[of s key vs] by auto
    then have "map_of (itemMap (ty s p)) key = Some y" using assms(5) by simp
    then have "y \<in> set us" using that lf by (auto simp: left_end_def split: if_splits)
    moreover have "y \<in> set vs" using key_last_Some[OF y] by simp
    ultimately show False using dll_distinct[OF d] assms(4) by auto
  qed
  then show ?thesis using sk by auto
qed

lemma marks_deleted: "marks s D s' \<Longrightarrow> x < length (heap s) \<Longrightarrow> Deleted (itm s x) \<Longrightarrow> Deleted (itm s' x)"
  by (simp add: marks_def)

lemma marks_keyed: "marks s D s' \<Longrightarrow> x < length (heap s) \<Longrightarrow> keyed s' key x = keyed s key x"
  using alike_item[of s s' x] by (simp add: marks_def same_links_def keyed_def)

lemma marks_entry: "marks s D s' \<Longrightarrow> p < length (types s) \<Longrightarrow> itemMap (ty s' p) = itemMap (ty s p)"
  by (simp add: marks_def alike_def)

lemma key_last_cong: "(\<And>x. x \<in> set xs \<Longrightarrow> keyed s' key x = keyed s key x) \<Longrightarrow> key_last s' key xs = key_last s key xs"
  by (simp add: key_last_def cong: filter_cong)

lemma listing_heap: "doc_ok s \<Longrightarrow> p < length (types s) \<Longrightarrow> x \<in> set (listing s p) \<Longrightarrow> x < length (heap s)"
  using listing_iff stored_bound by blast

lemma marks_listing:
  assumes "doc_ok s" "marks s D s'" "p < length (types s)"
  shows "listing s' p = listing s p" "set xs \<subseteq> set (listing s p) \<Longrightarrow> key_last s' key xs = key_last s key xs"
proof -
  have "alike s s'" using assms(2) unfolding marks_def by (rule conjunct1)
  then show "listing s' p = listing s p" by (rule alike_listing(2)[OF assms(1) _ assms(3)])
  show "key_last s' key xs = key_last s key xs" if "set xs \<subseteq> set (listing s p)"
  proof (rule key_last_cong)
    fix x assume "x \<in> set xs"
    then have "x < length (heap s)" using that listing_heap[OF assms(1,3)] by blast
    then show "keyed s' key x = keyed s key x" by (rule marks_keyed[OF assms(2)])
  qed
qed

text \<open>A later item of the key: the new one is deleted.\<close>

lemma entry_superseded:
  assumes "doc_ok s" "nested_ok s" "a \<in> stored s" "Parent (itm s a) = Some p" "keyed s key a" "listing s p = us @ a # vs"
    and "entry_ok s p key (us @ vs)" "x \<in> set vs" "keyed s key x"
  obtains s' where "item_delete a s = Inr s'" "listing s' p = listing s p" "entry_ok s' p key (listing s p)"
proof -
  note pb = parent_bound[OF assms(1,3,4)]
  obtain s' where s': "item_delete a s = Inr s'" "evolves s s'" "marks s (if Deleted (itm s a) then {} else sub s a) s'" "Deleted (itm s' a)"
    by (rule delete_evolves[OF assms(1-3)])
  note m = marks_listing[OF assms(1) s'(3) pb] and ent = marks_entry[OF s'(3) pb]
  obtain y where y: "key_last s key vs = Some y" using assms(8,9) key_last_None[of s key vs] by auto
  have e: "map_of (itemMap (ty s p)) key = Some y" using assms(7) y by (simp add: entry_ok_def)
  have "Deleted (itm s' z)" if "z \<in> set (listing s p)" "keyed s' key z" "map_of (itemMap (ty s' p)) key \<noteq> Some z" for z
  proof (cases "z = a")
    case False
    note lt = listing_heap[OF assms(1) pb that(1)]
    have "keyed s key z" "z \<in> set (us @ vs)" using that marks_keyed[OF s'(3) lt] False assms(6) by auto
    then show ?thesis using assms(7) that(3) ent marks_deleted[OF s'(3) lt] by (simp add: entry_ok_def)
  qed (use s'(4) in simp)
  moreover have "key_last s' key (listing s p) = Some y"
    using m(2)[OF subset_refl, of key] assms(6) y key_last_append[of s key "us @ [a]" vs] by simp
  ultimately have "entry_ok s' p key (listing s p)" using ent e by (simp add: entry_ok_def)
  then show thesis using that s'(1) m(1) by blast
qed

text \<open>No later item of the key: the previous entry is deleted and replaced.\<close>

lemma delete_previous:
  assumes "doc_ok s" "nested_ok s" "p < length (types s)"
  obtains D s1 where "(case map_of (itemMap (ty s p)) key of Some ex \<Rightarrow> if ex \<noteq> a \<and> \<not> Deleted (itm s ex) then item_delete ex s else Inr s | None \<Rightarrow> Inr s) = Inr s1"
    "marks s D s1" "\<forall>ex. map_of (itemMap (ty s p)) key = Some ex \<longrightarrow> ex \<noteq> a \<longrightarrow> Deleted (itm s1 ex)"
proof (cases "\<exists>ex. map_of (itemMap (ty s p)) key = Some ex \<and> ex \<noteq> a \<and> \<not> Deleted (itm s ex)")
  case True
  then obtain ex where ex: "map_of (itemMap (ty s p)) key = Some ex" "ex \<noteq> a" "\<not> Deleted (itm s ex)" by blast
  have st: "ex \<in> stored s" using doc_okD(6)[OF assms(1)] ex(1) assms(3) by (simp add: entries_ok_def)
  obtain s1 where "item_delete ex s = Inr s1" "marks s (if Deleted (itm s ex) then {} else sub s ex) s1" "Deleted (itm s1 ex)"
    by (rule delete_evolves[OF assms(1,2) st])
  then show ?thesis using that ex by simp
next
  case False
  then show ?thesis using that[of s "{}"] inert_marks[OF assms(1) inert_refl] by (cases "map_of (itemMap (ty s p)) key") auto
qed

lemma entry_replaced:
  assumes "doc_ok s" "a \<in> stored s" "Parent (itm s a) = Some p" "keyed s key a" "listing s p = us @ a # vs" "entry_ok s p key (us @ vs)"
    and "\<forall>x \<in> set vs. \<not> keyed s key x" "marks s D s1" "\<forall>ex. map_of (itemMap (ty s p)) key = Some ex \<longrightarrow> ex \<noteq> a \<longrightarrow> Deleted (itm s1 ex)"
  defines "s' \<equiv> updt p (\<lambda>y. y\<lparr>itemMap := map_put key a (itemMap y)\<rparr>) s1"
  shows "listing s' p = listing s p" "entry_ok s' p key (listing s p)"
proof -
  note pb = parent_bound[OF assms(1-3)] and m = marks_listing[OF assms(1,8) parent_bound[OF assms(1-3)]]
  have p1: "p < length (types s1)" using assms(8) pb by (simp add: marks_def alike_def)
  have h: "heap s' = heap s1" "listing s' p = listing s1 p" "map_of (itemMap (ty s' p)) key = Some a" using p1
    by (simp_all add: s'_def listing_def nth_update_if)
  show "listing s' p = listing s p" using h(2) m(1) by simp
  have kd: "keyed s' key x = keyed s1 key x" for x by (simp add: keyed_def h(1))
  have "key_last s' key (listing s p) = key_last s1 key (listing s p)" by (rule key_last_cong) (rule kd)
  also have "\<dots> = key_last s key (listing s p)" by (rule m(2)) simp
  also have "\<dots> = Some a" unfolding assms(5) using assms(4,7) key_last_None[of s key vs] key_last_append[of s key "us @ [a]" vs] by simp
  finally have kl: "key_last s' key (listing s p) = Some a" .
  have "Deleted (itm s' x)" if "x \<in> set (listing s p)" "keyed s' key x" "map_of (itemMap (ty s' p)) key \<noteq> Some x" for x
  proof -
    note lt = listing_heap[OF assms(1) pb that(1)]
    have x: "x \<noteq> a" "x \<in> set (us @ vs)" "keyed s key x" using that h(3) kd marks_keyed[OF assms(8) lt] assms(5) by auto
    have "Deleted (itm s x) \<or> map_of (itemMap (ty s p)) key = Some x" using assms(6) x by (auto simp: entry_ok_def)
    then show ?thesis using assms(9) x(1) marks_deleted[OF assms(8) lt] h(1) by auto
  qed
  then show "entry_ok s' p key (listing s p)" using kl h(3) by (simp add: entry_ok_def)
qed

lemma entry_keeps:
  assumes "doc_ok s" "nested_ok s" "a \<in> stored s" "Parent (itm s a) = Some p" "ParentSub (itm s a) = Some key" "listing s p = us @ a # vs"
    and "entry_ok s p key (us @ vs)"
  obtains s' where "last_write_wins a p s = Inr s'" "listing s' p = listing s p" "entry_ok s' p key (listing s p)"
proof -
  have ka: "keyed s key a" using assms(5) by (simp add: keyed_def)
  have "map_of (itemMap (ty s p)) key = key_last s key (us @ vs)" using assms(7) by (simp add: entry_ok_def)
  note sup = superseded_iff[OF assms(1,3,4,6) this]
  show thesis
  proof (cases "\<exists>x \<in> set vs. keyed s key x")
    case True
    then obtain x where x: "x \<in> set vs" "keyed s key x" by blast
    obtain s' where s': "item_delete a s = Inr s'" "listing s' p = listing s p" "entry_ok s' p key (listing s p)"
      by (rule entry_superseded[OF assms(1-4) ka assms(6,7) x])
    have "last_write_wins a p s = Inr s'" using assms(5) sup True s'(1) by (simp add: last_write_wins_def Let_def)
    then show ?thesis using that s'(2,3) by blast
  next
    case False
    obtain D s1 where s1: "(case map_of (itemMap (ty s p)) key of Some ex \<Rightarrow> if ex \<noteq> a \<and> \<not> Deleted (itm s ex) then item_delete ex s else Inr s | None \<Rightarrow> Inr s) = Inr s1"
        "marks s D s1" "\<forall>ex. map_of (itemMap (ty s p)) key = Some ex \<longrightarrow> ex \<noteq> a \<longrightarrow> Deleted (itm s1 ex)"
      by (rule delete_previous[OF assms(1,2) parent_bound[OF assms(1,3,4)]])
    have nk: "\<forall>x \<in> set vs. \<not> keyed s key x" using False by blast
    have "last_write_wins a p s = Inr (updt p (\<lambda>y. y\<lparr>itemMap := map_put key a (itemMap y)\<rparr>) s1)"
      using assms(5) sup False s1(1) by (simp add: last_write_wins_def Let_def)
    then show ?thesis using that entry_replaced[OF assms(1,3,4) ka assms(6,7) nk s1(2,3)] by blast
  qed
qed

subsection \<open>Properties\<close>

text \<open>A map whose key k has the value of client 1 and gets a concurrent one of client 2, linked on its right.\<close>

definition map_item :: "ClientID \<Rightarrow> iaddr option \<Rightarrow> iaddr option \<Rightarrow> Item" where
  "map_item c l r = (plain_item c 0 None None 0 (ContentAny [ABool True]))\<lparr>ParentSub := Some [0x6B], Left := l, Right := r\<rparr>"

definition map_doc :: St where
  "map_doc = new_state [map_item 1 None (Some 1), map_item 2 (Some 0) None]
     [(new_type YMap)\<lparr>t_start := Some 0, t_length := 2, itemMap := [([0x6B], 0)]\<rparr>] [(1, [0]), (2, [1])]"

lemma map_parts [simp]:
  "heap map_doc = [map_item 1 None (Some 1), map_item 2 (Some 0) None]"
  "types map_doc = [(new_type YMap)\<lparr>t_start := Some 0, t_length := 2, itemMap := [([0x6B], 0)]\<rparr>]"
  "items_of map_doc c = (if c = 1 then [0] else if c = 2 then [1] else [])" "distinct (map fst (clients map_doc))"
  by (simp_all add: map_doc_def new_state_def map_list_def)

lemma map_item_simps [simp]:
  "ItemID (map_item c l r) = \<lparr>Client = c, IdClock = 0\<rparr>" "Left (map_item c l r) = l" "Right (map_item c l r) = r" "Parent (map_item c l r) = Some 0"
  "ParentSub (map_item c l r) = Some [0x6B]" "ItemContent (map_item c l r) = ContentAny [ABool True]" "\<not> Deleted (map_item c l r)"
  by (simp_all add: map_item_def plain_item_def)

lemma map_ok: "doc_ok map_doc" "nested_ok map_doc" "stored map_doc = {0, 1}" "listing map_doc 0 = [0] @ 1 # []"
proof -
  show st: "stored map_doc = {0, 1}" by (auto simp: stored_def split: if_splits intro!: exI[of _ 2])
  have s: "store_ok map_doc" by (simp add: store_ok_def isize_def good_def)
  have d: "dll map_doc 0 [0, 1]" by (simp add: dll_def)
  then have l: "listing map_doc 0 = [0, 1]" by (rule dll_listing)
  then show "listing map_doc 0 = [0] @ 1 # []" by simp
  have e: "{a \<in> stored map_doc. Parent (itm map_doc a) = Some 0} = {0, 1}" unfolding st by auto
  have "lists_ok map_doc" unfolding lists_ok_def using d e by (auto simp: l st)
  moreover have "links_ok map_doc" by (simp add: links_ok_def st)
  moreover have "counts_ok map_doc" using l by (simp add: counts_ok_def visible_len_def)
  moreover have "container map_doc x = None" if "x \<in> stored map_doc" for x using that by (auto simp: st container_def new_type_def)
  then have "up map_doc = {}" by (auto simp: up_def)
  then have "nest_ok map_doc" by (simp add: nest_ok_def st acyclic_def new_type_def)
  moreover have "entries_ok map_doc" by (simp add: entries_ok_def new_type_def st)
  ultimately show "doc_ok map_doc" using s by (simp add: doc_ok_def)
  show "nested_ok map_doc" by (simp add: nested_ok_def st)
qed

text \<open>
  C6: the last writer of a key wins.  If, apart from a newly linked item, the entry of its key is the rightmost item of
  the key and all others are deleted, then after the last-write-wins step this holds with the new item: the entry is the
  rightmost item of the key in the list of the parent, and every other item of the key is deleted.
\<close>

theorem last_writer_wins:
  assumes "doc_ok s" "nested_ok s" "a \<in> stored s" "Parent (itm s a) = Some p" "ParentSub (itm s a) = Some key" "listing s p = us @ a # vs"
    and "entry_ok s p key (us @ vs)"
  shows "\<exists>s'. last_write_wins a p s = Inr s' \<and> listing s' p = listing s p \<and> map_of (itemMap (ty s' p)) key = key_last s' key (listing s' p) \<and>
    (\<forall>x \<in> set (listing s' p). keyed s' key x \<longrightarrow> map_of (itemMap (ty s' p)) key \<noteq> Some x \<longrightarrow> Deleted (itm s' x))"
proof -
  obtain s' where s': "last_write_wins a p s = Inr s'" "listing s' p = listing s p" "entry_ok s' p key (listing s p)" by (rule entry_keeps[OF assms])
  from s'(3) show ?thesis unfolding s'(1) entry_ok_def s'(2)[symmetric] by (intro exI[of _ s']) (simp add: s'(2))
qed

theorem last_writer_wins_witness:
  "\<exists>s'. last_write_wins 1 0 map_doc = Inr s' \<and> listing s' 0 = [0, 1] \<and> map_of (itemMap (ty s' 0)) [0x6B] = key_last s' [0x6B] [0, 1]"
proof -
  have "entry_ok map_doc 0 [0x6B] ([0] @ [])" by (simp add: entry_ok_def keyed_def)
  moreover have "1 \<in> stored map_doc" "Parent (itm map_doc 1) = Some 0" "ParentSub (itm map_doc 1) = Some [0x6B]" by (simp_all add: map_ok(3))
  ultimately obtain s' where "last_write_wins 1 0 map_doc = Inr s'" "listing s' 0 = listing map_doc 0"
      "map_of (itemMap (ty s' 0)) [0x6B] = key_last s' [0x6B] (listing s' 0)"
    using last_writer_wins[OF map_ok(1,2) _ _ _ map_ok(4)] by blast
  then show ?thesis using map_ok(4) by (intro exI[of _ s']) simp
qed

end
