(* ===== verification/Spec2Isabelle.thy ===== *)
theory Spec2Isabelle
  imports Rle Any_Codec Delete_Set Id_Runs Awareness_Safety Convergence Map_Entries
begin

text \<open>
  A verification library for \<^verbatim>\<open>ygo\<close>, a Go implementation of the Yjs family of collaborative documents.  Paths are relative to
  \<^verbatim>\<open>src/\<close>.

  \<^bold>\<open>The program and its parts.\<close>  Peers exchange binary messages built from variable-length integers, strings, floats,
  tagged values and run-length columns (\<^verbatim>\<open>encoding\<close>, \<^verbatim>\<open>internal/anycodec\<close>).  A document (\<^verbatim>\<open>crdt\<close>) keeps one
  store of items per client, in which an item is a run of consecutive logical clocks with a content; the items of a shared
  type form a doubly linked list.  An incoming item is integrated by a conflict scan, a deletion turns items into
  tombstones and is recorded in a delete set, and sets and maps of identifiers describe parts of the history.  Presence
  of the peers is tracked beside the document (\<^verbatim>\<open>awareness\<close>).

  \<^bold>\<open>Modelling.\<close>  \<^verbatim>\<open>uint64\<close>, clocks and client identifiers are 64-bit words and bytes 8-bit words, so that wrap-around is
  that of the code; Go's \<^verbatim>\<open>int\<close> is \<open>int\<close>.  Errors and panics are the left side of a sum.  A Go map is a list of entries
  with distinct keys; what depends on its iteration order is stated for every order.  Pointers to items, types and
  subdocuments are addresses in heaps of the state record \<open>St\<close>, which holds the store, the types and the current
  transaction.  A loop that follows pointers takes fuel and the result \<open>NoReturn\<close> stands for a loop that does not end:
  its callers pass the length of the heap, and the theorems on deletion and integration show that this is
  enough in every well-formed state.  The JSON codec, clock readings and callbacks are arguments.

  \<^bold>\<open>Theories.\<close>
  \<^item> \<open>Ygo_Prelude\<close>, \<open>Codec\<close>: collections of facts, generic lemmas, readers as functions of the remaining bytes and the locales
    \<open>codec\<close>, \<open>codec_pair\<close> and \<open>column\<close> for a writer with its reader.
  \<^item> \<open>Varint\<close>, \<open>Utf8\<close>, \<open>Var_String\<close>, \<open>Float_Bits\<close>, \<open>Any_Codec\<close>: \<^verbatim>\<open>encoding/encoder.go\<close>, \<^verbatim>\<open>encoding/decoder.go\<close>,
    \<^verbatim>\<open>internal/anycodec\<close> and the UTF-16 helpers of \<^verbatim>\<open>crdt/content.go\<close>.  Round trips within the limits of the format, exact error
    conditions, equality of skipping with reading, independence of map order and cursor safety on arbitrary bytes.
  \<^item> \<open>Rle\<close>: \<^verbatim>\<open>encoding/rle.go\<close>, the columns of the second wire format, each an instance of the locale \<open>column\<close>.
  \<^item> \<open>Id_Range\<close>, \<open>Id_Set\<close>, \<open>Delete_Set\<close>, \<open>Id_Map\<close>: \<^verbatim>\<open>crdt/id.go\<close>, \<^verbatim>\<open>crdt/idset.go\<close>, \<^verbatim>\<open>crdt/idset_ops.go\<close>,
    \<^verbatim>\<open>crdt/delete_set.go\<close>, \<^verbatim>\<open>crdt/idmap.go\<close>, \<^verbatim>\<open>crdt/contentmap.go\<close>.  Runs are abstracted to sets of clocks; the locales
    \<open>clock_set\<close> and \<open>id_set\<close> state what insertion, membership and merging promise, and the operations refine those of sets.
  \<^item> \<open>Id_Runs\<close>: every set and map that any sequence of these operations builds, as a pair of inductive predicates, keeps its
    invariant; reads, which rewrite the stored runs, are steps too.
  \<^item> \<open>Awareness\<close>, \<open>Awareness_Safety\<close>: \<^verbatim>\<open>awareness/awareness.go\<close>.  The whole tracker as state passing, and an inductive run of
    calls and arbitrary incoming bytes in which the invariant and the limits hold.
  \<^item> \<open>Content\<close>, \<open>Struct_Store\<close>, \<open>Store_Facts\<close>: \<^verbatim>\<open>crdt/content.go\<close>, \<^verbatim>\<open>crdt/store.go\<close> and the splitting half of
    \<^verbatim>\<open>crdt/item.go\<close>.  The invariant \<open>doc_ok\<close> says that the store holds gap-free runs, the lists are well linked and hold
    exactly the stored items of their type, the lengths count what is visible and types nest without cycles.  Lookup is
    exact, and splitting refines: no list of unit identifiers changes.  A clean boundary cuts at most one item and keeps what is
    deleted; the halves make up its content unless a character of a text is cut, which the code replaces on both sides.
  \<^item> \<open>Integrate\<close>, \<open>Delete_Cascade\<close>: integration and deletion in \<^verbatim>\<open>crdt/item.go\<close> with the bookkeeping of
    \<^verbatim>\<open>crdt/transaction.go\<close> and \<^verbatim>\<open>crdt/search_marker.go\<close> that they call.  Deletion ends, deletes exactly the live items below
    the item and records them exactly.
  \<^item> \<open>Item_Placement\<close>, \<open>Item_Steps\<close>, \<open>Integrate_Facts\<close>: what each step of \<^verbatim>\<open>Item.integrate\<close> does to a document.  Linking an item
    into a well-formed list gives a well-formed list; splits, deletions and moves let the document evolve, that is, keep the
    invariant and every sequence of units; the scan stays between the origins.
  \<^item> \<open>Integrate_Total\<close>: \<^verbatim>\<open>Item.integrate\<close> as a whole.  It returns for every item that is ready, adds exactly the units that
    were not known at one place, keeps the invariant and leaves nothing alive in a deleted container.
  \<^item> \<open>Convergence\<close>: items that clients insert concurrently with the same origins end up in the order of their clients, in
    whatever order they are integrated.  The items are plain ones, without key, move or nested type; that two items with
    different origins converge is not shown.
  \<^item> \<open>Map_Entries\<close>: the entry of a key of a map is the rightmost item of the key, and the others are deleted.

  \<^bold>\<open>Not modelled.\<close>  The update codecs, which assemble the modelled values into messages, the user-facing shared types, undo,
  persistence, the network providers, the cluster relays, the mobile bindings and the programs: they are
  input and output, goroutines and timers, or long compositions over the parts above.  The goroutine that expires awareness
  states is left out; what one tick of it does is modelled.
\<close>

end
